(* ===== verification/Prelude.thy ===== *)
theory Prelude
  imports Complex_Main "HOL-Library.Word" "HOL-Library.AList" "HOL-Library.Sublist"
begin

text \<open>
  What every component of the development shares: the exceptions of the Python code as values,
  the sequencing of calls that may raise, loops that may raise (\<open>efold\<close>, \<open>emap\<close>), dictionaries
  in insertion order, and the collections that carry the component proofs.
\<close>

unbundle bit_operations_syntax

section \<open>Collections\<close>

named_theorems res_simps \<open>sequencing of calls that may raise\<close>
named_theorems dict_simps \<open>dictionaries in insertion order\<close>

section \<open>Exceptions as values\<close>

text \<open>
  The exceptions the tools raise. \<open>SysExit\<close> is \<open>sys.exit\<close> with a message;
  \<open>RecursionError\<close> is Python's limit on nested calls; \<open>NonTermination\<close> stands for a loop
  that never ends, so that a theorem that a call returns also says that its loops end.
\<close>

datatype pyerr =
    ValueError string
  | KeyError string
  | IndexError
  | TypeError
  | AssertionError string
  | SysExit string
  | RuntimeError string
  | TimeoutError
  | RecursionError
  | NonTermination

type_synonym 'a res = "pyerr + 'a"

type_synonym byte = "8 word"

definition ebind :: "'e + 'a \<Rightarrow> ('a \<Rightarrow> 'e + 'b) \<Rightarrow> 'e + 'b" where
  "ebind m f = (case m of Inl e \<Rightarrow> Inl e | Inr x \<Rightarrow> f x)"

text \<open>Evaluation reads a bind as the case distinction it is, so that what follows is not evaluated early.\<close>

lemma ebind_unfold [code_unfold]: "ebind m f = (case m of Inl e \<Rightarrow> Inl e | Inr x \<Rightarrow> f x)"
  by (simp add: ebind_def)

lemma ebind_Inl [simp, res_simps]: "ebind (Inl e) f = Inl e"
  by (simp add: ebind_def)

lemma ebind_Inr [simp, res_simps]: "ebind (Inr x) f = f x"
  by (simp add: ebind_def)

lemma ebind_eq_Inr [res_simps]: "ebind m f = Inr y \<longleftrightarrow> (\<exists>x. m = Inr x \<and> f x = Inr y)"
  by (cases m) auto

lemma ebind_eq_Inl [res_simps]:
  "ebind m f = Inl e \<longleftrightarrow> m = Inl e \<or> (\<exists>x. m = Inr x \<and> f x = Inl e)"
  by (cases m) auto

lemma ebind_InrE [elim]:
  assumes "ebind m f = Inr y"
  obtains x where "m = Inr x" and "f x = Inr y"
  using assms by (auto simp: ebind_eq_Inr)

lemma ebind_cong [fundef_cong]:
  assumes "m = m'" and "\<And>x. m' = Inr x \<Longrightarrow> f x = g x"
  shows "ebind m f = ebind m' g"
  using assms by (cases m') auto

lemma ebind_assoc: "ebind (ebind m f) g = ebind m (\<lambda>x. ebind (f x) g)"
  by (cases m) auto

text \<open>A check that raises, as the source's \<^verbatim>\<open>if not p: raise e\<close>.\<close>

definition ensure :: "bool \<Rightarrow> 'e \<Rightarrow> 'e + unit" where
  "ensure p e = (if p then Inr () else Inl e)"

lemma ensure_simps [simp]: "ensure True e = Inr ()" "ensure False e = Inl e"
  by (simp_all add: ensure_def)

lemma ensure_eq_Inr [res_simps]: "ensure p e = Inr u \<longleftrightarrow> p"
  by (simp add: ensure_def)

text \<open>\<open>xs[i]\<close> for an index that is not negative.\<close>

definition py_nth :: "'a list \<Rightarrow> nat \<Rightarrow> 'a res" where
  "py_nth xs i = (if i < length xs then Inr (xs ! i) else Inl IndexError)"

section \<open>Loops over a list whose body may raise\<close>

fun efold :: "('s \<Rightarrow> 'a \<Rightarrow> 'e + 's) \<Rightarrow> 's \<Rightarrow> 'a list \<Rightarrow> 'e + 's" where
  "efold f s [] = Inr s"
| "efold f s (x # xs) = ebind (f s x) (\<lambda>s'. efold f s' xs)"

fun emap :: "('a \<Rightarrow> 'e + 'b) \<Rightarrow> 'a list \<Rightarrow> 'e + 'b list" where
  "emap f [] = Inr []"
| "emap f (x # xs) = ebind (f x) (\<lambda>y. ebind (emap f xs) (\<lambda>ys. Inr (y # ys)))"

lemma efold_cong [fundef_cong]:
  assumes "s = t" and "xs = ys" and "\<And>s x. x \<in> set ys \<Longrightarrow> f s x = g s x"
  shows "efold f s xs = efold g t ys"
  using assms(3) unfolding assms(1,2)
proof (induction ys arbitrary: t)
  case (Cons y ys)
  then show ?case by (cases "g t y") auto
qed simp

lemma emap_cong [fundef_cong]:
  assumes "xs = ys" and "\<And>x. x \<in> set ys \<Longrightarrow> f x = g x"
  shows "emap f xs = emap g ys"
  using assms(2) unfolding assms(1) by (induction ys) (auto cong: ebind_cong)

lemma efold_append [simp]: "efold f s (xs @ ys) = ebind (efold f s xs) (\<lambda>s'. efold f s' ys)"
  by (induction xs arbitrary: s) (auto simp: ebind_assoc)

text \<open>The loop rule: a property the body keeps holds after the loop, if the loop returns.\<close>

lemma efold_inv:
  assumes "efold f s xs = Inr s'" and "P s"
    and "\<And>s x s'. x \<in> set xs \<Longrightarrow> P s \<Longrightarrow> f s x = Inr s' \<Longrightarrow> P s'"
  shows "P s'"
  using assms
proof (induction xs arbitrary: s)
  case Nil
  then show ?case by simp
next
  case (Cons x xs)
  from Cons.prems(1) obtain s1 where s1: "f s x = Inr s1" and rest: "efold f s1 xs = Inr s'"
    by (auto simp: ebind_eq_Inr)
  have "P s1" using Cons.prems(2,3) s1 by auto
  with rest show ?case using Cons.IH Cons.prems(3) by (meson list.set_intros(2))
qed

text \<open>The loop rule with the part already done: \<open>P\<close> relates the prefix to the state.\<close>

lemma efold_prefix_inv_from:
  assumes "efold f s zs = Inr s'" and "P ys s"
    and "\<And>us s x s'. prefix (us @ [x]) (ys @ zs) \<Longrightarrow> P us s \<Longrightarrow> f s x = Inr s' \<Longrightarrow> P (us @ [x]) s'"
  shows "P (ys @ zs) s'"
  using assms
proof (induction zs arbitrary: ys s)
  case Nil
  then show ?case by simp
next
  case (Cons z zs)
  then obtain s1 where s1: "f s z = Inr s1" and r: "efold f s1 zs = Inr s'"
    by (auto simp: ebind_eq_Inr)
  have "P (ys @ [z]) s1" using Cons.prems(2,3) s1 by simp
  then show ?case using Cons.IH [of s1 "ys @ [z]"] Cons.prems(3) r by simp
qed

lemma efold_prefix_inv:
  assumes "efold f s xs = Inr s'" and "P [] s"
    and "\<And>us s x s'. prefix (us @ [x]) xs \<Longrightarrow> P us s \<Longrightarrow> f s x = Inr s' \<Longrightarrow> P (us @ [x]) s'"
  shows "P xs s'"
  using efold_prefix_inv_from [of f s xs s' P "[]"] assms by simp

text \<open>A loop whose body always returns from states that satisfy an invariant returns.\<close>

lemma efold_total:
  assumes "P s" and "\<And>s x. x \<in> set xs \<Longrightarrow> P s \<Longrightarrow> \<exists>s'. f s x = Inr s' \<and> P s'"
  shows "\<exists>s'. efold f s xs = Inr s' \<and> P s'"
  using assms
proof (induction xs arbitrary: s)
  case Nil
  then show ?case by simp
next
  case (Cons x xs)
  from Cons.prems obtain s1 where "f s x = Inr s1" "P s1" by (meson list.set_intros(1))
  then show ?case using Cons.IH [of s1] Cons.prems(2) by auto
qed

text \<open>A loop whose body keeps an invariant and relates the states before and after it.\<close>

lemma efold_rel:
  assumes "efold f s xs = Inr s'" and "J s" and refl: "\<And>s. R s s"
    and trans: "\<And>a b c. R a b \<Longrightarrow> R b c \<Longrightarrow> R a c"
    and step: "\<And>s x s'. x \<in> set xs \<Longrightarrow> J s \<Longrightarrow> f s x = Inr s' \<Longrightarrow> J s' \<and> R s s'"
  shows "J s' \<and> R s s'"
proof (rule efold_inv [where P = "\<lambda>t. J t \<and> R s t", OF assms(1)])
  show "J s \<and> R s s" using assms(2) refl by simp
next
  fix a x b
  assume "x \<in> set xs" "J a \<and> R s a" "f a x = Inr b"
  with step [of x a b] trans [of s a b] show "J b \<and> R s b" by blast
qed

text \<open>What one round establishes, and the later rounds keep, holds after the loop.\<close>

lemma efold_hit:
  assumes "efold f s xs = Inr s'" and "x \<in> set xs" and "I s"
    and step: "\<And>s y s'. y \<in> set xs \<Longrightarrow> I s \<Longrightarrow> f s y = Inr s' \<Longrightarrow> I s'"
    and hit: "\<And>s s'. I s \<Longrightarrow> f s x = Inr s' \<Longrightarrow> Q s'"
    and kept: "\<And>s y s'. y \<in> set xs \<Longrightarrow> I s \<Longrightarrow> Q s \<Longrightarrow> f s y = Inr s' \<Longrightarrow> Q s'"
  shows "Q s'"
proof -
  from assms(2) obtain ys zs where xs: "xs = ys @ x # zs" by (auto simp: in_set_conv_decomp)
  with assms(1) obtain s1 s2 where 1: "efold f s ys = Inr s1" and 2: "f s1 x = Inr s2" and 3: "efold f s2 zs = Inr s'"
    by (auto simp: ebind_eq_Inr)
  have i1: "I s1" by (rule efold_inv [where P = I, OF 1 assms(3)]) (use xs step in auto)
  have "I s2 \<and> Q s2" using step [OF assms(2) i1 2] hit [OF i1 2] by simp
  then have "I s' \<and> Q s'"
    by (rule efold_inv [where P = "\<lambda>s. I s \<and> Q s", OF 3]) (use xs step kept in \<open>simp, blast\<close>)
  then show ?thesis ..
qed

lemma efold_pure: "efold (\<lambda>s x. Inr (f s x)) s xs = Inr (foldl f s xs)"
  by (induction xs arbitrary: s) auto

lemma emap_eq_Inr: "emap f xs = Inr ys \<longleftrightarrow> list_all2 (\<lambda>x y. f x = Inr y) xs ys"
proof (induction xs arbitrary: ys)
  case Nil
  then show ?case by auto
next
  case (Cons x xs)
  then show ?case by (cases ys) (auto simp: ebind_eq_Inr)
qed

lemma emap_result: "emap f xs = Inr ys \<Longrightarrow> y \<in> set ys \<Longrightarrow> \<exists>x \<in> set xs. f x = Inr y"
proof (induction xs arbitrary: ys)
  case (Cons x xs)
  then show ?case by (auto simp: ebind_eq_Inr)
qed simp

section \<open>Dictionaries in insertion order\<close>

text \<open>
  A Python dictionary whose iteration order matters is an association list: storing under a
  key that is present keeps its place, a new key goes to the end (\<open>AList.update\<close>).
\<close>

abbreviation dict_set :: "'k \<Rightarrow> 'v \<Rightarrow> ('k \<times> 'v) list \<Rightarrow> ('k \<times> 'v) list" where
  "dict_set \<equiv> AList.update"

definition dict_setdefault :: "'k \<Rightarrow> 'v \<Rightarrow> ('k \<times> 'v) list \<Rightarrow> ('k \<times> 'v) list" where
  "dict_setdefault k v d = (case map_of d k of None \<Rightarrow> d @ [(k, v)] | Some _ \<Rightarrow> d)"

definition dict_get :: "('k \<times> 'v) list \<Rightarrow> 'k \<Rightarrow> 'v \<Rightarrow> 'v" where
  "dict_get d k v = (case map_of d k of None \<Rightarrow> v | Some w \<Rightarrow> w)"

text \<open>A dictionary of lists (\<open>defaultdict(list)\<close>), and one of counts (\<open>Counter\<close>).\<close>

definition dict_append :: "'k \<Rightarrow> 'v \<Rightarrow> ('k \<times> 'v list) list \<Rightarrow> ('k \<times> 'v list) list" where
  "dict_append k x d = dict_set k (dict_get d k [] @ [x]) d"

lemma dict_set_mem: "x \<in> set (dict_set k v d) \<Longrightarrow> x = (k, v) \<or> x \<in> set d"
  by (induction d) (auto split: if_splits)

definition counter_inc :: "'k \<Rightarrow> ('k \<times> nat) list \<Rightarrow> ('k \<times> nat) list" where
  "counter_inc k d = dict_set k (Suc (dict_get d k 0)) d"

lemma dict_set_lookup [dict_simps]: "map_of (dict_set k v d) = (map_of d)(k \<mapsto> v)"
  by (rule update_conv')

lemma dict_setdefault_lookup [dict_simps]:
  "map_of (dict_setdefault k v d) = (if map_of d k = None then (map_of d)(k \<mapsto> v) else map_of d)"
  by (auto simp: dict_setdefault_def map_add_def fun_eq_iff split: option.splits)

lemma dict_set_keys [dict_simps]: "fst ` set (dict_set k v d) = insert k (fst ` set d)"
  by (induction d) auto

lemma dict_get_set [dict_simps]: "dict_get (dict_set k v d) k' w = (if k' = k then v else dict_get d k' w)"
  by (simp add: dict_get_def dict_set_lookup)

lemma dict_append_get [dict_simps]:
  "dict_get (dict_append k x d) k' [] = (if k' = k then dict_get d k [] @ [x] else dict_get d k' [])"
  by (simp add: dict_append_def dict_get_set)

lemma dict_set_distinct [dict_simps]:
  "distinct (map fst d) \<Longrightarrow> distinct (map fst (dict_set k v d))"
  by (rule distinct_update)

end
