(* ===== verification/Py_Text.thy ===== *)
theory Py_Text
  imports Prelude
begin

text \<open>
  The operations of Python's \<open>str\<close> and \<open>int\<close> that the tools use. A string is a list of
  characters; the files the tools read (netlists, cell models, memory images, observer logs) are
  ASCII, so the character classes are those of ASCII text.
\<close>

section \<open>Characters\<close>

definition ord :: "char \<Rightarrow> nat" where
  "ord c = of_char c"

definition is_digit :: "char \<Rightarrow> bool" where
  "is_digit c = (48 \<le> ord c \<and> ord c \<le> 57)"

definition is_letter :: "char \<Rightarrow> bool" where
  "is_letter c = (65 \<le> ord c \<and> ord c \<le> 90 \<or> 97 \<le> ord c \<and> ord c \<le> 122 \<or> ord c = 95)"

text \<open>The class \<^verbatim>\<open>\w\<close> of the module \<open>re\<close>.\<close>

definition is_word :: "char \<Rightarrow> bool" where
  "is_word c = (is_letter c \<or> is_digit c)"

text \<open>The class \<^verbatim>\<open>\s\<close>, which is also what \<open>strip\<close> and \<open>split\<close> cut at.\<close>

definition is_space :: "char \<Rightarrow> bool" where
  "is_space c = (9 \<le> ord c \<and> ord c \<le> 13 \<or> 28 \<le> ord c \<and> ord c \<le> 32)"

lemmas char_class_defs = is_digit_def is_letter_def is_word_def is_space_def

section \<open>str\<close>

definition py_strip :: "string \<Rightarrow> string" where
  "py_strip s = rev (dropWhile is_space (rev (dropWhile is_space s)))"

fun split_ws :: "string \<Rightarrow> string \<Rightarrow> string list" where
  "split_ws cur [] = (if cur = [] then [] else [rev cur])"
| "split_ws cur (c # cs) =
     (if is_space c then (if cur = [] then split_ws [] cs else rev cur # split_ws [] cs)
      else split_ws (c # cur) cs)"

definition py_split :: "string \<Rightarrow> string list" where
  "py_split s = split_ws [] s"

text \<open>\<open>s.split(sep)\<close> for a separator of one character.\<close>

fun split_on :: "char \<Rightarrow> string \<Rightarrow> string list" where
  "split_on sep [] = [[]]"
| "split_on sep (c # cs) =
     (if c = sep then [] # split_on sep cs
      else (case split_on sep cs of [] \<Rightarrow> [[c]] | p # ps \<Rightarrow> (c # p) # ps))"

text \<open>\<open>str(n)\<close> and \<open>f"{n:0{k}x}"\<close>.\<close>

definition digit_char :: "nat \<Rightarrow> char" where
  "digit_char d = char_of (if d < 10 then 48 + d else 87 + d)"

fun show_nat :: "nat \<Rightarrow> string" where
  "show_nat n = (if n < 10 then [digit_char n] else show_nat (n div 10) @ [digit_char (n mod 10)])"

fun show_hex :: "nat \<Rightarrow> string" where
  "show_hex n = (if n < 16 then [digit_char n] else show_hex (n div 16) @ [digit_char (n mod 16)])"

declare show_nat.simps [simp del] show_hex.simps [simp del]

definition show_int :: "int \<Rightarrow> string" where
  "show_int i = (if i < 0 then ''-'' @ show_nat (nat (- i)) else show_nat (nat i))"

definition zero_pad :: "nat \<Rightarrow> string \<Rightarrow> string" where
  "zero_pad k s = replicate (k - length s) (CHR ''0'') @ s"

definition pad_left :: "nat \<Rightarrow> string \<Rightarrow> string" where
  "pad_left k s = replicate (k - length s) (CHR '' '') @ s"

text \<open>\<open>sep.join(xs)\<close>.\<close>

fun join_sep :: "string \<Rightarrow> string list \<Rightarrow> string" where
  "join_sep sep [] = []"
| "join_sep sep [x] = x"
| "join_sep sep (x # xs) = x @ sep @ join_sep sep xs"

text \<open>\<open>repr\<close> of a dictionary from strings without quotes to numbers.\<close>

definition repr_counts :: "(string \<times> nat) list \<Rightarrow> string" where
  "repr_counts d = ''{'' @ join_sep '', '' (map (\<lambda>(k, n). CHR 0x27 # k @ CHR 0x27 # '': '' @ show_nat n) d) @ ''}''"

text \<open>\<open>repr\<close> of a list of strings that hold no quote.\<close>

definition repr_list :: "string list \<Rightarrow> string" where
  "repr_list xs = ''['' @ join_sep '', '' (map (\<lambda>x. CHR 0x27 # x @ [CHR 0x27]) xs) @ '']''"

section \<open>int(s, base)\<close>

definition digit_val :: "char \<Rightarrow> nat option" where
  "digit_val c =
     (if is_digit c then Some (ord c - 48)
      else if 97 \<le> ord c \<and> ord c \<le> 122 then Some (ord c - 87)
      else if 65 \<le> ord c \<and> ord c \<le> 90 then Some (ord c - 55)
      else None)"

text \<open>
  The digits after sign and prefix; a single underscore may stand between two digits (\<open>us\<close>: an
  underscore, or the end of the number, may not follow here).
\<close>

fun int_digits :: "nat \<Rightarrow> bool \<Rightarrow> nat \<Rightarrow> string \<Rightarrow> nat option" where
  "int_digits b us acc [] = (if us then None else Some acc)"
| "int_digits b us acc (c # cs) =
     (if c = CHR ''_'' then (if us then None else int_digits b True acc cs)
      else case digit_val c of
        None \<Rightarrow> None
      | Some d \<Rightarrow> if d < b then int_digits b False (acc * b + d) cs else None)"

definition base_prefix :: "nat \<Rightarrow> string \<Rightarrow> bool" where
  "base_prefix b p =
     (b = 16 \<and> (p = ''0x'' \<or> p = ''0X'') \<or> b = 2 \<and> (p = ''0b'' \<or> p = ''0B''))"

definition int_body :: "nat \<Rightarrow> string \<Rightarrow> nat option" where
  "int_body b s =
     (if base_prefix b (take 2 s)
      then (if drop 2 s = [] then None else int_digits b False 0 (drop 2 s))
      else int_digits b True 0 s)"

definition py_int :: "string \<Rightarrow> nat \<Rightarrow> int res" where
  "py_int s0 b =
     (let s = py_strip s0;
          neg = (s \<noteq> [] \<and> hd s = CHR ''-'');
          body = (if s \<noteq> [] \<and> (hd s = CHR ''-'' \<or> hd s = CHR ''+'') then tl s else s)
      in case int_body b body of
           None \<Rightarrow> Inl (ValueError (''invalid literal for int(): '' @ s0))
         | Some n \<Rightarrow> Inr (if neg then - int n else int n))"

section \<open>Lemmas\<close>

lemma ord_char_of [simp]: "n < 256 \<Longrightarrow> ord (char_of n) = n"
  by (simp add: ord_def)

lemma digit_val_char [simp]: "d < 36 \<Longrightarrow> digit_val (digit_char d) = Some d"
  by (auto simp: digit_val_def digit_char_def is_digit_def)

lemma ord_underscore: "ord (CHR ''_'') = 95" "ord (CHR ''-'') = 45" "ord (CHR ''+'') = 43"
  by (simp_all add: ord_def)

lemma digit_char_not:
  assumes "d < 36"
  shows "digit_char d \<noteq> CHR ''_''" "digit_char d \<noteq> CHR ''-''" "digit_char d \<noteq> CHR ''+''"
    "\<not> is_space (digit_char d)" "is_word (digit_char d)"
proof -
  have o: "ord (digit_char d) = (if d < 10 then 48 + d else 87 + d)"
    using assms by (simp add: digit_char_def)
  then have "ord (digit_char d) \<notin> {95, 45, 43}" using assms by auto
  then show "digit_char d \<noteq> CHR ''_''" "digit_char d \<noteq> CHR ''-''" "digit_char d \<noteq> CHR ''+''"
    using ord_underscore by (metis insertCI)+
  show "\<not> is_space (digit_char d)" "is_word (digit_char d)"
    using assms o by (auto simp: char_class_defs)
qed

lemma py_strip_id:
  assumes "s \<noteq> []" and "\<not> is_space (hd s)" and "\<not> is_space (last s)"
  shows "py_strip s = s"
proof -
  have "dropWhile is_space s = s" using assms(1,2) by (cases s) auto
  moreover have "dropWhile is_space (rev s) = rev s"
    using assms(1,3) by (cases s rule: rev_cases) auto
  ultimately show ?thesis by (simp add: py_strip_def)
qed

lemma split_on_append:
  "sep \<notin> set p \<Longrightarrow> split_on sep (p @ sep # s) = p # split_on sep s"
  by (induction p) auto

lemma split_on_lines:
  "(\<And>l. l \<in> set ls \<Longrightarrow> sep \<notin> set l) \<Longrightarrow>
    split_on sep (concat (map (\<lambda>l. l @ [sep]) ls)) = ls @ [[]]"
  by (induction ls) (auto simp: split_on_append)

text \<open>Hexadecimal numerals.\<close>

definition hex_string :: "string \<Rightarrow> bool" where
  "hex_string s \<longleftrightarrow> s \<noteq> [] \<and> (\<forall>c \<in> set s. \<exists>d < 16. c = digit_char d)"

lemma digit_char_0: "digit_char 0 = CHR ''0''"
  by code_simp

lemma show_hex_string: "hex_string (show_hex n)"
proof (induction n rule: show_hex.induct)
  case (1 n)
  then show ?case
    by (subst show_hex.simps) (auto simp: hex_string_def intro!: exI [of _ "n mod 16"])
qed

lemma zero_pad_string:
  assumes "hex_string s"
  shows "hex_string (zero_pad k s)"
proof -
  have "\<exists>d < 16. CHR ''0'' = digit_char d"
    using digit_char_0 by (intro exI [of _ 0]) simp
  with assms show ?thesis by (auto simp: hex_string_def zero_pad_def)
qed

lemma hex_string_ends:
  assumes "hex_string s"
  shows "s \<noteq> []" "\<not> is_space (hd s)" "\<not> is_space (last s)" "hd s \<noteq> CHR ''-''" "hd s \<noteq> CHR ''+''"
proof -
  show ne: "s \<noteq> []" using assms by (simp add: hex_string_def)
  from ne assms obtain d e where "d < 16" "hd s = digit_char d" "e < 16" "last s = digit_char e"
    unfolding hex_string_def by (meson hd_in_set last_in_set)
  then show "\<not> is_space (hd s)" "\<not> is_space (last s)" "hd s \<noteq> CHR ''-''" "hd s \<noteq> CHR ''+''"
    using digit_char_not [of d] digit_char_not [of e] by simp_all
qed

lemma hex_string_no_prefix: "hex_string s \<Longrightarrow> \<not> base_prefix 16 (take 2 s)"
proof
  assume h: "hex_string s" and p: "base_prefix 16 (take 2 s)"
  then have "CHR ''x'' \<in> set (take 2 s) \<or> CHR ''X'' \<in> set (take 2 s)"
    by (auto simp: base_prefix_def)
  then obtain c where c: "c \<in> set s" "c = CHR ''x'' \<or> c = CHR ''X''"
    using set_take_subset [of 2 s] by blast
  then obtain d where "d < 16" "c = digit_char d" using h by (auto simp: hex_string_def)
  then have "digit_val c \<noteq> None" "the (digit_val c) < 16" by simp_all
  moreover have "digit_val (CHR ''x'') = Some 33" "digit_val (CHR ''X'') = Some 33" by code_simp+
  ultimately show False using c(2) by auto
qed

lemma int_digits_show_hex: "int_digits 16 us 0 (show_hex n @ s) = int_digits 16 False n s"
proof (induction n arbitrary: s us rule: show_hex.induct)
  case (1 n)
  show ?case
  proof (cases "n < 16")
    case True
    then show ?thesis using digit_char_not [of n] by (subst show_hex.simps) simp
  next
    case False
    with 1 [of us "digit_char (n mod 16) # s"] digit_char_not [of "n mod 16"]
    show ?thesis by (subst show_hex.simps) simp
  qed
qed

lemma int_digits_zeros:
  "int_digits 16 us 0 (replicate k (CHR ''0'') @ s) = int_digits 16 (us \<and> k = 0) 0 s"
proof (induction k arbitrary: us)
  case (Suc k)
  have "digit_val (CHR ''0'') = Some 0" using digit_val_char [of 0] by (simp add: digit_char_0)
  then show ?case using Suc [of False] by simp
qed simp

lemma py_int_hex: "py_int (zero_pad k (show_hex n)) 16 = Inr (int n)"
proof -
  let ?s = "zero_pad k (show_hex n)"
  have h: "hex_string ?s" by (intro zero_pad_string show_hex_string)
  have "int_body 16 ?s = Some n"
    using hex_string_no_prefix [OF h] int_digits_show_hex [of _ n "[]"]
    by (simp add: int_body_def zero_pad_def int_digits_zeros)
  then show ?thesis
    using hex_string_ends [OF h] by (simp add: py_int_def py_strip_id Let_def)
qed

lemma length_show_hex: "n < 16 ^ k \<Longrightarrow> 0 < k \<Longrightarrow> length (show_hex n) \<le> k"
proof (induction n arbitrary: k rule: show_hex.induct)
  case (1 n)
  show ?case
  proof (cases "n < 16")
    case True
    then show ?thesis using 1 by (subst show_hex.simps) simp
  next
    case False
    then obtain k' where k: "k = Suc k'" "0 < k'" using "1.prems"
      by (cases k; cases "k - 1") auto
    then have "n div 16 < 16 ^ k'" using "1.prems" by auto
    with 1(1) [OF False] k show ?thesis using False by (subst show_hex.simps) simp
  qed
qed

lemma length_zero_pad: "length (zero_pad k s) = max k (length s)"
  by (simp add: zero_pad_def)

text \<open>Decimal numerals.\<close>

lemma is_digit_val: "is_digit c \<Longrightarrow> digit_val c = Some (ord c - 48) \<and> ord c - 48 < 10 \<and> c \<noteq> CHR ''_''"
  using ord_underscore(1) by (auto simp: digit_val_def is_digit_def)

lemma is_digit_word: "is_digit c \<Longrightarrow> is_word c"
  by (simp add: is_word_def)

lemma is_digit_not: "is_digit c \<Longrightarrow> \<not> is_space c \<and> c \<noteq> CHR ''-'' \<and> c \<noteq> CHR ''+''"
  using ord_underscore by (auto simp: is_digit_def is_space_def)

lemma is_word_not_space: "is_word c \<Longrightarrow> \<not> is_space c"
  by (auto simp: char_class_defs)

lemma int_digits_dec:
  "list_all is_digit ds \<Longrightarrow> ds \<noteq> [] \<or> \<not> us \<Longrightarrow> \<exists>n. int_digits 10 us acc ds = Some n"
proof (induction ds arbitrary: us acc)
  case (Cons c ds)
  then show ?case using is_digit_val [of c] by simp
qed simp

lemma py_int_dec:
  assumes "ds \<noteq> []" and "list_all is_digit ds"
  shows "\<exists>n. py_int ds 10 = Inr (int n)"
proof -
  have "is_digit (hd ds)" "is_digit (last ds)" using assms by (simp_all add: list_all_iff)
  then have "py_strip ds = ds" "hd ds \<noteq> CHR ''-''" "hd ds \<noteq> CHR ''+''"
    using assms is_digit_not by (auto intro!: py_strip_id)
  then show ?thesis
    using int_digits_dec [OF assms(2), of True 0] assms(1)
    by (auto simp: py_int_def Let_def int_body_def base_prefix_def)
qed

lemma digit_char_dec: "d < 10 \<Longrightarrow> is_digit (digit_char d)"
  by (simp add: is_digit_def digit_char_def)

lemma show_nat_digits: "show_nat n \<noteq> [] \<and> list_all is_digit (show_nat n)"
proof (induction n rule: show_nat.induct)
  case (1 n)
  then show ?case by (subst (1 2) show_nat.simps) (auto simp: digit_char_dec)
qed

lemma int_digits_show_nat: "int_digits 10 us 0 (show_nat n @ s) = int_digits 10 False n s"
proof (induction n arbitrary: s us rule: show_nat.induct)
  case (1 n)
  show ?case
  proof (cases "n < 10")
    case True
    then show ?thesis using digit_char_not [of n] by (subst show_nat.simps) simp
  next
    case False
    with 1 [of us "digit_char (n mod 10) # s"] digit_char_not [of "n mod 10"]
    show ?thesis by (subst show_nat.simps) simp
  qed
qed

lemma py_int_show_nat [simp]: "py_int (show_nat n) 10 = Inr (int n)"
proof -
  note d = show_nat_digits [of n]
  then have "is_digit (hd (show_nat n))" "is_digit (last (show_nat n))"
    by (simp_all add: list_all_iff)
  then have "py_strip (show_nat n) = show_nat n" "hd (show_nat n) \<noteq> CHR ''-''"
      "hd (show_nat n) \<noteq> CHR ''+''"
    using d is_digit_not by (auto intro!: py_strip_id)
  then show ?thesis
    using int_digits_show_nat [of True n "[]"] d
    by (auto simp: py_int_def Let_def int_body_def base_prefix_def)
qed

end
