(* ===== verification/Mkrom.thy ===== *)
theory Mkrom
  imports Py_Text
begin

text \<open>
  \<open>fpga/tools/mkrom.py\<close>: a byte image (objcopy's Verilog format) into the hexadecimal words of
  \<open>$readmemh\<close>. The files are the strings \<open>text\<close> (read) and the result (written).
\<close>

section \<open>The program\<close>

text \<open>\<open>mem[addr] = v\<close> on a byte array: a negative index counts from the end.\<close>

definition bytearray_set :: "byte list \<Rightarrow> int \<Rightarrow> int \<Rightarrow> byte list res" where
  "bytearray_set mem addr v =
     (let n = int (length mem); i = (if addr < 0 then addr + n else addr) in
      if \<not> (0 \<le> i \<and> i < n) then Inl IndexError
      else if \<not> (0 \<le> v \<and> v < 256) then Inl (ValueError ''byte must be in range(0, 256)'')
      else Inr (mem[nat i := word_of_int v]))"

definition mkrom_token :: "string \<Rightarrow> int \<Rightarrow> byte list \<times> int \<Rightarrow> string \<Rightarrow> (byte list \<times> int) res" where
  "mkrom_token src words st tok =
     (case st of (mem, addr) \<Rightarrow>
        if prefix ''@'' tok
        then ebind (py_int (tl tok) 16) (\<lambda>a. Inr (mem, a))
        else if addr \<ge> int (length mem)
        then Inl (SysExit (src @ '': byte address 0x'' @ show_hex (nat addr) @ '' beyond '' @
          show_int words @ '' words''))
        else ebind (py_int tok 16) (\<lambda>v. ebind (bytearray_set mem addr v) (\<lambda>mem'.
          Inr (mem', addr + 1))))"

definition mkrom_load :: "string \<Rightarrow> int \<Rightarrow> int \<Rightarrow> string list \<Rightarrow> byte list res" where
  "mkrom_load src words nb toks =
     (if words * nb < 0 then Inl (ValueError ''negative count'')
      else ebind (efold (mkrom_token src words) (replicate (nat (words * nb)) 0, 0) toks)
             (\<lambda>(mem, addr). Inr mem))"

text \<open>\<open>int.from_bytes(bs, "little")\<close>.\<close>

fun from_bytes_little :: "byte list \<Rightarrow> nat" where
  "from_bytes_little [] = 0"
| "from_bytes_little (b # bs) = unat b + 256 * from_bytes_little bs"

definition mkrom_line :: "nat \<Rightarrow> byte list \<Rightarrow> nat \<Rightarrow> string" where
  "mkrom_line nb mem i =
     zero_pad (nb * 2) (show_hex (from_bytes_little (take nb (drop (i * nb) mem))))"

definition mkrom_write :: "int \<Rightarrow> int \<Rightarrow> byte list \<Rightarrow> string" where
  "mkrom_write words nb mem =
     concat (map (\<lambda>i. mkrom_line (nat nb) mem i @ [CHR 0x0A]) [0..<nat words])"

text \<open>\<open>main\<close>: \<open>argv\<close> with the program's name first, and what the file \<open>argv[1]\<close> holds.\<close>

definition mkrom_main :: "string list \<Rightarrow> string \<Rightarrow> string res" where
  "mkrom_main argv txt =
     (if length argv < 4 then Inl IndexError
      else ebind (py_int (argv ! 3) 10) (\<lambda>words.
        ebind (if length argv > 5 \<and> argv ! 4 = ''--width'' then py_int (argv ! 5) 10 else Inr 32)
          (\<lambda>width. let nb = width div 8 in
            ebind (mkrom_load (argv ! 1) words nb (py_split txt)) (\<lambda>mem.
              Inr (mkrom_write words nb mem)))))"

section \<open>What the image says\<close>

text \<open>The writes of a well-formed image, in order: each byte with its address.\<close>

fun image_writes :: "int \<Rightarrow> string list \<Rightarrow> (int \<times> int) list option" where
  "image_writes a [] = Some []"
| "image_writes a (t # ts) =
     (if prefix ''@'' t
      then (case py_int (tl t) 16 of Inl e \<Rightarrow> None | Inr a' \<Rightarrow> image_writes a' ts)
      else (case py_int t 16 of
              Inl e \<Rightarrow> None
            | Inr v \<Rightarrow> map_option (Cons (a, v)) (image_writes (a + 1) ts)))"

text \<open>The byte an address holds after the writes: the last one to it, or what was there.\<close>

definition byte_after :: "(int \<times> int) list \<Rightarrow> byte list \<Rightarrow> nat \<Rightarrow> byte" where
  "byte_after ws mem k =
     (case map_of (rev ws) (int k) of None \<Rightarrow> mem ! k | Some v \<Rightarrow> word_of_int v)"

section \<open>Lemmas\<close>

lemma byte_after_Cons:
  assumes "0 \<le> a" and "k < length mem"
  shows "byte_after ((a, v) # ws) mem k = byte_after ws (mem[nat a := word_of_int v]) k"
proof -
  have "map_of (rev ((a, v) # ws)) (int k) =
      (case map_of (rev ws) (int k) of Some w \<Rightarrow> Some w | None \<Rightarrow> if a = int k then Some v else None)"
    by (simp add: map_add_def split: option.splits)
  moreover have "(mem[nat a := word_of_int v]) ! k = (if a = int k then word_of_int v else mem ! k)"
    using assms by (auto simp: nth_list_update)
  ultimately show ?thesis unfolding byte_after_def by (auto split: option.splits)
qed

lemma mkrom_tokens_ok:
  assumes "image_writes a toks = Some ws"
    and "\<forall>(k, v) \<in> set ws. 0 \<le> k \<and> k < int (length mem) \<and> 0 \<le> v \<and> v < 256"
  shows "\<exists>mem' a'. efold (mkrom_token src words) (mem, a) toks = Inr (mem', a') \<and>
    length mem' = length mem \<and> (\<forall>k < length mem. mem' ! k = byte_after ws mem k)"
  using assms
proof (induction toks arbitrary: a mem ws)
  case Nil
  then show ?case by (simp add: byte_after_def)
next
  case (Cons t toks)
  show ?case
  proof (cases "prefix ''@'' t")
    case True
    with Cons.prems(1) obtain a1 where "py_int (tl t) 16 = Inr a1" "image_writes a1 toks = Some ws"
      by (auto split: sum.splits)
    with Cons.IH [OF this(2) Cons.prems(2)] True show ?thesis by (simp add: mkrom_token_def)
  next
    case False
    with Cons.prems(1) obtain v ws1 where v: "py_int t 16 = Inr v"
      and ws1: "image_writes (a + 1) toks = Some ws1" and ws: "ws = (a, v) # ws1"
      by (auto split: sum.splits)
    let ?mem1 = "mem[nat a := word_of_int v]"
    have a: "0 \<le> a" "a < int (length mem)" "0 \<le> v" "v < 256" using Cons.prems(2) ws by auto
    then have "mkrom_token src words (mem, a) t = Inr (?mem1, a + 1)"
      using False v by (simp add: mkrom_token_def bytearray_set_def Let_def)
    moreover have "\<forall>(k, v) \<in> set ws1. 0 \<le> k \<and> k < int (length ?mem1) \<and> 0 \<le> v \<and> v < 256"
      using Cons.prems(2) ws by auto
    ultimately show ?thesis
      using Cons.IH [OF ws1, of ?mem1] a(1) ws by (auto simp: byte_after_Cons)
  qed
qed

lemma mkrom_tokens_beyond:
  assumes "image_writes a toks = Some ws"
    and "\<forall>(k, v) \<in> set ws. 0 \<le> k \<and> 0 \<le> v \<and> v < 256"
    and "\<exists>(k, v) \<in> set ws. int (length mem) \<le> k"
  shows "\<exists>m. efold (mkrom_token src words) (mem, a) toks = Inl (SysExit m)"
  using assms
proof (induction toks arbitrary: a mem ws)
  case Nil
  then show ?case by simp
next
  case (Cons t toks)
  show ?case
  proof (cases "prefix ''@'' t")
    case True
    with Cons.prems(1) obtain a1 where "py_int (tl t) 16 = Inr a1" "image_writes a1 toks = Some ws"
      by (auto split: sum.splits)
    with Cons.IH [OF this(2) Cons.prems(2,3)] True show ?thesis by (simp add: mkrom_token_def)
  next
    case False
    with Cons.prems(1) obtain v ws1 where v: "py_int t 16 = Inr v"
      and ws1: "image_writes (a + 1) toks = Some ws1" and ws: "ws = (a, v) # ws1"
      by (auto split: sum.splits)
    show ?thesis
    proof (cases "int (length mem) \<le> a")
      case True
      with False show ?thesis by (simp add: mkrom_token_def)
    next
      case inside: False
      let ?mem1 = "mem[nat a := word_of_int v]"
      have "mkrom_token src words (mem, a) t = Inr (?mem1, a + 1)"
        using False v inside Cons.prems(2) ws by (simp add: mkrom_token_def bytearray_set_def Let_def)
      with Cons.IH [OF ws1, of ?mem1] Cons.prems(2,3) ws inside show ?thesis by auto
    qed
  qed
qed

section \<open>Reading the output back\<close>

text \<open>What \<open>$readmemh\<close> reads: one hexadecimal word per line; and the bytes of a word, low byte first.\<close>

definition read_words :: "string \<Rightarrow> int list res" where
  "read_words txt = emap (\<lambda>l. py_int l 16) (butlast (split_on (CHR 0x0A) txt))"

fun to_bytes_little :: "nat \<Rightarrow> nat \<Rightarrow> byte list" where
  "to_bytes_little 0 w = []"
| "to_bytes_little (Suc k) w = of_nat (w mod 256) # to_bytes_little k (w div 256)"

lemma to_from_bytes_little: "to_bytes_little (length bs) (from_bytes_little bs) = bs"
proof (induction bs)
  case (Cons b bs)
  have "unat b < 256" using unsigned_less [of b, where 'a = nat] by simp
  then have "(unat b + 256 * n) mod 256 = unat b" "(unat b + 256 * n) div 256 = n" for n
    by simp_all
  then show ?case using Cons by simp
qed simp

lemma from_bytes_little_bound: "from_bytes_little bs < 256 ^ length bs"
proof (induction bs)
  case (Cons b bs)
  have "unat b < 256" using unsigned_less [of b, where 'a = nat] by simp
  with Cons show ?case by simp
qed simp

lemma concat_slices:
  "length mem = n * nb \<Longrightarrow> concat (map (\<lambda>i. take nb (drop (i * nb) mem)) [0..<n]) = mem"
proof -
  have "concat (map (\<lambda>i. take nb (drop (i * nb) mem)) [0..<k]) = take (k * nb) mem" for k
  proof (induction k)
    case (Suc k)
    have "take (Suc k * nb) mem = take (k * nb) mem @ take nb (drop (k * nb) mem)"
      by (simp add: take_add [symmetric] add.commute)
    with Suc show ?case by simp
  qed simp
  then show "length mem = n * nb \<Longrightarrow> ?thesis" by simp
qed

lemma mkrom_line_hex: "hex_string (mkrom_line nb mem i)"
  by (simp add: mkrom_line_def zero_pad_string show_hex_string)

lemma mkrom_line_no_newline: "CHR 0x0A \<notin> set (mkrom_line nb mem i)"
proof
  assume "CHR 0x0A \<in> set (mkrom_line nb mem i)"
  then obtain d where "d < 16" "CHR 0x0A = digit_char d"
    using mkrom_line_hex [of nb mem i] by (auto simp: hex_string_def)
  then have "\<not> is_space (CHR 0x0A)" using digit_char_not(4) [of d] by simp
  moreover have "is_space (CHR 0x0A)" by code_simp
  ultimately show False by contradiction
qed

lemma split_write: "split_on (CHR 0x0A) (mkrom_write words nb mem) =
    map (mkrom_line (nat nb) mem) [0..<nat words] @ [[]]"
proof -
  have "mkrom_write words nb mem =
      concat (map (\<lambda>l. l @ [CHR 0x0A]) (map (mkrom_line (nat nb) mem) [0..<nat words]))"
    by (simp add: mkrom_write_def comp_def)
  then show ?thesis
    by (simp only:) (subst split_on_lines, auto simp: mkrom_line_no_newline)
qed

lemma read_write:
  assumes "length mem = nat words * nat nb"
  shows "\<exists>ws. read_words (mkrom_write words nb mem) = Inr (map int ws) \<and>
    concat (map (to_bytes_little (nat nb)) ws) = mem"
proof -
  let ?slice = "\<lambda>i. take (nat nb) (drop (i * nat nb) mem)"
  let ?ws = "map (\<lambda>i. from_bytes_little (?slice i)) [0..<nat words]"
  have "read_words (mkrom_write words nb mem) = Inr (map int ?ws)"
    by (simp add: read_words_def split_write emap_eq_Inr list_all2_conv_all_nth mkrom_line_def py_int_hex)
  moreover have "to_bytes_little (nat nb) (from_bytes_little (?slice i)) = ?slice i"
    if "i < nat words" for i
  proof -
    have "(i + 1) * nat nb \<le> nat words * nat nb" using that by (intro mult_le_mono1) simp
    then have "nat nb \<le> length mem - i * nat nb"
      unfolding assms by (intro add_le_imp_le_diff) simp
    then have "length (?slice i) = nat nb" by simp
    then show ?thesis using to_from_bytes_little [of "?slice i"] by simp
  qed
  then have "concat (map (to_bytes_little (nat nb)) ?ws) = concat (map ?slice [0..<nat words])"
    by (intro arg_cong [where f = concat]) simp
  then have "concat (map (to_bytes_little (nat nb)) ?ws) = mem" using concat_slices [OF assms] by simp
  ultimately show ?thesis by blast
qed

lemma mkrom_line_length:
  assumes "0 < nb"
  shows "length (mkrom_line nb mem i) = 2 * nb"
proof -
  let ?s = "take nb (drop (i * nb) mem)"
  have "from_bytes_little ?s < 256 ^ length ?s" by (rule from_bytes_little_bound)
  also have "\<dots> \<le> 256 ^ nb" by (rule power_increasing) simp_all
  finally have "from_bytes_little ?s < 256 ^ nb" .
  also have "\<dots> = 16 ^ (2 * nb)" by (simp add: power_mult)
  finally have "length (show_hex (from_bytes_little ?s)) \<le> 2 * nb"
    using assms by (intro length_show_hex) auto
  then show ?thesis by (simp add: mkrom_line_def length_zero_pad)
qed

section \<open>Properties\<close>

text \<open>C25: For a well-formed image inside the memory, reading the words mkrom writes and splitting
  each little-endian gives the memory the image describes: every byte the last one written to
  its address, zero elsewhere.\<close>

theorem mkrom_image:
  assumes "3 < length argv" and "py_int (argv ! 3) 10 = Inr words"
    and "(if 5 < length argv \<and> argv ! 4 = ''--width'' then py_int (argv ! 5) 10 else Inr 32) = Inr (8 * nb)"
    and "0 \<le> words" and "0 < nb"
    and "image_writes 0 (py_split txt) = Some ws"
    and "\<forall>(a, v) \<in> set ws. 0 \<le> a \<and> a < words * nb \<and> 0 \<le> v \<and> v < 256"
  shows "\<exists>out ws' mem. mkrom_main argv txt = Inr out \<and> read_words out = Inr (map int ws') \<and>
    length ws' = nat words \<and> concat (map (to_bytes_little (nat nb)) ws') = mem \<and>
    (\<forall>k < nat (words * nb). mem ! k = byte_after ws (replicate (nat (words * nb)) 0) k)"
proof -
  let ?mem0 = "replicate (nat (words * nb)) (0 :: byte)"
  have nn: "0 \<le> words * nb" using assms(4,5) by simp
  obtain mem a' where mem: "efold (mkrom_token (argv ! 1) words) (?mem0, 0) (py_split txt) = Inr (mem, a')"
    and len: "length mem = nat (words * nb)"
    and bytes: "\<forall>k < nat (words * nb). mem ! k = byte_after ws ?mem0 k"
    using mkrom_tokens_ok [OF assms(6), of ?mem0 "argv ! 1" words] assms(7) nn by auto
  have "mkrom_main argv txt = Inr (mkrom_write words nb mem)"
    using assms(1,2,3) nn mem by (simp add: mkrom_main_def mkrom_load_def Let_def)
  moreover obtain ws' where
    ws': "read_words (mkrom_write words nb mem) = Inr (map int ws')"
    "concat (map (to_bytes_little (nat nb)) ws') = mem"
    using read_write [of mem words nb] len assms(4) by (auto simp: nat_mult_distrib)
  moreover have "length ws' = nat words"
    using ws'(1) by (simp add: read_words_def split_write emap_eq_Inr list_all2_conv_all_nth)
  ultimately show ?thesis using bytes by blast
qed

theorem mkrom_image_witness:
  "\<exists>out ws' mem. mkrom_main [''mkrom.py'', ''i'', ''o'', ''2''] ''@4 AB 01'' = Inr out \<and>
    read_words out = Inr (map int ws') \<and> length ws' = nat 2 \<and>
    concat (map (to_bytes_little (nat 4)) ws') = mem \<and>
    (\<forall>k < nat (2 * 4). mem ! k = byte_after [(4, 0xAB), (5, 1)] (replicate (nat (2 * 4)) 0) k)"
proof (rule mkrom_image)
  show "image_writes 0 (py_split ''@4 AB 01'') = Some [(4, 0xAB), (5, 1)]" by code_simp
  show "py_int ([''mkrom.py'', ''i'', ''o'', ''2''] ! 3) 10 = Inr 2" by code_simp
qed simp_all

text \<open>An image with a byte at an address beyond the memory makes mkrom exit with a message, never
  write a truncated image.\<close>

theorem mkrom_beyond:
  assumes "image_writes 0 toks = Some ws" and "\<forall>(a, v) \<in> set ws. 0 \<le> a \<and> 0 \<le> v \<and> v < 256"
    and "0 \<le> words * nb" and "\<exists>(a, v) \<in> set ws. words * nb \<le> a"
  shows "\<exists>m. mkrom_load src words nb toks = Inl (SysExit m)"
proof -
  have "\<exists>m. efold (mkrom_token src words) (replicate (nat (words * nb)) 0, 0) toks = Inl (SysExit m)"
    using assms by (intro mkrom_tokens_beyond [OF assms(1,2)]) auto
  then show ?thesis using assms(3) by (auto simp: mkrom_load_def)
qed

theorem mkrom_beyond_witness: "\<exists>m. mkrom_load ''i'' 1 4 [''@4'', ''00''] = Inl (SysExit m)"
proof (rule mkrom_beyond)
  show "image_writes 0 [''@4'', ''00''] = Some [(4, 0)]" by code_simp
qed simp_all

text \<open>mkrom writes exactly one line per word, each of twice the word size in bytes hexadecimal
  digits.\<close>

theorem mkrom_lines:
  assumes "0 < nb"
  shows "\<exists>ls. split_on (CHR 0x0A) (mkrom_write words nb mem) = ls @ [[]] \<and> length ls = nat words \<and>
    (\<forall>l \<in> set ls. length l = 2 * nat nb \<and> hex_string l)"
  using assms mkrom_line_length [of "nat nb" mem] mkrom_line_hex
  by (auto simp: split_write)

theorem mkrom_lines_witness:
  "\<exists>ls. split_on (CHR 0x0A) (mkrom_write 1 4 [1, 2, 3, 4]) = ls @ [[]] \<and> length ls = nat 1 \<and>
    (\<forall>l \<in> set ls. length l = 2 * nat 4 \<and> hex_string l)"
  by (rule mkrom_lines) simp

end
