(* ===== verification/Uart_Stream.thy ===== *)
theory Uart_Stream
  imports Prelude
begin

text \<open>
  The board's UART stream: the class \<open>Stream\<close> of \<open>fpga/host/board_campaign.py\<close>, and the framing
  that \<open>fpga/rtl/fi_board_uart.v\<close> sends. A byte is an \<open>8 word\<close>, a Python float (a time stamp) a
  real. The reader thread's state is \<open>stream\<close>; the serial port, the lock and the stop flag are
  not part of it, and what the lock protects is one step of \<open>stream_step\<close> at the end.
\<close>

section \<open>The class Stream\<close>

record run =
  r_trial :: int
  r_cycles_prev :: int
  r_flags_prev :: int
  r_t :: real
  r_data :: "byte list"

record stream =
  s_runs :: "run list"
  s_esc :: bool
  s_rec :: "byte list option"

definition stream_init :: stream where
  "stream_init = \<lparr>s_runs = [], s_esc = False, s_rec = None\<rparr>"

text \<open>\<open>int.from_bytes(bs, "big")\<close>.\<close>

definition from_bytes_big :: "byte list \<Rightarrow> int" where
  "from_bytes_big bs = foldl (\<lambda>a b. a * 256 + uint b) 0 bs"

text \<open>The entry \<open>_byte\<close> appends when the eighth byte of a record has arrived.\<close>

definition record_run :: "byte list \<Rightarrow> real \<Rightarrow> run" where
  "record_run r now =
     \<lparr>r_trial = push_bit 8 (uint (r ! 1)) OR uint (r ! 2),
      r_cycles_prev = from_bytes_big (take 4 (drop 3 r)),
      r_flags_prev = uint (r ! 7), r_t = now, r_data = []\<rparr>"

fun append_last :: "byte \<Rightarrow> run list \<Rightarrow> run list" where
  "append_last x [] = []"
| "append_last x [r] = [r\<lparr>r_data := r_data r @ [x]\<rparr>]"
| "append_last x (r # rs) = r # append_last x rs"

text \<open>What \<open>_byte\<close> does with a byte once its escape is undone.\<close>

definition stream_store :: "byte \<Rightarrow> real \<Rightarrow> stream \<Rightarrow> stream" where
  "stream_store x now st =
     (case s_rec st of
        Some r \<Rightarrow>
          if length (r @ [x]) = 8
          then st\<lparr>s_rec := None, s_runs := s_runs st @ [record_run (r @ [x]) now]\<rparr>
          else st\<lparr>s_rec := Some (r @ [x])\<rparr>
      | None \<Rightarrow>
          if s_runs st \<noteq> [] then st\<lparr>s_runs := append_last x (s_runs st)\<rparr> else st)"

definition stream_byte :: "byte \<Rightarrow> real \<Rightarrow> stream \<Rightarrow> stream" where
  "stream_byte x now st =
     (if x = 0xC0 then st\<lparr>s_rec := Some [], s_esc := False\<rparr>
      else if x = 0xDB then st\<lparr>s_esc := True\<rparr>
      else if s_esc st
        then stream_store (if x = 0xDC then 0xC0 else 0xDB) now (st\<lparr>s_esc := False\<rparr>)
      else stream_store x now st)"

text \<open>The loop of \<open>_loop\<close> over one chunk, and \<open>feed\<close>, which passes the time 0.0.\<close>

definition stream_chunk :: "stream \<Rightarrow> byte list \<times> real \<Rightarrow> stream" where
  "stream_chunk st c = foldl (\<lambda>s x. stream_byte x (snd c) s) st (fst c)"

definition stream_feed :: "byte list \<Rightarrow> stream \<Rightarrow> stream" where
  "stream_feed bs st = foldl (\<lambda>s x. stream_byte x 0 s) st bs"

definition stream_snapshot :: "stream \<Rightarrow> run list" where
  "stream_snapshot st = s_runs st"

section \<open>The board's framing\<close>

text \<open>
  \<open>fi_board_uart.v\<close>: every byte of a record but its first, and every byte of the DUT, is sent as
  itself or, for C0 and DB, as two bytes.
\<close>

definition slip_byte :: "byte \<Rightarrow> byte list" where
  "slip_byte b = (if b = 0xC0 then [0xDB, 0xDC] else if b = 0xDB then [0xDB, 0xDD] else [b])"

definition slip :: "byte list \<Rightarrow> byte list" where
  "slip bs = concat (map slip_byte bs)"

record board_run =
  b_trial :: "16 word"
  b_cyc :: "32 word"
  b_lost :: bool
  b_abort :: bool
  b_bytes :: "byte list"

text \<open>The bytes \<open>rec[1]\<close> to \<open>rec[8]\<close> of \<open>fi_board_uart.v\<close>.\<close>

definition record_bytes :: "board_run \<Rightarrow> byte list" where
  "record_bytes b =
     [0x54, ucast (drop_bit 8 (b_trial b)), ucast (b_trial b),
      ucast (drop_bit 24 (b_cyc b)), ucast (drop_bit 16 (b_cyc b)),
      ucast (drop_bit 8 (b_cyc b)), ucast (b_cyc b),
      (if b_lost b then 2 else 0) OR (if b_abort b then 1 else 0)]"

definition board_send :: "board_run \<Rightarrow> byte list" where
  "board_send b = 0xC0 # slip (record_bytes b) @ slip (b_bytes b)"

section \<open>What an arbitrary byte stream means\<close>

text \<open>
  The specification of the reader: bytes with the time their chunk was read. Everything between
  two C0 is a segment; undoing the escapes of a segment gives its record (eight bytes) and its
  data; a segment with fewer than eight bytes is no run.
\<close>

type_synonym tbyte = "byte \<times> real"

definition stream_run :: "stream \<Rightarrow> tbyte list \<Rightarrow> stream" where
  "stream_run st tbs = foldl (\<lambda>s (x, now). stream_byte x now s) st tbs"

fun unesc :: "bool \<Rightarrow> tbyte list \<Rightarrow> tbyte list" where
  "unesc e [] = []"
| "unesc e ((x, t) # xs) =
     (if x = 0xDB then unesc True xs
      else if e then ((if x = 0xDC then 0xC0 else 0xDB), t) # unesc False xs
      else (x, t) # unesc False xs)"

fun esc_after :: "bool \<Rightarrow> tbyte list \<Rightarrow> bool" where
  "esc_after e [] = e"
| "esc_after e ((x, t) # xs) = esc_after (x = 0xDB) xs"

abbreviation not_mark :: "tbyte \<Rightarrow> bool" where
  "not_mark p \<equiv> fst p \<noteq> 0xC0"

fun segments :: "tbyte list \<Rightarrow> tbyte list list" where
  "segments [] = []"
| "segments ((x, t) # xs) =
     (if x = 0xC0 then takeWhile not_mark xs # segments xs else segments xs)"

definition segment_run :: "tbyte list \<Rightarrow> run option" where
  "segment_run seg =
     (let u = unesc False seg in
      if length u < 8 then None
      else Some ((record_run (map fst (take 8 u)) (snd (u ! 7)))\<lparr>r_data := map fst (drop 8 u)\<rparr>))"

section \<open>Lemmas\<close>

lemma stream_run_simps [simp]:
  "stream_run st [] = st"
  "stream_run st (p # ps) = stream_run (stream_byte (fst p) (snd p) st) ps"
  "stream_run st (ps @ qs) = stream_run (stream_run st ps) qs"
  by (simp_all add: stream_run_def case_prod_beta)

lemma stream_feed_run: "stream_feed bs st = stream_run st (map (\<lambda>b. (b, 0)) bs)"
  by (induction bs arbitrary: st) (simp_all add: stream_feed_def)

lemma stream_chunk_run: "stream_chunk st (bs, now) = stream_run st (map (\<lambda>b. (b, now)) bs)"
  by (induction bs arbitrary: st) (simp_all add: stream_chunk_def)

lemma stream_byte_mark [simp]: "stream_byte 0xC0 now st = st\<lparr>s_rec := Some [], s_esc := False\<rparr>"
  by (simp add: stream_byte_def)

lemma append_last_snoc [simp]: "append_last x (rs @ [r]) = rs @ [r\<lparr>r_data := r_data r @ [x]\<rparr>]"
proof (induction rs)
  case (Cons a rs)
  then show ?case by (cases rs) auto
qed simp

lemma store_esc: "stream_store x t (st\<lparr>s_esc := e\<rparr>) = (stream_store x t st)\<lparr>s_esc := e\<rparr>"
  by (auto simp: stream_store_def split: option.splits)

lemma store_keeps_esc [simp]: "s_esc (stream_store x t st) = s_esc st"
  by (auto simp: stream_store_def split: option.splits)

definition store_all :: "stream \<Rightarrow> tbyte list \<Rightarrow> stream" where
  "store_all st u = foldl (\<lambda>s (x, t). stream_store x t s) st u"

lemma store_all_simps [simp]:
  "store_all st [] = st"
  "store_all st (p # u) = store_all (stream_store (fst p) (snd p) st) u"
  "store_all st (u @ v) = store_all (store_all st u) v"
  by (simp_all add: store_all_def case_prod_beta)

lemma store_all_esc: "store_all (st\<lparr>s_esc := e\<rparr>) u = (store_all st u)\<lparr>s_esc := e\<rparr>"
  by (induction u arbitrary: st) (simp_all add: store_esc)

text \<open>Without a C0, the reader stores the bytes whose escapes are undone.\<close>

lemma stream_run_segment:
  assumes "\<forall>p \<in> set seg. not_mark p"
  shows "stream_run st seg =
    (store_all st (unesc (s_esc st) seg))\<lparr>s_esc := esc_after (s_esc st) seg\<rparr>"
  using assms
proof (induction seg arbitrary: st)
  case Nil
  then show ?case by simp
next
  case (Cons p seg)
  obtain x t where p: "p = (x, t)" by force
  with Cons show ?case by (auto simp: stream_byte_def store_esc store_all_esc)
qed

lemma store_record:
  assumes "s_rec st = Some r" and "length r + length u < 8"
  shows "store_all st u = st\<lparr>s_rec := Some (r @ map fst u)\<rparr>"
  using assms
proof (induction u arbitrary: st r)
  case Nil
  then show ?case by simp
next
  case (Cons p u)
  then show ?case by (simp add: stream_store_def)
qed

lemma store_data:
  assumes "s_rec st = None" and "s_runs st = rs @ [r]"
  shows "store_all st u = st\<lparr>s_runs := rs @ [r\<lparr>r_data := r_data r @ map fst u\<rparr>]\<rparr>"
  using assms
proof (induction u arbitrary: st r)
  case Nil
  then show ?case by simp
next
  case (Cons p u)
  have "s_runs (stream_store (fst p) (snd p) st) = rs @ [r\<lparr>r_data := r_data r @ [fst p]\<rparr>]"
    and "s_rec (stream_store (fst p) (snd p) st) = None"
    using Cons.prems by (simp_all add: stream_store_def)
  from Cons.IH [OF this(2,1)] Cons.prems show ?case by (simp add: stream_store_def)
qed

lemma record_split:
  assumes "8 \<le> length (u :: tbyte list)"
  shows "u = take 7 u @ [u ! 7] @ drop 8 u"
    and "take 8 u = take 7 u @ [u ! 7]"
proof -
  show *: "take 8 u = take 7 u @ [u ! 7]"
    using assms take_Suc_conv_app_nth [of 7 u] by (simp add: eval_nat_numeral)
  have "u = take 8 u @ drop 8 u" by simp
  then show "u = take 7 u @ [u ! 7] @ drop 8 u" unfolding * by simp
qed

lemma record_run_data [simp]: "r_data (record_run r now) = []"
  by (simp add: record_run_def)

lemma store_all_record_full:
  assumes "s_rec st = Some []" and len: "8 \<le> length u"
  shows "store_all st u = st\<lparr>s_rec := None, s_runs := s_runs st @
     [(record_run (map fst (take 8 u)) (snd (u ! 7)))\<lparr>r_data := map fst (drop 8 u)\<rparr>]\<rparr>"
proof -
  let ?st1 = "st\<lparr>s_rec := Some (map fst (take 7 u))\<rparr>"
  let ?R = "record_run (map fst (take 8 u)) (snd (u ! 7))"
  have 1: "store_all st (take 7 u) = ?st1"
    using store_record [OF assms(1), of "take 7 u"] len by simp
  have 2: "stream_store (fst (u ! 7)) (snd (u ! 7)) ?st1 =
      st\<lparr>s_rec := None, s_runs := s_runs st @ [?R]\<rparr>"
    using len by (simp add: stream_store_def record_split(2) [OF len])
  have "store_all st u = store_all (store_all st (take 7 u)) ((u ! 7) # drop 8 u)"
    using record_split(1) [OF len] by (metis append_Cons append_Nil store_all_simps(3))
  also have "\<dots> = store_all (st\<lparr>s_rec := None, s_runs := s_runs st @ [?R]\<rparr>) (drop 8 u)"
    by (simp add: 1 2)
  also have "\<dots> = st\<lparr>s_rec := None, s_runs := s_runs st @ [?R\<lparr>r_data := map fst (drop 8 u)\<rparr>]\<rparr>"
    using store_data [of "st\<lparr>s_rec := None, s_runs := s_runs st @ [?R]\<rparr>" "s_runs st" ?R "drop 8 u"]
    by (simp add: record_run_data)
  finally show ?thesis .
qed

text \<open>One C0 and the segment after it add the segment's run, whatever state came before.\<close>

lemma stream_run_one:
  assumes "\<forall>p \<in> set seg. not_mark p"
  shows "s_runs (stream_run st ((0xC0, t) # seg)) =
    s_runs st @ (case segment_run seg of None \<Rightarrow> [] | Some r \<Rightarrow> [r])"
proof (cases "length (unesc False seg) < 8")
  case True
  then show ?thesis
    using store_record [of "st\<lparr>s_rec := Some [], s_esc := False\<rparr>" "[]"]
    by (simp add: stream_run_segment [OF assms] segment_run_def)
next
  case False
  then show ?thesis
    using store_all_record_full [of "st\<lparr>s_rec := Some [], s_esc := False\<rparr>" "unesc False seg"]
    by (simp add: stream_run_segment [OF assms] segment_run_def Let_def)
qed

lemma segments_no_mark: "\<forall>p \<in> set xs. not_mark p \<Longrightarrow> segments (xs @ ys) = segments ys"
  by (induction xs) auto

lemma segments_mark: "segments ((0xC0, t) # xs) =
    takeWhile not_mark xs # segments (dropWhile not_mark xs)"
proof -
  have "segments xs = segments (takeWhile not_mark xs @ dropWhile not_mark xs)" by simp
  also have "\<dots> = segments (dropWhile not_mark xs)"
    by (rule segments_no_mark) (metis set_takeWhileD)
  finally show ?thesis by simp
qed

lemma dropWhile_mark:
  "dropWhile not_mark xs = [] \<or> (\<exists>t ys. dropWhile not_mark xs = (0xC0, t) # ys)"
proof (cases "dropWhile not_mark xs")
  case (Cons p ys)
  then have "\<not> not_mark p" using hd_dropWhile [of not_mark xs] by simp
  with Cons show ?thesis by (cases p) auto
qed simp

lemma stream_run_resync:
  "s_runs (stream_run st ((0xC0, t) # xs)) =
    s_runs st @ List.map_filter segment_run (segments ((0xC0, t) # xs))"
proof (induction "length xs" arbitrary: st t xs rule: less_induct)
  case less
  let ?seg = "takeWhile not_mark xs" and ?rest = "dropWhile not_mark xs"
  have nm: "\<forall>p \<in> set ?seg. not_mark p" by (auto dest: set_takeWhileD)
  have one: "s_runs (stream_run st ((0xC0, t) # ?seg)) =
      s_runs st @ List.map_filter segment_run [?seg]"
    using stream_run_one [OF nm, of st t] by (simp add: List.map_filter_def split: option.splits)
  have all: "stream_run st ((0xC0, t) # xs) = stream_run (stream_run st ((0xC0, t) # ?seg)) ?rest"
    by (metis append_Cons stream_run_simps(3) takeWhile_dropWhile_id)
  have mf: "List.map_filter segment_run (a # bs) =
      List.map_filter segment_run [a] @ List.map_filter segment_run bs" for a bs
    by (simp add: List.map_filter_def)
  show ?case
  proof (cases ?rest)
    case Nil
    have "segments ((0xC0, t) # xs) = [?seg]" unfolding segments_mark Nil by simp
    then show ?thesis using one all Nil by (metis stream_run_simps(1))
  next
    case (Cons p ys)
    then obtain t' where rest: "?rest = (0xC0, t') # ys" using dropWhile_mark [of xs] by auto
    have "length ys < length xs"
      using rest length_dropWhile_le [of not_mark xs] by simp
    let ?st1 = "stream_run st ((0xC0, t) # ?seg)"
    have "s_runs (stream_run st ((0xC0, t) # xs)) = s_runs (stream_run ?st1 ((0xC0, t') # ys))"
      by (simp only: all rest)
    also have "\<dots> = s_runs ?st1 @ List.map_filter segment_run (segments ((0xC0, t') # ys))"
      by (rule less.hyps) fact
    also have "\<dots> = s_runs st @ List.map_filter segment_run (?seg # segments ?rest)"
      by (simp only: one append_assoc rest mf [of ?seg "segments ((0xC0, t') # ys)"])
    finally show ?thesis by (simp only: segments_mark)
  qed
qed

lemma stream_run_unsynced:
  assumes "\<forall>p \<in> set xs. not_mark p" and "s_runs st = []" and "s_rec st = None"
  shows "s_runs (stream_run st xs) = [] \<and> s_rec (stream_run st xs) = None"
  using assms
proof (induction xs arbitrary: st)
  case (Cons p xs)
  then have "s_runs (stream_byte (fst p) (snd p) st) = []"
    and "s_rec (stream_byte (fst p) (snd p) st) = None"
    by (simp_all add: stream_byte_def stream_store_def)
  with Cons show ?case by simp
qed simp

text \<open>The time stamps and the division into chunks have no part in what is decoded.\<close>

definition untimed :: "run \<Rightarrow> run" where
  "untimed r = r\<lparr>r_t := 0\<rparr>"

definition untimed_stream :: "stream \<Rightarrow> stream" where
  "untimed_stream st = st\<lparr>s_runs := map untimed (s_runs st)\<rparr>"

lemma untimed_append_last: "map untimed (append_last x rs) = append_last x (map untimed rs)"
  by (induction x rs rule: append_last.induct) (simp_all add: untimed_def)

lemma untimed_record_run: "untimed (record_run r now) = record_run r 0"
  by (simp add: untimed_def record_run_def)

lemma untimed_stream_store: "untimed_stream (stream_store x now st) = stream_store x 0 (untimed_stream st)"
  by (auto simp: untimed_stream_def stream_store_def untimed_append_last untimed_record_run
      split: option.splits)

lemma untimed_stream_esc: "untimed_stream (st\<lparr>s_esc := e\<rparr>) = (untimed_stream st)\<lparr>s_esc := e\<rparr>"
  by (simp add: untimed_stream_def)

lemma untimed_stream_byte: "untimed_stream (stream_byte x now st) = stream_byte x 0 (untimed_stream st)"
proof -
  have "s_esc (untimed_stream st) = s_esc st" by (simp add: untimed_stream_def)
  moreover have "untimed_stream (st\<lparr>s_rec := r, s_esc := e\<rparr>) =
      (untimed_stream st)\<lparr>s_rec := r, s_esc := e\<rparr>" for r e
    by (simp add: untimed_stream_def)
  ultimately show ?thesis
    by (simp add: stream_byte_def untimed_stream_store untimed_stream_esc)
qed

lemma untimed_stream_run:
  "untimed_stream (stream_run st tbs) = stream_run (untimed_stream st) (map (\<lambda>p. (fst p, 0)) tbs)"
  by (induction tbs arbitrary: st) (simp_all add: untimed_stream_byte)

text \<open>Escaping.\<close>

lemma slip_simps [simp]: "slip [] = []" "slip (b # bs) = slip_byte b @ slip bs"
  by (simp_all add: slip_def)

lemma slip_no_mark: "x \<in> set (slip bs) \<Longrightarrow> x \<noteq> 0xC0"
  by (induction bs) (auto simp: slip_byte_def split: if_splits)

lemma unesc_slip:
  "unesc False (map (\<lambda>b. (b, t)) (slip bs) @ xs) = map (\<lambda>b. (b, t)) bs @ unesc False xs"
  by (induction bs) (auto simp: slip_byte_def)

lemma uint_drop_bit_div: "uint (drop_bit k w) = uint w div 2 ^ k"
  for w :: "'a :: len word"
  by (simp only: unsigned_drop_bit_eq) (simp add: take_bit_int_eq_self drop_bit_eq_div)

lemma uint_low_byte: "uint (ucast w :: byte) = uint w mod 256"
  for w :: "'a :: len word"
  by (simp add: unsigned_ucast_eq take_bit_eq_mod)

definition sent_run :: "board_run \<Rightarrow> run" where
  "sent_run b =
     \<lparr>r_trial = uint (b_trial b), r_cycles_prev = uint (b_cyc b),
      r_flags_prev = (if b_lost b then 2 else 0) + (if b_abort b then 1 else 0),
      r_t = 0, r_data = b_bytes b\<rparr>"

lemma push_bit_OR: "0 \<le> b \<Longrightarrow> b < 256 \<Longrightarrow> push_bit 8 a OR b = a * 256 + (b :: int)"
proof -
  assume b: "0 \<le> b" "b < 256"
  have "push_bit 8 a AND b = 0"
  proof (rule bit_eqI)
    fix n
    have "take_bit 8 b = b" using b by (simp add: take_bit_int_eq_self)
    then have "\<not> bit b n" if "8 \<le> n"
      using that by (metis bit_take_bit_iff not_less)
    then show "bit (push_bit 8 a AND b) n = bit 0 n"
      by (auto simp: bit_and_iff bit_push_bit_iff)
  qed
  then show ?thesis by (simp add: disjunctive_add_eq_or push_bit_eq_mult)
qed

lemma div_mod_16:
  assumes "0 \<le> u" and "u < 65536"
  shows "(u div 256 mod 256) * 256 + u mod 256 = (u :: int)"
proof -
  have "u div 256 mod 256 = u div 256" using assms by simp
  then show ?thesis by simp
qed

lemma div_mod_32:
  assumes "0 \<le> u" and "u < 4294967296"
  shows "((u div 16777216 mod 256 * 256 + u div 65536 mod 256) * 256 + u div 256 mod 256) * 256
    + u mod 256 = (u :: int)"
proof -
  have 1: "u div 16777216 mod 256 = u div 65536 div 256"
    using assms by (simp add: zdiv_zmult2_eq [symmetric])
  have 2: "u div 65536 = u div 256 div 256" by (simp add: zdiv_zmult2_eq [symmetric])
  have j: "(v div 256) * 256 + v mod 256 = v" for v :: int by simp
  show ?thesis unfolding 1 j unfolding 2 j j ..
qed

lemma record_run_sent: "record_run (record_bytes b) 0 = (sent_run b)\<lparr>r_data := []\<rparr>"
proof -
  have 16: "0 \<le> uint (b_trial b)" "uint (b_trial b) < 65536"
    using unsigned_less [of "b_trial b"] by simp_all
  have 32: "0 \<le> uint (b_cyc b)" "uint (b_cyc b) < 4294967296"
    using unsigned_less [of "b_cyc b"] by simp_all
  have bnd: "0 \<le> x mod 256" "x mod 256 < 256" for x :: int by simp_all
  show ?thesis
    by (simp add: record_run_def record_bytes_def sent_run_def from_bytes_big_def
        uint_low_byte uint_drop_bit_div push_bit_OR bnd div_mod_16 [OF 16] div_mod_32 [OF 32, simplified])
qed

lemma segment_run_sent: "segment_run (map (\<lambda>b. (b, 0)) (slip (record_bytes b) @ slip (b_bytes b))) =
    Some (sent_run b)"
proof -
  let ?u = "unesc False (map (\<lambda>b. (b, 0)) (slip (record_bytes b) @ slip (b_bytes b)))"
  have len: "length (record_bytes b) = 8" by (simp add: record_bytes_def)
  have "?u = map (\<lambda>b. (b, 0)) (record_bytes b) @ map (\<lambda>b. (b, 0)) (b_bytes b)"
    using unesc_slip [of 0 "record_bytes b"] unesc_slip [of 0 "b_bytes b" "[]"] by simp
  then have "length ?u = 8 + length (b_bytes b)" "map fst (take 8 ?u) = record_bytes b"
    "snd (?u ! 7) = 0" "map fst (drop 8 ?u) = b_bytes b"
    using len by (simp_all add: comp_def nth_append)
  then show ?thesis
    by (simp add: segment_run_def Let_def record_run_sent) (simp add: sent_run_def)
qed

lemma stream_feed_sent:
  "s_runs (stream_feed (concat (map board_send bs)) st) = s_runs st @ map sent_run bs"
proof (induction bs arbitrary: st)
  case Nil
  then show ?case by (simp add: stream_feed_def)
next
  case (Cons b bs)
  let ?seg = "slip (record_bytes b) @ slip (b_bytes b)"
  have nm: "\<forall>p \<in> set (map (\<lambda>b. (b, 0)) ?seg). not_mark p" using slip_no_mark by auto
  have one: "s_runs (stream_feed (board_send b) st) = s_runs st @ [sent_run b]"
    using stream_run_one [OF nm, of st 0]
    by (simp only: stream_feed_run board_send_def list.map segment_run_sent) simp
  have "stream_feed (concat (map board_send (b # bs))) st =
      stream_feed (concat (map board_send bs)) (stream_feed (board_send b) st)"
    by (simp add: stream_feed_def)
  with Cons.IH [of "stream_feed (board_send b) st"] one show ?case by simp
qed

text \<open>What the reader keeps of its state: a record under construction is shorter than eight
  bytes, and the header fields of every run have the width the record gives them.\<close>

definition run_ok :: "run \<Rightarrow> bool" where
  "run_ok r \<longleftrightarrow> 0 \<le> r_trial r \<and> r_trial r < 2 ^ 16 \<and> 0 \<le> r_cycles_prev r \<and> r_cycles_prev r < 2 ^ 32 \<and>
     0 \<le> r_flags_prev r \<and> r_flags_prev r < 2 ^ 8"

definition stream_inv :: "stream \<Rightarrow> bool" where
  "stream_inv st \<longleftrightarrow> (case s_rec st of None \<Rightarrow> True | Some r \<Rightarrow> length r < 8) \<and> list_all run_ok (s_runs st)"

lemma uint_byte_bounds: "0 \<le> uint (b :: byte) \<and> uint b \<le> 255"
proof -
  have "uint b < 2 ^ LENGTH(8)" by (rule unsigned_less)
  then show ?thesis by simp
qed

lemma run_ok_record_run: "length r = 8 \<Longrightarrow> run_ok (record_run r now)"
proof -
  assume "length r = 8"
  then have "take 4 (drop 3 r) = [r ! 3, r ! 4, r ! 5, r ! 6]"
    by (auto simp: list_eq_iff_nth_eq less_Suc_eq eval_nat_numeral)
  with uint_byte_bounds [of "r ! 1"] uint_byte_bounds [of "r ! 2"] uint_byte_bounds [of "r ! 3"]
    uint_byte_bounds [of "r ! 4"] uint_byte_bounds [of "r ! 5"] uint_byte_bounds [of "r ! 6"]
    uint_byte_bounds [of "r ! 7"]
  show ?thesis
    by (simp add: run_ok_def record_run_def from_bytes_big_def push_bit_OR)
qed

lemma append_last_ok: "list_all run_ok rs \<Longrightarrow> list_all run_ok (append_last x rs)"
  by (induction x rs rule: append_last.induct) (auto simp: run_ok_def)

lemma stream_store_inv: "stream_inv st \<Longrightarrow> stream_inv (stream_store x now st)"
  by (auto simp: stream_inv_def stream_store_def append_last_ok run_ok_record_run
      split: option.splits)

lemma stream_inv_esc [simp]: "stream_inv (st\<lparr>s_esc := e\<rparr>) = stream_inv st"
  by (simp add: stream_inv_def)

section \<open>The reader thread and the main thread\<close>

text \<open>
  The reader appends under the lock, one byte at a time; \<open>snapshot\<close> takes the same lock. A step
  of the two threads is one byte or one snapshot, in any order.
\<close>

inductive stream_step :: "stream \<times> run list list \<Rightarrow> stream \<times> run list list \<Rightarrow> bool" where
  reader: "stream_step (st, snaps) (stream_byte x now st, snaps)"
| snapshot: "stream_step (st, snaps) (st, snaps @ [stream_snapshot st])"

inductive stream_reachable :: "stream \<times> run list list \<Rightarrow> bool" where
  start: "stream_reachable (stream_init, [])"
| step: "stream_reachable s \<Longrightarrow> stream_step s s' \<Longrightarrow> stream_reachable s'"

inductive_cases stream_stepE: "stream_step (st, snaps) s'"

text \<open>A later list of runs keeps every run that was complete, and only adds data to the last.\<close>

definition run_le :: "run \<Rightarrow> run \<Rightarrow> bool" where
  "run_le r r' \<longleftrightarrow> r'\<lparr>r_data := r_data r\<rparr> = r \<and> prefix (r_data r) (r_data r')"

definition runs_le :: "run list \<Rightarrow> run list \<Rightarrow> bool" where
  "runs_le rs rs' \<longleftrightarrow> length rs \<le> length rs' \<and>
     (\<forall>k < length rs. run_le (rs ! k) (rs' ! k) \<and> (Suc k < length rs \<longrightarrow> rs' ! k = rs ! k))"

lemma run_le_refl [simp]: "run_le r r"
  by (simp add: run_le_def)

lemma run_le_trans: "run_le r s \<Longrightarrow> run_le s t \<Longrightarrow> run_le r t"
  by (cases r; cases s; cases t) (auto simp: run_le_def)

lemma runs_le_refl [simp]: "runs_le rs rs"
  by (simp add: runs_le_def)

lemma runs_le_trans:
  assumes "runs_le rs ss" and "runs_le ss ts"
  shows "runs_le rs ts"
  unfolding runs_le_def
proof (intro conjI allI impI)
  show "length rs \<le> length ts" using assms by (auto simp: runs_le_def)
next
  fix k assume k: "k < length rs"
  then show "run_le (rs ! k) (ts ! k)"
    using assms by (auto simp: runs_le_def intro: run_le_trans dest: less_le_trans)
  assume "Suc k < length rs"
  then show "ts ! k = rs ! k" using assms by (auto simp: runs_le_def)
qed

lemma runs_le_append [simp]: "runs_le rs (rs @ ss)"
  by (simp add: runs_le_def nth_append)

lemma runs_le_Nil [simp]: "runs_le [] rs"
  by (simp add: runs_le_def)

lemma runs_le_append_last: "runs_le rs (append_last x rs)"
proof (cases rs rule: rev_cases)
  case (snoc qs r)
  have "run_le r (r\<lparr>r_data := r_data r @ [x]\<rparr>)" by (simp add: run_le_def)
  then show ?thesis by (auto simp: snoc runs_le_def nth_append less_Suc_eq)
qed simp

lemma runs_le_byte: "runs_le (s_runs st) (s_runs (stream_byte x now st))"
  by (auto simp: stream_byte_def stream_store_def runs_le_append_last split: option.splits)

text \<open>In a reachable state every snapshot is below every later one and below the state.\<close>

definition snaps_inv :: "stream \<times> run list list \<Rightarrow> bool" where
  "snaps_inv s \<longleftrightarrow> sorted_wrt runs_le (snd s @ [s_runs (fst s)])"

lemma sorted_wrt_last_le:
  "sorted_wrt runs_le (xs @ [a]) \<Longrightarrow> runs_le a b \<Longrightarrow> sorted_wrt runs_le (xs @ [b])"
  by (auto simp: sorted_wrt_append intro: runs_le_trans)

lemma stream_step_snaps: "stream_step s s' \<Longrightarrow> snaps_inv s \<Longrightarrow> snaps_inv s'"
proof (induction rule: stream_step.induct)
  case (reader st snaps x now)
  then show ?case
    using sorted_wrt_last_le [OF _ runs_le_byte] by (simp add: snaps_inv_def)
next
  case (snapshot st snaps)
  then show ?case
    by (auto simp: snaps_inv_def stream_snapshot_def sorted_wrt_append)
qed

lemma stream_reachable_snaps: "stream_reachable s \<Longrightarrow> snaps_inv s"
proof (induction rule: stream_reachable.induct)
  case start
  show ?case by (simp add: snaps_inv_def)
next
  case (step s s')
  then show ?case by (rule_tac stream_step_snaps)
qed

section \<open>Properties\<close>

text \<open>C8: On an arbitrary byte stream the reader computes its specification: a run for every part
  between two C0 marks that holds at least eight bytes once its escapes are undone, its first
  eight bytes the record and the rest its data; nothing else.\<close>

theorem stream_decodes_segments:
  "s_runs (stream_run stream_init tbs) = List.map_filter segment_run (segments tbs)"
proof -
  let ?pre = "takeWhile not_mark tbs"
  have nm: "\<forall>p \<in> set ?pre. not_mark p" by (auto dest: set_takeWhileD)
  have pre: "s_runs (stream_run stream_init ?pre) = []"
    using stream_run_unsynced [OF nm] by (simp add: stream_init_def)
  have split: "tbs = ?pre @ dropWhile not_mark tbs" by simp
  show ?thesis
  proof (cases "dropWhile not_mark tbs")
    case Nil
    with split have "tbs = ?pre" by simp
    with pre segments_no_mark [OF nm, of "[]"] show ?thesis by (simp add: List.map_filter_def)
  next
    case (Cons p ys)
    then obtain t where t: "dropWhile not_mark tbs = (0xC0, t) # ys"
      using dropWhile_mark [of tbs] by auto
    have "s_runs (stream_run stream_init tbs) =
        s_runs (stream_run (stream_run stream_init ?pre) ((0xC0, t) # ys))"
      using split t by (metis stream_run_simps(3))
    also have "\<dots> = List.map_filter segment_run (segments ((0xC0, t) # ys))"
      by (simp only: stream_run_resync pre append_Nil)
    also have "segments ((0xC0, t) # ys) = segments tbs"
      using segments_no_mark [OF nm] split t by metis
    finally show ?thesis .
  qed
qed

text \<open>C7: Whatever state the reader is in, the bytes the board sends for a list of runs (records and
  data, escaped) decode to exactly those runs: trial, cycles, flags and data.\<close>

theorem stream_roundtrip:
  "s_runs (stream_feed (concat (map board_send bs)) st) = s_runs st @ map sent_run bs"
  by (rule stream_feed_sent)

text \<open>A C0 mark resynchronises the reader: what follows it is decoded as by a fresh reader,
  whatever was received before, and the runs already there are kept.\<close>

theorem stream_resynchronises:
  "s_runs (stream_run st ((0xC0, t) # tbs)) =
     s_runs st @ s_runs (stream_run stream_init ((0xC0, t) # tbs))"
  by (simp only: stream_run_resync) (simp add: stream_init_def)

text \<open>C9: How the serial port splits the bytes into chunks does not matter: reading chunk by chunk
  gives, time stamps apart, what feeding all the bytes at once gives.\<close>

theorem stream_chunking_irrelevant:
  "untimed_stream (foldl stream_chunk st cs) = stream_feed (concat (map fst cs)) (untimed_stream st)"
proof (induction cs arbitrary: st)
  case Nil
  then show ?case by (simp add: stream_feed_def)
next
  case (Cons c cs)
  obtain bs now where c: "c = (bs, now)" by force
  have "untimed_stream (stream_chunk st c) = stream_feed bs (untimed_stream st)"
    unfolding c stream_chunk_run stream_feed_run
    by (simp add: untimed_stream_run comp_def)
  moreover have "stream_feed (bs @ ys) s = stream_feed ys (stream_feed bs s)" for ys s
    by (simp add: stream_feed_def)
  ultimately show ?case using Cons.IH [of "stream_chunk st c"] by (simp add: c)
qed

text \<open>C10: Every byte keeps the reader well formed: an open record has fewer than eight bytes, trial
  numbers fit 16 bits, cycle counts 32 bits and flags 8 bits.\<close>

theorem stream_byte_invariant:
  assumes "stream_inv st"
  shows "stream_inv (stream_byte x now st)"
  using assms by (auto simp: stream_byte_def stream_store_inv) (simp_all add: stream_inv_def)

theorem stream_byte_invariant_witness:
  "stream_inv stream_init \<and> stream_inv (stream_byte 0xC0 0 stream_init)"
proof -
  have "stream_inv stream_init" by (simp add: stream_inv_def stream_init_def)
  with stream_byte_invariant [OF this, of "0xC0" 0] show ?thesis by simp
qed

text \<open>C11: However reader steps and snapshots interleave, an earlier snapshot is a prefix of a later
  one: finished runs never change and only the last run of a snapshot can get more data.\<close>

theorem snapshots_only_grow:
  assumes "stream_reachable (st, snaps)" and "i < j" and "j < length snaps"
  shows "runs_le (snaps ! i) (snaps ! j) \<and> runs_le (snaps ! j) (s_runs st)"
proof -
  have "sorted_wrt runs_le snaps" and "\<forall>rs \<in> set snaps. runs_le rs (s_runs st)"
    using stream_reachable_snaps [OF assms(1)] by (simp_all add: snaps_inv_def sorted_wrt_append)
  then show ?thesis using assms(2,3) by (simp add: sorted_wrt_nth_less)
qed

lemma reachable_snapshot: "stream_reachable (st, snaps) \<Longrightarrow> stream_reachable (st, snaps @ [s_runs st])"
  using stream_reachable.step stream_step.snapshot by (force simp: stream_snapshot_def)

lemma reachable_run: "stream_reachable (st, snaps) \<Longrightarrow> stream_reachable (stream_run st tbs, snaps)"
proof (induction tbs arbitrary: st)
  case (Cons p tbs)
  then show ?case using stream_reachable.step [OF Cons.prems stream_step.reader] by simp
qed simp

theorem snapshots_only_grow_witness:
  "runs_le [] [sent_run \<lparr>b_trial = 1, b_cyc = 7, b_lost = False, b_abort = False, b_bytes = []\<rparr>]"
proof -
  let ?b = "\<lparr>b_trial = 1, b_cyc = 7, b_lost = False, b_abort = False, b_bytes = []\<rparr>"
  let ?st = "stream_feed (board_send ?b) stream_init"
  have i: "s_runs stream_init = []" by (simp add: stream_init_def)
  have r: "s_runs ?st = [sent_run ?b]" using stream_feed_sent [of "[?b]" stream_init] i by simp
  have "stream_reachable (?st, [[], [sent_run ?b]])"
    using reachable_snapshot [OF reachable_run [OF reachable_snapshot [OF stream_reachable.start]]]
    by (simp add: i stream_feed_run [symmetric]) (metis r stream_feed_run)
  from snapshots_only_grow [OF this, of 0 1] show ?thesis by simp
qed

end
