(* ===== verification/Classify.thy ===== *)
theory Classify
  imports Py_Text
begin

text \<open>
  The classification of a trial in \<open>fpga/host/board_campaign.py\<close>: \<open>upto_marker\<close>, \<open>classify\<close>, and
  the readers of a simulation observer's log, \<open>golden_from\<close> and \<open>obs_bytes\<close>.
\<close>

section \<open>Bytes\<close>

text \<open>\<open>bs.count(sub)\<close>: occurrences that do not overlap, found from the left.\<close>

function bytes_count :: "byte list \<Rightarrow> byte list \<Rightarrow> nat" where
  "bytes_count sub bs =
     (if sub = [] then length bs + 1
      else case bs of
        [] \<Rightarrow> 0
      | b # rest \<Rightarrow> (if prefix sub bs then Suc (bytes_count sub (drop (length sub) bs))
                    else bytes_count sub rest))"
  by pat_completeness auto
termination
  by (relation "measure (\<lambda>(sub, bs). length bs)") auto

declare bytes_count.simps [simp del]

text \<open>\<open>sub in bs\<close>.\<close>

fun bytes_in :: "byte list \<Rightarrow> byte list \<Rightarrow> bool" where
  "bytes_in sub [] = (sub = [])"
| "bytes_in sub (b # bs) = (prefix sub (b # bs) \<or> bytes_in sub bs)"

text \<open>\<open>bs.index(b)\<close>, and the encoding of an ASCII text.\<close>

fun bytes_index :: "byte list \<Rightarrow> byte \<Rightarrow> nat res" where
  "bytes_index [] x = Inl (ValueError ''subsection not found'')"
| "bytes_index (b # bs) x =
     (if b = x then Inr 0 else ebind (bytes_index bs x) (\<lambda>n. Inr (Suc n)))"

definition encode :: "string \<Rightarrow> byte list" where
  "encode s = map of_char s"

section \<open>upto\_marker and classify\<close>

text \<open>The loop of \<open>upto_marker\<close>: \<open>k\<close> newlines seen, \<open>done\<close> the bytes before \<open>bs\<close>.\<close>

fun marker_loop :: "int \<Rightarrow> int \<Rightarrow> byte list \<Rightarrow> byte list \<Rightarrow> byte list \<times> bool" where
  "marker_loop n_end k seen [] = (seen, False)"
| "marker_loop n_end k seen (b # bs) =
     (if b = 0x0A
      then (if k + 1 = n_end then (seen @ [b], True) else marker_loop n_end (k + 1) (seen @ [b]) bs)
      else marker_loop n_end k (seen @ [b]) bs)"

definition upto_marker :: "byte list \<Rightarrow> int \<Rightarrow> byte list \<times> bool" where
  "upto_marker bs n_end = marker_loop n_end 0 [] bs"

datatype verdict = Masked | SDC | DUE

definition classify :: "byte list \<Rightarrow> byte list \<Rightarrow> bool \<Rightarrow> int \<Rightarrow> string list \<Rightarrow> verdict res" where
  "classify data golden aborted n_end crash =
     (if aborted then Inr DUE
      else let (dm, done1) = upto_marker data n_end; (gm, gdone) = upto_marker golden n_end in
        if \<not> gdone then Inl (SysExit ''the golden output has fewer than n_end newlines'')
        else if \<not> done1 then Inr DUE
        else ebind (bytes_index gm 0x0A) (\<lambda>i.
          let first = take (i + 1) gm in
          if list_ex (\<lambda>c. bytes_in (encode c) dm) crash \<or> bytes_count first dm > 1 then Inr DUE
          else Inr (if dm = gm then Masked else SDC)))"

section \<open>The observer's log\<close>

text \<open>\<open>bytearray.append(v)\<close>.\<close>

definition bytearray_append :: "byte list \<Rightarrow> int \<Rightarrow> byte list res" where
  "bytearray_append bs v =
     (if 0 \<le> v \<and> v < 256 then Inr (bs @ [word_of_int v])
      else Inl (ValueError ''byte must be in range(0, 256)''))"

text \<open>\<open>f[4]\<close> of a line as a byte, appended.\<close>

definition append_field :: "byte list \<Rightarrow> string list \<Rightarrow> byte list res" where
  "append_field out f =
     ebind (py_nth f 4) (\<lambda>h. ebind (py_int h 16) (\<lambda>v. bytearray_append out v))"

definition golden_line :: "string \<Rightarrow> byte list \<Rightarrow> string \<Rightarrow> byte list res" where
  "golden_line ev out l =
     (let f = py_split l in
      if f \<noteq> [] \<and> hd f = ev
      then ebind (py_nth f 1) (\<lambda>t. if t = ''0'' then append_field out f else Inr out)
      else Inr out)"

definition golden_from :: "string list \<Rightarrow> string \<Rightarrow> byte list res" where
  "golden_from lines ev =
     ebind (efold (golden_line ev) [] lines) (\<lambda>out.
       if out = [] then Inl (SysExit ''no lines of trial 0'') else Inr out)"

text \<open>
  \<open>obs_bytes\<close> keeps a byte array per trial number and a mark per aborted trial in one dictionary;
  the keys of the two kinds cannot collide, so they are two maps here.
\<close>

record obs =
  o_bytes :: "int \<rightharpoonup> byte list"
  o_abort :: "int set"

definition obs_empty :: obs where
  "obs_empty = \<lparr>o_bytes = Map.empty, o_abort = {}\<rparr>"

definition obs_line :: "string \<Rightarrow> obs \<Rightarrow> string \<Rightarrow> obs res" where
  "obs_line ev o1 l =
     (let f = py_split l in
      ebind
        (if f \<noteq> [] \<and> hd f = ev
         then ebind (py_nth f 1) (\<lambda>t. ebind (py_int t 10) (\<lambda>j.
           ebind (append_field (case o_bytes o1 j of None \<Rightarrow> [] | Some bs \<Rightarrow> bs) f) (\<lambda>bs.
             Inr (o1\<lparr>o_bytes := (o_bytes o1)(j \<mapsto> bs)\<rparr>))))
         else Inr o1)
        (\<lambda>o2. if f \<noteq> [] \<and> hd f = ''A''
          then ebind (py_nth f 1) (\<lambda>t. ebind (py_int t 10) (\<lambda>j.
            Inr (o2\<lparr>o_abort := insert j (o_abort o2)\<rparr>)))
          else Inr o2))"

definition obs_bytes :: "string list \<Rightarrow> string \<Rightarrow> obs res" where
  "obs_bytes lines ev = efold (obs_line ev) obs_empty lines"

section \<open>The marker\<close>

abbreviation newlines :: "byte list \<Rightarrow> int" where
  "newlines bs \<equiv> int (count_list bs 0x0A)"

fun take_nl :: "int \<Rightarrow> byte list \<Rightarrow> byte list" where
  "take_nl m [] = []"
| "take_nl m (b # bs) =
     b # (if b = 0x0A then (if m \<le> 1 then [] else take_nl (m - 1) bs) else take_nl m bs)"

lemma marker_loop_eq:
  "marker_loop n k seen bs =
     (if k < n \<and> n - k \<le> newlines bs then (seen @ take_nl (n - k) bs, True) else (seen @ bs, False))"
proof (induction n k seen bs rule: marker_loop.induct)
  case (2 n k seen b bs)
  have "0 \<le> newlines bs" by simp
  with 2 show ?case by (auto simp: algebra_simps)
qed auto

lemma upto_marker_eq:
  "upto_marker bs n = (if 1 \<le> n \<and> n \<le> newlines bs then (take_nl n bs, True) else (bs, False))"
  by (simp add: upto_marker_def marker_loop_eq)

text \<open>\<open>p\<close> is what precedes the \<open>n\<close>-th newline of \<open>bs\<close>, with that newline.\<close>

definition marker_prefix :: "int \<Rightarrow> byte list \<Rightarrow> byte list \<Rightarrow> bool" where
  "marker_prefix n bs p \<longleftrightarrow> prefix p bs \<and> p \<noteq> [] \<and> last p = 0x0A \<and> newlines p = n"

lemma take_nl_prefix: "prefix (take_nl m bs) bs"
  by (induction m bs rule: take_nl.induct) auto

lemma take_nl_marker:
  "1 \<le> m \<Longrightarrow> m \<le> newlines bs \<Longrightarrow> marker_prefix m bs (take_nl m bs)"
proof (induction m bs rule: take_nl.induct)
  case (2 m b bs)
  show ?case
  proof (cases "b = 0x0A \<and> m = 1")
    case True
    then show ?thesis using "2.prems" by (simp add: marker_prefix_def)
  next
    case False
    let ?m = "if b = 0x0A then m - 1 else m"
    have "marker_prefix ?m bs (take_nl ?m bs)"
      using "2.IH" "2.prems" False by (cases "b = 0x0A") auto
    then show ?thesis using "2.prems" False by (cases "b = 0x0A") (auto simp: marker_prefix_def)
  qed
qed simp

lemma newlines_prefix: "prefix p bs \<Longrightarrow> newlines p \<le> newlines bs"
  by (auto simp: prefix_def)

lemma marker_prefix_le:
  assumes p: "marker_prefix n bs p" and q: "prefix q bs" "newlines q = n"
  shows "prefix p q"
proof -
  have "\<not> strict_prefix q p"
  proof
    assume "strict_prefix q p"
    then obtain z zs where z: "p = q @ z # zs" by (rule strict_prefixE')
    then have "last (z # zs) = 0x0A" using p by (simp add: marker_prefix_def)
    then have "1 \<le> newlines (z # zs)"
      by (metis One_nat_def Suc_leI count_list_0_iff last_in_set list.discI nat_int_comparison(3)
          neq0_conv of_nat_1)
    then show False using p q z by (simp add: marker_prefix_def)
  qed
  then show ?thesis
    using p q prefix_same_cases [of p bs q] by (auto simp: marker_prefix_def strict_prefix_def)
qed

lemma marker_prefix_unique:
  "marker_prefix n bs p \<Longrightarrow> marker_prefix n bs q \<Longrightarrow> p = q"
  using marker_prefix_le [of n bs p q] marker_prefix_le [of n bs q p]
  by (simp add: marker_prefix_def)

lemma marker_prefix_bounds: "marker_prefix n bs p \<Longrightarrow> 1 \<le> n \<and> n \<le> newlines bs"
proof -
  assume a: "marker_prefix n bs p"
  then have "0x0A \<in> set p" by (metis last_in_set marker_prefix_def)
  then have "0 < count_list p 0x0A" by (metis count_list_0_iff neq0_conv)
  with a newlines_prefix [of p bs] show ?thesis by (auto simp: marker_prefix_def)
qed

lemma upto_marker_append:
  assumes "upto_marker p n = (q, True)"
  shows "upto_marker (p @ xs) n = (q, True)"
proof -
  from assms have n: "1 \<le> n" "n \<le> newlines p" and q: "q = take_nl n p"
    by (auto simp: upto_marker_eq split: if_splits)
  have "marker_prefix n (p @ xs) q"
    using take_nl_marker [OF n] q by (auto simp: marker_prefix_def)
  moreover have "marker_prefix n (p @ xs) (take_nl n (p @ xs))"
    using n by (intro take_nl_marker) auto
  ultimately have "q = take_nl n (p @ xs)" by (rule marker_prefix_unique)
  with n show ?thesis by (simp add: upto_marker_eq)
qed

section \<open>Occurrences\<close>

lemma bytes_in_sublist: "bytes_in sub bs \<longleftrightarrow> sublist sub bs"
  by (induction bs) (auto simp: sublist_Cons_right)

lemma bytes_count_Nil: "sub \<noteq> [] \<Longrightarrow> bytes_count sub [] = 0"
  by (subst bytes_count.simps) simp

lemma bytes_count_Cons: "sub \<noteq> [] \<Longrightarrow> bytes_count sub (b # bs) =
    (if prefix sub (b # bs) then Suc (bytes_count sub (drop (length sub) (b # bs)))
     else bytes_count sub bs)"
  by (subst bytes_count.simps) simp

lemma bytes_count_pos: "sub \<noteq> [] \<Longrightarrow> 0 < bytes_count sub bs \<longleftrightarrow> sublist sub bs"
  by (induction bs) (auto simp: bytes_count_Nil bytes_count_Cons sublist_Cons_right)

lemma bytes_count_two:
  assumes "sub \<noteq> []"
  shows "2 \<le> bytes_count sub bs \<longleftrightarrow> (\<exists>u v w. bs = u @ sub @ v @ sub @ w)"
proof (induction bs)
  case Nil
  then show ?case using assms by (simp add: bytes_count_Nil)
next
  case (Cons b bs)
  show ?case
  proof (cases "prefix sub (b # bs)")
    case True
    then obtain r where r: "b # bs = sub @ r" by (auto simp: prefix_def)
    have "bytes_count sub (b # bs) = Suc (bytes_count sub (drop (length sub) (sub @ r)))"
      unfolding r [symmetric] using bytes_count_Cons [OF assms] True by simp
    then have "2 \<le> bytes_count sub (b # bs) \<longleftrightarrow> sublist sub r"
      using bytes_count_pos [OF assms, of r] by auto
    also have "\<dots> \<longleftrightarrow> (\<exists>u v w. sub @ r = u @ sub @ v @ sub @ w)"
    proof
      assume "sublist sub r"
      then show "\<exists>u v w. sub @ r = u @ sub @ v @ sub @ w"
        by (metis append_Nil sublist_def)
    next
      assume "\<exists>u v w. sub @ r = u @ sub @ v @ sub @ w"
      then obtain u v w where e: "sub @ r = u @ sub @ v @ sub @ w" by blast
      then have "r = drop (length sub) (u @ sub @ v @ sub @ w)" by (metis append_eq_conv_conj)
      also have "\<dots> = drop (length sub) (u @ sub) @ (v @ sub @ w)" by simp
      finally show "sublist sub r" by (metis append.assoc sublist_appendI)
    qed
    finally show ?thesis by (simp only: r)
  next
    case False
    have "(\<exists>u v w. b # bs = u @ sub @ v @ sub @ w) \<longleftrightarrow>
        (\<exists>u v w. bs = u @ sub @ v @ sub @ w)" (is "?L \<longleftrightarrow> ?R")
    proof
      assume ?L
      then obtain u v w where e: "b # bs = u @ sub @ v @ sub @ w" by blast
      with False obtain u' where "u = b # u'" by (cases u) (auto simp: prefix_def)
      with e show ?R by auto
    next
      assume ?R
      then obtain u v w where "b # bs = (b # u) @ sub @ v @ sub @ w" by auto
      then show ?L by blast
    qed
    with False Cons.IH assms show ?thesis by (simp add: bytes_count_Cons)
  qed
qed

section \<open>The golden output and the observer's log\<close>

text \<open>\<open>golden_from\<close> compares the trial field with the text \<^verbatim>\<open>0\<close>, \<open>obs_bytes\<close> reads it as a number.
  They agree on a log that writes trial 0 as \<^verbatim>\<open>0\<close>.\<close>

definition plain_zero :: "string \<Rightarrow> string \<Rightarrow> bool" where
  "plain_zero ev l \<longleftrightarrow> (let f = py_split l in
     f \<noteq> [] \<and> hd f = ev \<and> 1 < length f \<and> py_int (f ! 1) 10 = Inr 0 \<longrightarrow> f ! 1 = ''0'')"

definition golden_rel :: "byte list \<Rightarrow> obs \<Rightarrow> bool" where
  "golden_rel out ob \<longleftrightarrow>
     o_bytes ob 0 \<noteq> Some [] \<and> out = (case o_bytes ob 0 of None \<Rightarrow> [] | Some bs \<Rightarrow> bs)"

lemma py_int_zero: "py_int ''0'' 10 = Inr 0"
  by code_simp

lemma append_field_nonempty: "append_field bs f = Inr bs' \<Longrightarrow> bs' \<noteq> []"
  by (auto simp: append_field_def bytearray_append_def res_simps split: if_splits)

lemma golden_line_sim:
  assumes ob: "obs_line ev ob l = Inr ob'" and rel: "golden_rel out ob" and z: "plain_zero ev l"
  shows "\<exists>out'. golden_line ev out l = Inr out' \<and> golden_rel out' ob'"
proof (cases "py_split l \<noteq> [] \<and> hd (py_split l) = ev")
  case False
  then have "o_bytes ob' = o_bytes ob"
    using ob by (auto simp: obs_line_def Let_def res_simps split: if_splits)
  with False rel show ?thesis by (auto simp: golden_line_def Let_def golden_rel_def)
next
  case True
  let ?f = "py_split l"
  from ob True obtain j bs where len: "1 < length ?f" and j: "py_int (?f ! 1) 10 = Inr j"
    and bs: "append_field (case o_bytes ob j of None \<Rightarrow> [] | Some bs \<Rightarrow> bs) ?f = Inr bs"
    and ob': "o_bytes ob' = (o_bytes ob)(j \<mapsto> bs)"
    by (auto simp: obs_line_def Let_def res_simps py_nth_def split: if_splits)
  have zero: "j = 0 \<longleftrightarrow> ?f ! 1 = ''0''"
    using z j len True py_int_zero by (auto simp: plain_zero_def Let_def)
  show ?thesis
  proof (cases "j = 0")
    case True
    with \<open>?f \<noteq> [] \<and> hd ?f = ev\<close> zero bs rel have "golden_line ev out l = Inr bs"
      using len by (simp add: golden_line_def Let_def py_nth_def golden_rel_def)
    with True ob' append_field_nonempty [OF bs] show ?thesis by (simp add: golden_rel_def)
  next
    case False
    with \<open>?f \<noteq> [] \<and> hd ?f = ev\<close> zero have "golden_line ev out l = Inr out"
      using len by (simp add: golden_line_def Let_def py_nth_def)
    with False ob' rel show ?thesis by (simp add: golden_rel_def)
  qed
qed

lemma golden_fold_sim:
  assumes "efold (obs_line ev) ob lines = Inr ob'" and "golden_rel out ob"
    and "\<And>l. l \<in> set lines \<Longrightarrow> plain_zero ev l"
  shows "\<exists>out'. efold (golden_line ev) out lines = Inr out' \<and> golden_rel out' ob'"
  using assms
proof (induction lines arbitrary: ob out)
  case (Cons l lines)
  then obtain ob1 where 1: "obs_line ev ob l = Inr ob1" and r: "efold (obs_line ev) ob1 lines = Inr ob'"
    by (auto simp: res_simps)
  with golden_line_sim [OF 1 Cons.prems(2)] Cons.prems(3)
  obtain out1 where "golden_line ev out l = Inr out1" "golden_rel out1 ob1" by auto
  with Cons.IH [OF r] Cons.prems(3) show ?case by auto
qed simp

section \<open>Properties\<close>

definition first_line :: "byte list \<Rightarrow> byte list" where
  "first_line bs = takeWhile (\<lambda>b. b \<noteq> 0x0A) bs @ [0x0A]"

lemma bytes_index_line:
  "0x0A \<in> set bs \<Longrightarrow> bytes_index bs 0x0A = Inr (length (takeWhile (\<lambda>b. b \<noteq> 0x0A) bs))"
  by (induction bs) auto

lemma take_first_line:
  "0x0A \<in> set bs \<Longrightarrow> take (Suc (length (takeWhile (\<lambda>b. b \<noteq> 0x0A) bs))) bs = first_line bs"
  by (induction bs) (auto simp: first_line_def)

lemma first_line_prefix: "0x0A \<in> set p \<Longrightarrow> prefix p bs \<Longrightarrow> first_line p = first_line bs"
  by (auto simp: first_line_def prefix_def takeWhile_append1)

text \<open>What \<open>classify\<close> returns once the golden output has its marker.\<close>

lemma classify_eq:
  assumes "snd (upto_marker golden n)"
  shows "classify data golden aborted n crash = Inr
    (let dm = fst (upto_marker data n); first = first_line golden in
     if aborted \<or> newlines data < n \<or> (\<exists>c \<in> set crash. sublist (encode c) dm) \<or>
       (\<exists>u v w. dm = u @ first @ v @ first @ w) then DUE
     else if dm = fst (upto_marker golden n) then Masked else SDC)"
proof -
  from assms have n: "1 \<le> n" "n \<le> newlines golden" by (auto simp: upto_marker_eq split: if_splits)
  define gm where "gm = fst (upto_marker golden n)"
  have gm: "marker_prefix n golden gm" using take_nl_marker [OF n] n by (simp add: gm_def upto_marker_eq)
  then have nl: "0x0A \<in> set gm" by (metis last_in_set marker_prefix_def)
  have fl: "take (Suc (length (takeWhile (\<lambda>b. b \<noteq> 0x0A) gm))) gm = first_line golden"
    using take_first_line [OF nl] first_line_prefix [OF nl] gm by (simp add: marker_prefix_def)
  have ne: "first_line golden \<noteq> []" by (simp add: first_line_def)
  have um: "upto_marker golden n = (gm, True)" using assms by (cases "upto_marker golden n") (simp add: gm_def)
  obtain dm d where dm: "upto_marker data n = (dm, d)" by force
  then have d: "d = (n \<le> newlines data)" using n by (auto simp: upto_marker_eq split: if_splits)
  have two: "(Suc 0 < bytes_count (first_line golden) dm) =
      (\<exists>u v w. dm = u @ first_line golden @ v @ first_line golden @ w)"
    using bytes_count_two [OF ne, of dm] by (simp add: numeral_2_eq_2 Suc_le_eq)
  show ?thesis
    unfolding classify_def Let_def um dm split fst_conv bytes_index_line [OF nl]
    by (simp add: fl two list_ex_iff bytes_in_sublist d)
qed

text \<open>C20: upto_marker returns the prefix that ends at the n-th newline with True exactly when there
  are n of them, and the whole input with False otherwise.\<close>

theorem upto_marker_correct:
  "(upto_marker bs n = (p, True) \<longleftrightarrow> marker_prefix n bs p) \<and>
   (upto_marker bs n = (p, False) \<longleftrightarrow> p = bs \<and> (\<nexists>q. marker_prefix n bs q))"
proof (cases "1 \<le> n \<and> n \<le> newlines bs")
  case True
  then have m: "marker_prefix n bs (take_nl n bs)" by (intro take_nl_marker) auto
  then have "marker_prefix n bs p \<longleftrightarrow> p = take_nl n bs" using marker_prefix_unique by blast
  with True m show ?thesis by (auto simp: upto_marker_eq)
next
  case False
  then have "\<nexists>q. marker_prefix n bs q" using marker_prefix_bounds by blast
  with False show ?thesis by (auto simp: upto_marker_eq)
qed

text \<open>C21: When the golden output has its end marker, classify returns DUE exactly for an aborted run,
  a missing end marker, a crash text before the marker or a first golden line seen twice;
  otherwise Masked when the bytes up to the marker agree and SDC when they differ.\<close>

theorem classify_verdict:
  assumes "upto_marker golden n = (gm, True)"
  shows "classify data golden aborted n crash = Inr
    (let dm = fst (upto_marker data n); first = first_line golden in
     if aborted \<or> newlines data < n \<or> (\<exists>c \<in> set crash. sublist (encode c) dm) \<or>
       (\<exists>u v w. dm = u @ first @ v @ first @ w) then DUE
     else if dm = gm then Masked else SDC)"
  using classify_eq [of golden n data aborted crash] unfolding assms fst_conv snd_conv by simp

theorem classify_verdict_witness:
  "classify [0x41, 0x0A] [0x41, 0x0A, 0x42] False 1 [''panic''] = Inr Masked"
proof -
  have "upto_marker [0x41, 0x0A, 0x42] 1 = ([0x41, 0x0A], True)" by (simp add: upto_marker_def)
  from classify_verdict [OF this, of "[0x41, 0x0A]" False "[''panic'']"]
  have "\<exists>v. classify [0x41, 0x0A] [0x41, 0x0A, 0x42] False 1 [''panic''] = Inr v" by blast
  moreover have "classify [0x41, 0x0A] [0x41, 0x0A, 0x42] False 1 [''panic''] = Inr Masked"
    by code_simp
  ultimately show ?thesis by simp
qed

text \<open>What a run prints after its end marker never changes its verdict.\<close>

theorem classify_ignores_after_marker:
  assumes "upto_marker p n = (q, True)"
  shows "classify (p @ xs) golden aborted n crash = classify p golden aborted n crash"
  using assms upto_marker_append [OF assms, of xs] by (simp add: classify_def)

theorem classify_ignores_after_marker_witness:
  "classify ([0x41, 0x0A] @ [0x5A]) [0x41, 0x0A] False 1 [] = classify [0x41, 0x0A] [0x41, 0x0A] False 1 []"
proof -
  have "upto_marker [0x41, 0x0A] 1 = ([0x41, 0x0A], True)" by (simp add: upto_marker_def)
  from classify_ignores_after_marker [OF this] show ?thesis .
qed


text \<open>C22: A run that prints exactly the golden output is Masked if and only if the golden output
  holds no crash text and does not repeat the bytes of its own first line.\<close>

theorem fault_free_masked_iff:
  assumes "upto_marker golden n = (gm, True)"
  shows "classify golden golden False n crash = Inr Masked \<longleftrightarrow>
    (\<forall>c \<in> set crash. \<not> sublist (encode c) gm) \<and>
    (\<nexists>u v w. gm = u @ first_line golden @ v @ first_line golden @ w)"
proof -
  have "n \<le> newlines golden" using assms by (auto simp: upto_marker_eq split: if_splits)
  then show ?thesis
    using classify_eq [of golden n golden False crash] unfolding assms Let_def fst_conv snd_conv
    by auto
qed

theorem fault_free_masked_iff_witness:
  "\<not> (\<exists>u v w. [0x41, 0x0A] = u @ first_line [0x41, 0x0A] @ v @ first_line [0x41, 0x0A] @ w)"
proof -
  have "upto_marker [0x41, 0x0A] 1 = ([0x41, 0x0A], True)" by (simp add: upto_marker_def)
  moreover have "classify [0x41, 0x0A] [0x41, 0x0A] False 1 [] = Inr Masked" by code_simp
  ultimately show ?thesis using fault_free_masked_iff [of "[0x41, 0x0A]" 1 _ "[]"] by blast
qed

text \<open>C24: On an observer log whose trial-zero lines are written plainly, golden_from gives exactly
  the bytes obs_bytes collects for trial 0, and exits when there are none.\<close>

theorem golden_is_trial_zero:
  assumes "obs_bytes lines ev = Inr ob" and "\<forall>l \<in> set lines. plain_zero ev l"
  shows "golden_from lines ev =
    (case o_bytes ob 0 of None \<Rightarrow> Inl (SysExit ''no lines of trial 0'') | Some bs \<Rightarrow> Inr bs)"
proof -
  have "golden_rel [] obs_empty" by (simp add: golden_rel_def obs_empty_def)
  from golden_fold_sim [OF assms(1) [unfolded obs_bytes_def] this] assms(2)
  obtain out where "efold (golden_line ev) [] lines = Inr out" "golden_rel out ob" by blast
  then show ?thesis by (auto simp: golden_from_def golden_rel_def split: option.splits)
qed

theorem golden_is_trial_zero_witness:
  "golden_from [''V 0 1 2 41'', ''A 1'', ''V 1 5 6 42''] ''V'' = Inr [0x41]"
proof -
  let ?ls = "[''V 0 1 2 41'', ''A 1'', ''V 1 5 6 42'']"
  have z: "\<forall>l \<in> set ?ls. plain_zero ''V'' l" by code_simp
  have "(case obs_bytes ?ls ''V'' of Inl e \<Rightarrow> None | Inr ob \<Rightarrow> o_bytes ob 0) = Some [0x41]"
    by code_simp
  then obtain ob where "obs_bytes ?ls ''V'' = Inr ob" "o_bytes ob 0 = Some [0x41]"
    by (auto split: sum.splits)
  with golden_is_trial_zero [OF _ z] show ?thesis by simp
qed

end
