(* ===== verification/Campaign.thy ===== *)
theory Campaign
  imports Uart_Stream Classify
begin

text \<open>
  The campaign driver of \<open>fpga/host/board_campaign.py\<close>: the commands \<open>parse\<close>, \<open>listen\<close> and \<open>run\<close>.
  What the driver sees of the world, the clock and the reader thread's runs, changes while it runs:
  \<open>world k\<close> is the time and the list of runs at its \<open>k\<close>-th look (a call of \<open>time.time()\<close> or of
  \<open>snapshot()\<close>), and \<open>k\<close> is threaded through. OpenOCD's replies and the campaign files are arguments.
\<close>

section \<open>parse\<close>

definition hex_byte :: "string \<Rightarrow> byte res" where
  "hex_byte x = ebind (py_int x 16) (\<lambda>v.
     if 0 \<le> v \<and> v < 256 then Inr (word_of_int v) else Inl (ValueError ''bytes must be in range(0, 256)''))"

definition run_lines :: "run \<Rightarrow> string list" where
  "run_lines r =
     (''R '' @ show_int (r_trial r) @ '' '' @ show_int (r_cycles_prev r) @ '' '' @ show_int (r_flags_prev r)) #
     map (\<lambda>x. ''B '' @ show_int (r_trial r) @ '' '' @ zero_pad 2 (show_hex (unat x))) (r_data r)"

definition parse_cmd :: "string \<Rightarrow> string list res" where
  "parse_cmd text =
     ebind (emap hex_byte (py_split text)) (\<lambda>bs.
       Inr (concat (map run_lines (stream_snapshot (stream_feed bs stream_init)))))"

section \<open>listen\<close>

text \<open>One round of the loop: the runs it prints and the new value of \<open>shown\<close>.\<close>

definition listen_step :: "nat \<Rightarrow> run list \<Rightarrow> run list \<times> nat" where
  "listen_step shown runs =
     ((if 1 < length runs then drop shown (butlast runs) else []), max shown (length runs - 1))"

fun listen_rounds :: "nat \<Rightarrow> run list list \<Rightarrow> run list \<times> nat" where
  "listen_rounds shown [] = ([], shown)"
| "listen_rounds shown (runs # rest_runs) =
     (case listen_step shown runs of (printed, shown1) \<Rightarrow>
        case listen_rounds shown1 rest_runs of (later, shown2) \<Rightarrow> (printed @ later, shown2))"

text \<open>The runs printed as closed and those printed at the end, given what each look sees.\<close>

definition listen_cmd :: "run list list \<Rightarrow> run list \<Rightarrow> run list \<times> run list" where
  "listen_cmd looks final = (case listen_rounds 0 looks of (printed, shown) \<Rightarrow> (printed, drop shown final))"

section \<open>The golden output\<close>

datatype golden_source = GoldenLog "string list" | GoldenText "byte list" | NoGolden

definition golden_of :: "golden_source \<Rightarrow> string \<Rightarrow> int option \<Rightarrow> (byte list \<times> int) res" where
  "golden_of src ev n_end =
     ebind (case src of
         GoldenLog ls \<Rightarrow> golden_from ls ev
       | GoldenText bs \<Rightarrow> Inr bs
       | NoGolden \<Rightarrow> Inl (SysExit ''run needs --golden-from or --golden-text'')) (\<lambda>golden.
       case n_end of
         None \<Rightarrow> Inl (SysExit ''run needs --end-newlines'')
       | Some n \<Rightarrow>
           if \<not> snd (upto_marker golden n)
           then Inl (SysExit (''the golden output has fewer than '' @ show_int n @ '' newlines''))
           else Inr (golden, n))"

section \<open>Waiting\<close>

type_synonym world = "nat \<Rightarrow> real \<times> run list"

abbreviation clock_at :: "world \<Rightarrow> nat \<Rightarrow> real" where
  "clock_at w k \<equiv> fst (w k)"

abbreviation runs_at :: "world \<Rightarrow> nat \<Rightarrow> run list" where
  "runs_at w k \<equiv> snd (w k)"

definition clk_hz :: real where
  "clk_hz = 12500000"

text \<open>The wait until the stream is quiet; it gives up ten seconds after the start.\<close>

partial_function (option) quiet_loop ::
    "world \<Rightarrow> real \<Rightarrow> real \<Rightarrow> string \<Rightarrow> nat \<Rightarrow> real \<Rightarrow> nat \<Rightarrow> nat res option" where
  "quiet_loop w quiet t_stop path n_last t_quiet k =
     (if clock_at w k - t_quiet < quiet
      then (case (if length (runs_at w (k + 1)) \<noteq> n_last
                  then (length (runs_at w (k + 2)), clock_at w (k + 3), k + 4)
                  else (n_last, t_quiet, k + 2)) of (n1, t1, k1) \<Rightarrow>
        if clock_at w k1 - t_stop > 10
        then Some (Inl (SysExit (path @ '': the DUT keeps being restarted after CFG_TO_THR = 0 was written'')))
        else quiet_loop w quiet t_stop path n1 t1 (k1 + 1))
      else Some (Inr (k + 1)))"

text \<open>The wait for the records of a campaign: whether they all came, and the next look.\<close>

partial_function (option) wait_loop ::
    "world \<Rightarrow> real \<Rightarrow> real \<Rightarrow> nat \<Rightarrow> nat \<Rightarrow> (bool \<times> nat) option" where
  "wait_loop w timeout t_armed goal k =
     (if length (runs_at w k) < goal
      then (if clock_at w (k + 1) - t_armed > timeout then Some (False, k + 3)
            else wait_loop w timeout t_armed goal (k + 2))
      else Some (True, k + 1))"

section \<open>The trials of a campaign\<close>

record camp =
  c_scan_len :: int
  c_w_idx :: int
  c_to_thr :: int
  c_trials :: "(int \<times> int list) list"

datatype tclass = Lost | Class verdict

record trial_rec =
  tr_trial :: nat
  tr_fi_cycle :: int
  tr_F :: "int list"
  tr_run :: int
  tr_class :: tclass
  tr_bytes :: "byte list"
  tr_cycles :: int
  tr_flags :: int
  tr_t :: real
  tr_vcs :: "(verdict \<times> bool) option"

record trials_state =
  ts_recs :: "trial_rec list"
  ts_counts :: "(tclass \<times> nat) list"
  ts_same :: nat

definition trial_class :: "run \<Rightarrow> run \<Rightarrow> byte list \<Rightarrow> int \<Rightarrow> string list \<Rightarrow> tclass res" where
  "trial_class r nxt golden n_end crash =
     (let aborted = (r_flags_prev nxt AND 1 \<noteq> 0);
          lost = ((r_flags_prev nxt OR r_flags_prev r) AND 2 \<noteq> 0) in
      if lost then Inr Lost
      else ebind (classify (r_data r) golden aborted n_end crash) (\<lambda>v. Inr (Class v)))"

text \<open>The class of the same trial in simulation, and whether its bytes are the board's.\<close>

definition vcs_compare :: "obs \<Rightarrow> nat \<Rightarrow> byte list \<Rightarrow> byte list \<Rightarrow> int \<Rightarrow> string list \<Rightarrow> (verdict \<times> bool) res" where
  "vcs_compare vcs j data golden n_end crash =
     (let vb = (case o_bytes vcs (int j) of None \<Rightarrow> [] | Some bs \<Rightarrow> bs) in
      ebind (classify vb golden (int j \<in> o_abort vcs) n_end crash) (\<lambda>v. Inr (v, vb = data)))"

definition vcs_of :: "obs option \<Rightarrow> nat \<Rightarrow> byte list \<Rightarrow> byte list \<Rightarrow> int \<Rightarrow> string list \<Rightarrow>
    (verdict \<times> bool) option res" where
  "vcs_of vcs j data golden n_end crash =
     (case vcs of None \<Rightarrow> Inr None
      | Some v \<Rightarrow> ebind (vcs_compare v j data golden n_end crash) (\<lambda>x. Inr (Some x)))"

text \<open>One round of the loop over the trials: trial \<open>j\<close> is run \<open>before + j - 1\<close>.\<close>

definition trial_step :: "camp \<Rightarrow> run list \<Rightarrow> nat \<Rightarrow> byte list \<Rightarrow> int \<Rightarrow> string list \<Rightarrow> obs option \<Rightarrow>
    trials_state \<Rightarrow> nat \<Rightarrow> trials_state res" where
  "trial_step c runs before golden n_end crash vcs st j =
     (let k = before + j - 1; r = runs ! k; nxt = runs ! (k + 1) in
      ebind (trial_class r nxt golden n_end crash) (\<lambda>cls.
      ebind (vcs_of vcs j (r_data r) golden n_end crash) (\<lambda>vc.
      ebind (py_nth (c_trials c) (j - 1)) (\<lambda>(cyc, fs).
        Inr \<lparr>ts_recs = ts_recs st @ [\<lparr>tr_trial = j, tr_fi_cycle = cyc, tr_F = fs, tr_run = r_trial r,
               tr_class = cls, tr_bytes = r_data r, tr_cycles = r_cycles_prev nxt,
               tr_flags = r_flags_prev nxt, tr_t = r_t r, tr_vcs = vc\<rparr>],
             ts_counts = dict_set cls (dict_get (ts_counts st) cls 0 + 1) (ts_counts st),
             ts_same = ts_same st + (case vc of Some (v, _) \<Rightarrow> of_bool (cls = Class v) | None \<Rightarrow> 0)\<rparr>))))"

fun trial_loop :: "camp \<Rightarrow> run list \<Rightarrow> nat \<Rightarrow> byte list \<Rightarrow> int \<Rightarrow> string list \<Rightarrow> obs option \<Rightarrow>
    trials_state \<Rightarrow> nat list \<Rightarrow> trials_state res" where
  "trial_loop c runs before golden n_end crash vcs st [] = Inr st"
| "trial_loop c runs before golden n_end crash vcs st (j # js) =
     (if length runs \<le> before + j - 1 + 1 then Inr st
      else ebind (trial_step c runs before golden n_end crash vcs st j) (\<lambda>st1.
        trial_loop c runs before golden n_end crash vcs st1 js))"

definition no_trials :: trials_state where
  "no_trials = \<lparr>ts_recs = [], ts_counts = [], ts_same = 0\<rparr>"

text \<open>The length of the campaign in cycles, and the time between its first and last record.\<close>

definition run_cycles :: "run list \<Rightarrow> nat \<Rightarrow> nat \<Rightarrow> int" where
  "run_cycles runs before n = sum_list (map (\<lambda>j. r_cycles_prev (runs ! (before + j)))
     (filter (\<lambda>j. before + j < length runs) [1..<Suc n]))"

definition wall_time :: "run list \<Rightarrow> nat \<Rightarrow> nat \<Rightarrow> real" where
  "wall_time runs before n =
     (if before < length runs then r_t (runs ! min (before + n) (length runs - 1)) - r_t (runs ! before) else 0)"

section \<open>run\<close>

text \<open>The Tcl commands that set up a campaign, and the one that loads and arms it.\<close>

definition setup_cmds :: "camp \<Rightarrow> string list" where
  "setup_cmds c = [''set FI_SCAN_LEN '' @ show_int (c_scan_len c), ''set FI_W_IDX '' @ show_int (c_w_idx c),
     ''fi_dmi_write 0x66 0; fi_dmi_flush'']"

definition trial_word :: "int \<times> int list \<Rightarrow> string" where
  "trial_word cf = ''{'' @ show_int (fst cf) @ '' {'' @ join_sep '' '' (map show_int (snd cf)) @ ''}}''"

definition campaign_cmd :: "camp \<Rightarrow> string" where
  "campaign_cmd c =
     ''fi_campaign {'' @ join_sep '' '' (map trial_word (c_trials c)) @ ''} '' @ show_int (c_to_thr c)"

text \<open>\<open>"error" in r.lower()\<close>.\<close>

definition lower :: "char \<Rightarrow> char" where
  "lower ch = (if 65 \<le> ord ch \<and> ord ch \<le> 90 then char_of (ord ch + 32) else ch)"

definition has_error :: "string \<Rightarrow> bool" where
  "has_error r = sublist ''error'' (map lower r)"

definition quiet_time :: "camp \<Rightarrow> real" where
  "quiet_time c =
     (let trial_s = (of_int (c_to_thr c) + 2 * of_int (c_scan_len c)) / clk_hz in
      max (15 / 100) (2 * trial_s + 1024 * 10 / 115741))"

record campaign_out =
  co_cmds :: "string list"
  co_before :: nat
  co_complete :: bool
  co_trials :: trials_state
  co_cycles :: int
  co_wall :: real

definition campaign_results :: "camp \<Rightarrow> run list \<Rightarrow> nat \<Rightarrow> bool \<Rightarrow> byte list \<Rightarrow> int \<Rightarrow> string list \<Rightarrow> obs option \<Rightarrow>
    campaign_out res" where
  "campaign_results c runs before all_in golden n_end crash vcs =
     (let n = length (c_trials c) in
      ebind (trial_loop c runs before golden n_end crash vcs no_trials [1..<Suc n]) (\<lambda>ts.
        Inr \<lparr>co_cmds = setup_cmds c @ [campaign_cmd c], co_before = before, co_complete = all_in, co_trials = ts,
             co_cycles = run_cycles runs before n, co_wall = wall_time runs before n\<rparr>))"

text \<open>
  The body of the loop over the campaign files, from the look \<open>k\<close> on (the one of \<open>t_pause\<close>): what it
  reports and the next look. None means that it waits for ever.
\<close>

definition run_campaign :: "world \<Rightarrow> real \<Rightarrow> string \<Rightarrow> camp \<Rightarrow> string \<Rightarrow> byte list \<Rightarrow> int \<Rightarrow> string list \<Rightarrow>
    obs option \<Rightarrow> nat \<Rightarrow> (campaign_out \<times> nat) res option" where
  "run_campaign w timeout path c reply golden n_end crash vcs k =
     Option.bind (quiet_loop w (quiet_time c) (clock_at w (k + 2)) path (length (runs_at w (k + 1)))
         (clock_at w (k + 2)) (k + 3)) (\<lambda>q.
       case q of
         Inl e \<Rightarrow> Some (Inl e)
       | Inr k1 \<Rightarrow>
           let before = length (runs_at w k1); t_armed = clock_at w (k1 + 2) in
           if has_error reply then Some (Inl (SysExit (path @ '': fi_campaign failed: '' @ reply)))
           else Option.bind (wait_loop w timeout t_armed (before + length (c_trials c) + 1) (k1 + 3)) (\<lambda>(done1, k2).
             Some (ebind (campaign_results c (runs_at w k2) before done1 golden n_end crash vcs) (\<lambda>co.
               Inr (co, k2 + 2)))))"

text \<open>The loop over the campaign files.\<close>

fun run_campaigns :: "world \<Rightarrow> real \<Rightarrow> (string \<times> camp \<times> string \<times> obs option) list \<Rightarrow> byte list \<Rightarrow> int \<Rightarrow>
    string list \<Rightarrow> nat \<Rightarrow> campaign_out list res option" where
  "run_campaigns w timeout [] golden n_end crash k = Some (Inr [])"
| "run_campaigns w timeout ((path, c, reply, vcs) # cs) golden n_end crash k =
     Option.bind (run_campaign w timeout path c reply golden n_end crash vcs k) (\<lambda>x.
       case x of
         Inl e \<Rightarrow> Some (Inl e)
       | Inr (co, k1) \<Rightarrow> Option.bind (run_campaigns w timeout cs golden n_end crash k1) (\<lambda>y.
           Some (ebind y (\<lambda>cos. Inr (co # cos)))))"

definition run_cmd :: "world \<Rightarrow> real \<Rightarrow> golden_source \<Rightarrow> string \<Rightarrow> int option \<Rightarrow> string list \<Rightarrow>
    (string \<times> camp \<times> string \<times> obs option) list \<Rightarrow> nat \<Rightarrow> campaign_out list res option" where
  "run_cmd w timeout src ev n_end crash cs k =
     (case golden_of src ev n_end of
        Inl e \<Rightarrow> Some (Inl e)
      | Inr (golden, n) \<Rightarrow> run_campaigns w timeout cs golden n crash k)"

end
