(* ===== verification/Campaign_Props.thy ===== *)
theory Campaign_Props
  imports Campaign
begin

text \<open>
  What the campaign driver promises: that its waits end, that every trial whose record arrived is
  reported once, with its own bytes and the class those deserve, and that \<open>listen\<close> prints every run once.
\<close>

section \<open>The waits\<close>

text \<open>Time goes on: the clock never goes back and passes every time in the end.\<close>

definition time_goes_on :: "world \<Rightarrow> bool" where
  "time_goes_on w \<longleftrightarrow> (\<forall>i j. i \<le> j \<longrightarrow> clock_at w i \<le> clock_at w j) \<and> (\<forall>T. \<exists>k. T < clock_at w k)"

lemma clock_past:
  assumes "time_goes_on w"
  shows "\<exists>k. \<forall>j \<ge> k. T < clock_at w j"
proof -
  from assms obtain k where k: "T < clock_at w k" unfolding time_goes_on_def by blast
  have "T < clock_at w j" if "k \<le> j" for j
    using k assms that unfolding time_goes_on_def by (meson less_le_trans)
  then show ?thesis by blast
qed

lemma quiet_ends:
  assumes "time_goes_on w"
  shows "\<exists>x. quiet_loop w quiet t_stop path n_last t_quiet k = Some x"
proof -
  from clock_past [OF assms] obtain K where K: "\<forall>j \<ge> K. t_stop + 10 < clock_at w j" by blast
  show ?thesis
  proof (induction "K - k" arbitrary: n_last t_quiet k rule: less_induct)
    case less
    show ?case
    proof (cases "clock_at w k - t_quiet < quiet")
      case False
      then show ?thesis by (simp add: quiet_loop.simps)
    next
      case True
      obtain n1 t1 k1 where b: "(if length (runs_at w (k + 1)) \<noteq> n_last
            then (length (runs_at w (k + 2)), clock_at w (k + 3), k + 4) else (n_last, t_quiet, k + 2)) = (n1, t1, k1)"
        by (metis surj_pair)
      then have k1: "k < k1" by (auto split: if_splits)
      have q: "quiet_loop w quiet t_stop path n_last t_quiet k =
          (if clock_at w k1 - t_stop > 10
           then Some (Inl (SysExit (path @ '': the DUT keeps being restarted after CFG_TO_THR = 0 was written'')))
           else quiet_loop w quiet t_stop path n1 t1 (k1 + 1))"
        using True by (subst quiet_loop.simps) (simp only: b prod.case if_True)
      show ?thesis
      proof (cases "clock_at w k1 - t_stop > 10")
        case True
        with q show ?thesis by simp
      next
        case False
        then have "k1 < K" using spec [OF K, of k1] by (cases "K \<le> k1") auto
        then have "K - (k1 + 1) < K - k" using k1 by simp
        from less.hyps [OF this] q False show ?thesis by simp
      qed
    qed
  qed
qed

lemma wait_ends:
  assumes "time_goes_on w"
  shows "\<exists>x. wait_loop w timeout t_armed goal k = Some x"
proof -
  from clock_past [OF assms] obtain K where K: "\<forall>j \<ge> K. t_armed + timeout < clock_at w j" by blast
  show ?thesis
  proof (induction "K - k" arbitrary: k rule: less_induct)
    case less
    show ?case
    proof (cases "length (runs_at w k) < goal \<and> \<not> clock_at w (k + 1) - t_armed > timeout")
      case False
      then show ?thesis by (subst wait_loop.simps) auto
    next
      case True
      then have "k + 1 < K" using spec [OF K, of "k + 1"] by (cases "K \<le> k + 1") auto
      then have "K - (k + 2) < K - k" by simp
      from less.hyps [OF this] True show ?thesis by (subst wait_loop.simps) simp
    qed
  qed
qed

lemma bind_ends: "(\<exists>x. m = Some x) \<Longrightarrow> (\<And>x. m = Some x \<Longrightarrow> \<exists>y. f x = Some y) \<Longrightarrow> \<exists>y. Option.bind m f = Some y"
  by auto

lemma run_campaign_ends:
  assumes "time_goes_on w"
  shows "\<exists>x. run_campaign w timeout path c reply golden n_end crash vcs k = Some x"
  unfolding run_campaign_def
proof (rule bind_ends [OF quiet_ends [OF assms]])
  fix q
  show "\<exists>y. (case q of Inl e \<Rightarrow> Some (Inl e)
       | Inr k1 \<Rightarrow>
           let before = length (runs_at w k1); t_armed = clock_at w (k1 + 2) in
           if has_error reply then Some (Inl (SysExit (path @ '': fi_campaign failed: '' @ reply)))
           else Option.bind (wait_loop w timeout t_armed (before + length (c_trials c) + 1) (k1 + 3)) (\<lambda>(done1, k2).
             Some (ebind (campaign_results c (runs_at w k2) before done1 golden n_end crash vcs) (\<lambda>co.
               Inr (co, k2 + 2))))) = Some y"
  proof (cases q)
    case (Inr k1)
    from wait_ends [OF assms] obtain d k2 where
      "wait_loop w timeout (clock_at w (k1 + 2)) (length (runs_at w k1) + length (c_trials c) + 1) (k1 + 3) = Some (d, k2)"
      by (metis surj_pair)
    with Inr show ?thesis by (simp add: Let_def)
  qed simp
qed

lemma run_campaigns_end:
  "time_goes_on w \<Longrightarrow> \<exists>x. run_campaigns w timeout cs golden n_end crash k = Some x"
proof (induction cs arbitrary: k)
  case (Cons x cs)
  obtain path c reply vcs where x: "x = (path, c, reply, vcs)" by (metis surj_pair)
  from run_campaign_ends [OF Cons.prems] obtain y where
    y: "run_campaign w timeout path c reply golden n_end crash vcs k = Some y" by blast
  show ?case
  proof (cases y)
    case (Inr ck)
    obtain co k1 where "ck = (co, k1)" by (metis surj_pair)
    moreover from Cons.IH [OF Cons.prems] obtain z where "run_campaigns w timeout cs golden n_end crash k1 = Some z" by blast
    ultimately show ?thesis using y Inr by (simp add: x)
  qed (use y in \<open>simp add: x\<close>)
qed simp

section \<open>The records of a campaign\<close>

text \<open>
  The specification of a campaign's results: the trials whose own record and the next one arrived,
  in order, each with the bytes of its run, the length and flags of the next record, and its class;
  and the counts of the classes.
\<close>

definition trial_recorded :: "camp \<Rightarrow> run list \<Rightarrow> nat \<Rightarrow> byte list \<Rightarrow> int \<Rightarrow> string list \<Rightarrow> nat \<Rightarrow> trial_rec \<Rightarrow> bool" where
  "trial_recorded c runs before golden n_end crash i rec \<longleftrightarrow>
     (let r = runs ! (before + i); nxt = runs ! (before + i + 1) in
      tr_trial rec = i + 1 \<and> (tr_fi_cycle rec, tr_F rec) = c_trials c ! i \<and> tr_run rec = r_trial r \<and>
      tr_bytes rec = r_data r \<and> tr_cycles rec = r_cycles_prev nxt \<and> tr_flags rec = r_flags_prev nxt \<and>
      (if r_flags_prev nxt AND 2 \<noteq> 0 \<or> r_flags_prev r AND 2 \<noteq> 0 then tr_class rec = Lost
       else \<exists>v. classify (r_data r) golden (r_flags_prev nxt AND 1 \<noteq> 0) n_end crash = Inr v \<and> tr_class rec = Class v))"

definition trials_recorded :: "camp \<Rightarrow> run list \<Rightarrow> nat \<Rightarrow> byte list \<Rightarrow> int \<Rightarrow> string list \<Rightarrow> nat \<Rightarrow> trials_state \<Rightarrow> bool" where
  "trials_recorded c runs before golden n_end crash m st \<longleftrightarrow>
     length (ts_recs st) = m \<and>
     (\<forall>i < m. trial_recorded c runs before golden n_end crash i (ts_recs st ! i)) \<and>
     (\<forall>cls. dict_get (ts_counts st) cls 0 = length (filter (\<lambda>rec. tr_class rec = cls) (ts_recs st)))"

lemma lost_or: "((a OR b) AND 2 \<noteq> 0) \<longleftrightarrow> (a AND 2 \<noteq> 0 \<or> b AND 2 \<noteq> (0 :: int))"
proof -
  have "(a OR b) AND 2 = (a AND 2) OR (b AND 2)" by (simp add: bit.conj_disj_distrib2)
  then show ?thesis by (simp add: or_eq_0_iff)
qed

lemma trial_step_recorded:
  assumes g: "snd (upto_marker golden n_end)" and i: "i < length (c_trials c)"
    and st: "trials_recorded c runs before golden n_end crash i st"
  shows "\<exists>st'. trial_step c runs before golden n_end crash vcs st (Suc i) = Inr st' \<and>
    trials_recorded c runs before golden n_end crash (Suc i) st'"
proof -
  let ?r = "runs ! (before + i)" and ?n = "runs ! (before + i + 1)"
  let ?lost = "r_flags_prev ?n AND 2 \<noteq> 0 \<or> r_flags_prev ?r AND 2 \<noteq> 0"
  obtain v where v: "classify (r_data ?r) golden (r_flags_prev ?n AND 1 \<noteq> 0) n_end crash = Inr v"
    using classify_eq [OF g] by blast
  obtain cls where cls: "trial_class ?r ?n golden n_end crash = Inr cls"
    and c: "cls = (if ?lost then Lost else Class v)"
    using v by (auto simp: trial_class_def lost_or)
  obtain vc where vc: "vcs_of vcs (Suc i) (r_data ?r) golden n_end crash = Inr vc"
    using classify_eq [OF g] by (cases vcs) (auto simp: vcs_of_def vcs_compare_def Let_def)
  obtain cyc fs where t: "c_trials c ! i = (cyc, fs)" by (metis surj_pair)
  then have t': "py_nth (c_trials c) i = Inr (cyc, fs)" using i by (simp add: py_nth_def)
  define rec where "rec = \<lparr>tr_trial = Suc i, tr_fi_cycle = cyc, tr_F = fs, tr_run = r_trial ?r,
    tr_class = cls, tr_bytes = r_data ?r, tr_cycles = r_cycles_prev ?n, tr_flags = r_flags_prev ?n, tr_t = r_t ?r, tr_vcs = vc\<rparr>"
  have new: "trial_recorded c runs before golden n_end crash i rec"
    using v by (simp add: trial_recorded_def rec_def Let_def t c)
  obtain same where s: "trial_step c runs before golden n_end crash vcs st (Suc i) =
      Inr \<lparr>ts_recs = ts_recs st @ [rec], ts_counts = dict_set cls (dict_get (ts_counts st) cls 0 + 1) (ts_counts st), ts_same = same\<rparr>"
    using cls vc t' by (simp add: trial_step_def Let_def rec_def)
  have "tr_class rec = cls" by (simp add: rec_def)
  then have "trials_recorded c runs before golden n_end crash (Suc i)
      \<lparr>ts_recs = ts_recs st @ [rec], ts_counts = dict_set cls (dict_get (ts_counts st) cls 0 + 1) (ts_counts st), ts_same = same\<rparr>"
    using st new by (auto simp: trials_recorded_def nth_append less_Suc_eq dict_get_set)
  with s show ?thesis by blast
qed

lemma trial_loop_recorded:
  assumes g: "snd (upto_marker golden n_end)"
  shows "i + k = length (c_trials c) \<Longrightarrow> trials_recorded c runs before golden n_end crash i st \<Longrightarrow>
    (i = 0 \<or> before + i < length runs) \<Longrightarrow>
    \<exists>st'. trial_loop c runs before golden n_end crash vcs st [Suc i..<Suc (i + k)] = Inr st' \<and>
      trials_recorded c runs before golden n_end crash (min (i + k) (max i (length runs - before - 1))) st'"
proof (induction k arbitrary: i st)
  case 0
  then show ?case by (simp add: min_def)
next
  case (Suc k)
  have u: "[Suc i..<Suc (i + Suc k)] = Suc i # [Suc (Suc i)..<Suc (Suc i + k)]" by (simp add: upt_conv_Cons)
  show ?case
  proof (cases "length runs \<le> before + i + 1")
    case True
    then have "min (i + Suc k) (max i (length runs - before - 1)) = i" by auto
    with True Suc.prems(2) show ?thesis unfolding u by simp
  next
    case False
    have "i < length (c_trials c)" using Suc.prems(1) by simp
    from trial_step_recorded [OF g this Suc.prems(2), of vcs] obtain st1 where
      s: "trial_step c runs before golden n_end crash vcs st (Suc i) = Inr st1"
      "trials_recorded c runs before golden n_end crash (Suc i) st1" by blast
    have "Suc i + k = length (c_trials c)" "Suc i = 0 \<or> before + Suc i < length runs"
      using Suc.prems(1) False by simp_all
    from Suc.IH [OF this(1) s(2) this(2)] obtain st' where
      e: "trial_loop c runs before golden n_end crash vcs st1 [Suc (Suc i)..<Suc (Suc i + k)] = Inr st'"
      "trials_recorded c runs before golden n_end crash (min (Suc i + k) (max (Suc i) (length runs - before - 1))) st'"
      by blast
    have "min (Suc i + k) (max (Suc i) (length runs - before - 1)) = min (i + Suc k) (max i (length runs - before - 1))"
      using False by simp
    with e s(1) False show ?thesis unfolding u by simp
  qed
qed

lemma campaign_recorded:
  assumes "snd (upto_marker golden n_end)"
  shows "\<exists>co. campaign_results c runs before all_in golden n_end crash vcs = Inr co \<and>
    trials_recorded c runs before golden n_end crash (min (length (c_trials c)) (length runs - before - 1)) (co_trials co)"
proof -
  have "trials_recorded c runs before golden n_end crash 0 no_trials"
    by (simp add: trials_recorded_def no_trials_def dict_get_def)
  from trial_loop_recorded [OF assms, of 0 "length (c_trials c)", OF _ this, of vcs] show ?thesis
    by (auto simp: campaign_results_def Let_def)
qed

section \<open>Flags\<close>

lemma sent_flags:
  "r_flags_prev (sent_run b) AND 2 \<noteq> 0 \<longleftrightarrow> b_lost b" "r_flags_prev (sent_run b) AND 1 \<noteq> 0 \<longleftrightarrow> b_abort b"
  by (simp_all add: sent_run_def)

section \<open>listen\<close>

lemma listen_step_eq:
  assumes "runs_le runs final"
  shows "listen_step shown runs = (drop shown (take (length runs - 1) final), max shown (length runs - 1))"
proof -
  have "butlast runs = take (length runs - 1) final"
    using assms by (intro nth_equalityI) (auto simp: runs_le_def nth_butlast)
  then show ?thesis by (cases "1 < length runs") (auto simp: listen_step_def)
qed

lemma listen_rounds_eq:
  "\<forall>runs \<in> set looks. runs_le runs final \<Longrightarrow> shown \<le> length final \<Longrightarrow> listen_rounds shown looks = (printed, shown2) \<Longrightarrow>
    shown \<le> shown2 \<and> shown2 \<le> length final \<and> printed = take (shown2 - shown) (drop shown final)"
proof (induction looks arbitrary: shown printed)
  case (Cons runs looks)
  let ?s = "max shown (length runs - 1)"
  have le: "runs_le runs final" using Cons.prems(1) by simp
  then have s: "?s \<le> length final" using Cons.prems(2) by (auto simp: runs_le_def)
  from Cons.prems(3) obtain later where l: "listen_rounds ?s looks = (later, shown2)"
    and p: "printed = drop shown (take (length runs - 1) final) @ later"
    by (auto simp: listen_step_eq [OF le] split: prod.splits)
  from Cons.IH [OF _ s l] Cons.prems(1) have i: "?s \<le> shown2" "shown2 \<le> length final"
    "later = take (shown2 - ?s) (drop ?s final)" by auto
  have "drop shown (take (length runs - 1) final) = take (?s - shown) (drop shown final)"
    by (simp add: drop_take max_def)
  then have "printed = take (?s - shown) (drop shown final) @ take (shown2 - ?s) (drop (?s - shown) (drop shown final))"
    using p i(3) by simp
  also have "\<dots> = take ((?s - shown) + (shown2 - ?s)) (drop shown final)" by (rule take_add [symmetric])
  also have "(?s - shown) + (shown2 - ?s) = shown2 - shown" using i(1) by simp
  finally show ?case using i by simp
qed simp

section \<open>Properties\<close>


definition slow_world :: world where
  "slow_world k = (real k, [])"

definition small_camp :: camp where
  "small_camp = \<lparr>c_scan_len = 8, c_w_idx = 3, c_to_thr = 1000, c_trials = [(5, [0])]\<rparr>"


text \<open>C14: Once the golden output has its marker, evaluating a campaign never fails: the trials whose
  own and next record arrived are recorded in order with their data and class, and the count of
  every class is the number of such trials.\<close>

theorem results_recorded:
  assumes "snd (upto_marker golden n_end)"
  shows "\<exists>co. campaign_results c runs before all_in golden n_end crash vcs = Inr co \<and>
    trials_recorded c runs before golden n_end crash (min (length (c_trials c)) (length runs - before - 1)) (co_trials co)"
  using assms by (rule campaign_recorded)

definition small_runs :: "run list" where
  "small_runs = [\<lparr>r_trial = 1, r_cycles_prev = 9, r_flags_prev = 0, r_t = 0, r_data = [0x41, 0x0A]\<rparr>,
     \<lparr>r_trial = 2, r_cycles_prev = 70, r_flags_prev = 1, r_t = 1, r_data = []\<rparr>]"

theorem results_recorded_witness:
  "\<exists>co. campaign_results small_camp small_runs 0 True [0x41, 0x0A] 1 [] None = Inr co \<and>
    trial_recorded small_camp small_runs 0 [0x41, 0x0A] 1 [] 0 (ts_recs (co_trials co) ! 0)"
proof -
  have "snd (upto_marker [0x41, 0x0A] 1)" by (simp add: upto_marker_def)
  from results_recorded [OF this, of small_camp small_runs 0 True "[]" None]
  show ?thesis by (auto simp: small_camp_def small_runs_def trials_recorded_def)
qed

text \<open>Board to report: when the board sends the runs before a campaign, its trials and what
  follows, the campaign records every trial once, in order, with the bytes that run printed, its
  length, LOST exactly when its own or the next record lost bytes, and else the class classify
  gives.\<close>

theorem board_runs_recorded:
  assumes "runs = s_runs (stream_feed (concat (map board_send (old @ trials @ after # later))) stream_init)"
    and "length (c_trials c) = length trials" and "snd (upto_marker golden n_end)"
  shows "\<exists>co. campaign_results c runs (length old) all_in golden n_end crash vcs = Inr co \<and>
    length (ts_recs (co_trials co)) = length trials \<and>
    (\<forall>i < length trials. let b = trials ! i; nx = (trials @ [after]) ! Suc i; rec = ts_recs (co_trials co) ! i in
       tr_trial rec = Suc i \<and> tr_bytes rec = b_bytes b \<and> tr_run rec = uint (b_trial b) \<and> tr_cycles rec = uint (b_cyc nx) \<and>
       (if b_lost b \<or> b_lost nx then tr_class rec = Lost
        else \<exists>v. classify (b_bytes b) golden (b_abort nx) n_end crash = Inr v \<and> tr_class rec = Class v))"
proof -
  have runs: "runs = map sent_run (old @ trials @ after # later)"
    unfolding assms(1) stream_feed_sent by (simp add: stream_init_def)
  from campaign_recorded [OF assms(3), of c runs "length old" all_in crash vcs] obtain co where
    co: "campaign_results c runs (length old) all_in golden n_end crash vcs = Inr co"
    and t: "trials_recorded c runs (length old) golden n_end crash (length trials) (co_trials co)"
    by (auto simp: runs assms(2))
  have "let b = trials ! i; nx = (trials @ [after]) ! Suc i; rec = ts_recs (co_trials co) ! i in
       tr_trial rec = Suc i \<and> tr_bytes rec = b_bytes b \<and> tr_run rec = uint (b_trial b) \<and> tr_cycles rec = uint (b_cyc nx) \<and>
       (if b_lost b \<or> b_lost nx then tr_class rec = Lost
        else \<exists>v. classify (b_bytes b) golden (b_abort nx) n_end crash = Inr v \<and> tr_class rec = Class v)"
    if i: "i < length trials" for i
  proof -
    define b where "b = trials ! i"
    define nx where "nx = (trials @ [after]) ! Suc i"
    have r: "runs ! (length old + i) = sent_run b" "runs ! (length old + i + 1) = sent_run nx"
      using i by (auto simp: runs b_def nx_def nth_append)
    have "trial_recorded c runs (length old) golden n_end crash i (ts_recs (co_trials co) ! i)"
      using t i by (simp add: trials_recorded_def)
    note k = this [unfolded trial_recorded_def Let_def r sent_flags]
    show ?thesis unfolding Let_def b_def [symmetric] nx_def [symmetric]
      using k by (auto simp: sent_run_def split: if_splits)
  qed
  with co t show ?thesis by (auto simp: trials_recorded_def)
qed

definition small_board :: "byte list \<Rightarrow> board_run" where
  "small_board bs = \<lparr>b_trial = 1, b_cyc = 7, b_lost = False, b_abort = False, b_bytes = bs\<rparr>"

theorem board_runs_recorded_witness:
  "\<exists>co. campaign_results small_camp
      (s_runs (stream_feed (concat (map board_send ([] @ [small_board [0x41, 0xC0, 0x0A]] @ small_board [] # []))) stream_init))
      (length ([] :: board_run list)) True [0x41, 0x0A] 1 [] None = Inr co \<and>
    tr_bytes (ts_recs (co_trials co) ! 0) = [0x41, 0xC0, 0x0A]"
proof -
  have g: "snd (upto_marker [0x41, 0x0A] 1)" by (simp add: upto_marker_def)
  have "length (c_trials small_camp) = length [small_board [0x41, 0xC0, 0x0A]]" by (simp add: small_camp_def)
  from board_runs_recorded [OF refl this g, of "[]" "small_board []" "[]" True "[]" None]
  show ?thesis by (auto simp: small_board_def Let_def)
qed

text \<open>C16: Whatever the reader does between its looks, listen prints every run exactly once, in order
  and with the data it has in the end: closed runs as they close, the rest at the end.\<close>

theorem listen_prints_every_run_once:
  assumes "stream_reachable (st, looks @ [final])"
  shows "fst (listen_cmd looks final) @ snd (listen_cmd looks final) = final"
proof -
  have "\<forall>runs \<in> set looks. runs_le runs final"
    using stream_reachable_snaps [OF assms] by (auto simp: snaps_inv_def sorted_wrt_append)
  from listen_rounds_eq [OF this, of 0] show ?thesis
    by (auto simp: listen_cmd_def split: prod.splits)
qed

theorem listen_prints_every_run_once_witness:
  "fst (listen_cmd [[]] [sent_run (small_board [0x41])]) @ snd (listen_cmd [[]] [sent_run (small_board [0x41])]) =
     [sent_run (small_board [0x41])]"
proof -
  let ?st = "stream_feed (board_send (small_board [0x41])) stream_init"
  have i: "s_runs stream_init = []" by (simp add: stream_init_def)
  have r: "s_runs ?st = [sent_run (small_board [0x41])]"
    using stream_feed_sent [of "[small_board [0x41]]" stream_init] i by simp
  have "stream_reachable (?st, [[]] @ [[sent_run (small_board [0x41])]])"
    using reachable_snapshot [OF reachable_run [OF reachable_snapshot [OF stream_reachable.start]]]
    by (simp add: i stream_feed_run [symmetric]) (metis r stream_feed_run)
  then show ?thesis by (rule listen_prints_every_run_once)
qed

end
