(* ===== verification/Campaign_World.thy ===== *)
theory Campaign_World
  imports Campaign_Props
begin

text \<open>
  The campaign driver over the reader thread. The locale \<open>run_source\<close> is what the driver relies on: the
  runs it sees only grow. The reader provides it, however its bytes arrive between the driver's looks;
  so what was reported of a trial stays true, and what the board sends is what the campaign reports.
\<close>

lemma run_le_head:
  "run_le r r' \<Longrightarrow> r_flags_prev r' = r_flags_prev r" "run_le r r' \<Longrightarrow> r_cycles_prev r' = r_cycles_prev r"
  by (cases r; cases r'; simp add: run_le_def)+

section \<open>The contract between driver and reader\<close>

locale run_source =
  fixes view :: "nat \<Rightarrow> run list"
  assumes view_grows: "runs_le (view k) (view (Suc k))"
begin

lemma view_mono: "i \<le> j \<Longrightarrow> runs_le (view i) (view j)"
proof (induction j)
  case (Suc j)
  then show ?case using view_grows [of j] runs_le_trans by (cases "i = Suc j") auto
qed simp

lemma view_length: "i \<le> j \<Longrightarrow> length (view i) \<le> length (view j)"
  using view_mono [of i j] by (simp add: runs_le_def)

text \<open>A run with a record after it never changes; the head of a run never changes.\<close>

lemma closed_stays: "i \<le> j \<Longrightarrow> Suc n < length (view i) \<Longrightarrow> view j ! n = view i ! n"
  using view_mono [of i j] by (simp add: runs_le_def)

lemma head_stays:
  assumes "i \<le> j" and "n < length (view i)"
  shows "r_flags_prev (view j ! n) = r_flags_prev (view i ! n)" "r_cycles_prev (view j ! n) = r_cycles_prev (view i ! n)"
proof -
  have "run_le (view i ! n) (view j ! n)" using view_mono [OF assms(1)] assms(2) by (simp add: runs_le_def)
  then show "r_flags_prev (view j ! n) = r_flags_prev (view i ! n)" "r_cycles_prev (view j ! n) = r_cycles_prev (view i ! n)"
    by (simp_all add: run_le_head)
qed

text \<open>So a trial whose two records are there is reported as it always will be.\<close>

lemma step_stays:
  assumes "i \<le> j" and "before + n - 1 + 1 < length (view i)"
  shows "trial_step c (view j) before golden n_end crash vcs st n = trial_step c (view i) before golden n_end crash vcs st n"
proof -
  have "view j ! (before + n - 1) = view i ! (before + n - 1)" using assms by (intro closed_stays) simp_all
  moreover note head_stays [OF assms]
  ultimately show ?thesis by (simp add: trial_step_def trial_class_def Let_def)
qed

lemma step_extends: "trial_step c runs before golden n_end crash vcs st n = Inr st' \<Longrightarrow> prefix (ts_recs st) (ts_recs st')"
  by (auto simp: trial_step_def Let_def ebind_eq_Inr)

lemma loop_extends:
  "trial_loop c runs before golden n_end crash vcs st ns = Inr st' \<Longrightarrow> prefix (ts_recs st) (ts_recs st')"
proof (induction ns arbitrary: st)
  case (Cons n ns)
  then show ?case using step_extends by (fastforce simp: ebind_eq_Inr split: if_splits intro: prefix_order.trans)
qed simp

lemma loop_stays:
  assumes "i \<le> j"
  shows "trial_loop c (view i) before golden n_end crash vcs st ns = Inr s1 \<Longrightarrow>
    trial_loop c (view j) before golden n_end crash vcs st ns = Inr s2 \<Longrightarrow> prefix (ts_recs s1) (ts_recs s2)"
proof (induction ns arbitrary: st)
  case (Cons n ns)
  show ?case
  proof (cases "before + n - 1 + 1 < length (view i)")
    case True
    then have "before + n - 1 + 1 < length (view j)" using view_length [OF assms] by simp
    with True Cons.prems step_stays [OF assms True] obtain st1 where
      "trial_step c (view i) before golden n_end crash vcs st n = Inr st1"
      "trial_loop c (view i) before golden n_end crash vcs st1 ns = Inr s1"
      "trial_loop c (view j) before golden n_end crash vcs st1 ns = Inr s2"
      by (auto simp: ebind_eq_Inr)
    with Cons.IH show ?thesis by blast
  next
    case False
    with Cons.prems(1) have "s1 = st" by simp
    with loop_extends [OF Cons.prems(2)] show ?thesis by simp
  qed
qed simp

lemma results_stay:
  assumes "i \<le> j" and "campaign_results c (view i) before a golden n_end crash vcs = Inr co"
    and "campaign_results c (view j) before a' golden n_end crash vcs = Inr co'"
  shows "prefix (ts_recs (co_trials co)) (ts_recs (co_trials co'))"
proof -
  from assms(2) obtain s1 where s1: "trial_loop c (view i) before golden n_end crash vcs no_trials
      [1..<Suc (length (c_trials c))] = Inr s1" "co_trials co = s1" by (auto simp: campaign_results_def Let_def ebind_eq_Inr)
  from assms(3) obtain s2 where s2: "trial_loop c (view j) before golden n_end crash vcs no_trials
      [1..<Suc (length (c_trials c))] = Inr s2" "co_trials co' = s2" by (auto simp: campaign_results_def Let_def ebind_eq_Inr)
  from loop_stays [OF assms(1) s1(1) s2(1)] show ?thesis unfolding s1(2) s2(2) .
qed

end

section \<open>The reader provides it\<close>

text \<open>\<open>arrive k\<close> of the timed bytes \<open>tbs\<close> come between the looks \<open>k\<close> and \<open>k + 1\<close>.\<close>

definition arrived :: "(nat \<Rightarrow> nat) \<Rightarrow> nat \<Rightarrow> nat" where
  "arrived arrive k = sum_list (map arrive [0..<k])"

definition reader_view :: "tbyte list \<Rightarrow> (nat \<Rightarrow> nat) \<Rightarrow> nat \<Rightarrow> run list" where
  "reader_view tbs arrive k = stream_snapshot (stream_run stream_init (take (arrived arrive k) tbs))"

definition reader_world :: "(nat \<Rightarrow> real) \<Rightarrow> tbyte list \<Rightarrow> (nat \<Rightarrow> nat) \<Rightarrow> world" where
  "reader_world clock tbs arrive k = (clock k, reader_view tbs arrive k)"

lemma runs_le_run: "runs_le (s_runs st) (s_runs (stream_run st tbs))"
proof (induction tbs arbitrary: st)
  case (Cons p tbs)
  then show ?case using runs_le_byte runs_le_trans by simp blast
qed simp

lemma take_run: "m \<le> n \<Longrightarrow> runs_le (s_runs (stream_run st (take m tbs))) (s_runs (stream_run st (take n tbs)))"
proof -
  assume "m \<le> n"
  then have "take n tbs = take m tbs @ take (n - m) (drop m tbs)" by (metis le_add_diff_inverse take_add)
  then show ?thesis using runs_le_run by (simp add: stream_run_simps(3))
qed

interpretation reader: run_source "reader_view tbs arrive" for tbs arrive
  by unfold_locales (simp add: reader_view_def stream_snapshot_def arrived_def take_run)

lemma reader_view_below: "runs_le (reader_view tbs arrive k) (s_runs (stream_run stream_init tbs))"
  using take_run [of "arrived arrive k" "arrived arrive k + length tbs" stream_init tbs]
  by (simp add: reader_view_def stream_snapshot_def)

section \<open>What the board sent, in the reader's list\<close>

lemma board_view:
  assumes "map fst tbs = concat (map board_send bs)"
  shows "map untimed (s_runs (stream_run stream_init tbs)) = map sent_run bs"
proof -
  have "map (\<lambda>p. (fst p, 0)) tbs = map (\<lambda>b. (b, 0 :: real)) (map fst tbs)" by simp
  moreover have "untimed_stream stream_init = stream_init" by (simp add: untimed_stream_def stream_init_def)
  ultimately have "untimed_stream (stream_run stream_init tbs) = stream_feed (concat (map board_send bs)) stream_init"
    by (simp only: untimed_stream_run stream_feed_run assms)
  then have "map untimed (s_runs (stream_run stream_init tbs)) = s_runs (stream_feed (concat (map board_send bs)) stream_init)"
    by (metis stream.select_convs(1-3) stream.surjective stream.update_convs(1-3) untimed_stream_def)
  then show ?thesis by (simp add: stream_feed_sent stream_init_def)
qed

lemma untimed_fields:
  assumes "untimed r = s"
  shows "r_trial r = r_trial s" "r_cycles_prev r = r_cycles_prev s" "r_flags_prev r = r_flags_prev s" "r_data r = r_data s"
  unfolding assms [symmetric] by (simp_all add: untimed_def)

lemma view_closed:
  assumes "runs_le view final" and "map untimed final = map sent_run bs" and "Suc n < length view"
  shows "untimed (view ! n) = sent_run (bs ! n)"
proof -
  have e: "final ! n = view ! n" and n: "n < length final" using assms(1,3) by (auto simp: runs_le_def)
  have "n < length bs" using n arg_cong [OF assms(2), of length] by simp
  with e n arg_cong [OF assms(2), of "\<lambda>xs. xs ! n"] show ?thesis by simp
qed

lemma view_head:
  assumes "runs_le view final" and "map untimed final = map sent_run bs" and "n < length view"
  shows "r_flags_prev (view ! n) = r_flags_prev (sent_run (bs ! n)) \<and> r_cycles_prev (view ! n) = r_cycles_prev (sent_run (bs ! n))"
proof -
  have le: "run_le (view ! n) (final ! n)" and n: "n < length final" using assms(1,3) by (auto simp: runs_le_def)
  have "n < length bs" using n arg_cong [OF assms(2), of length] by simp
  with n arg_cong [OF assms(2), of "\<lambda>xs. xs ! n"] have "untimed (final ! n) = sent_run (bs ! n)" by simp
  from untimed_fields(2,3) [OF this] run_le_head [OF le] show ?thesis by simp
qed

section \<open>What a complete campaign saw\<close>

lemma wait_complete:
  assumes "wait_loop w timeout t_armed goal k = Some (True, k')"
  shows "0 < k' \<and> goal \<le> length (runs_at w (k' - 1))"
proof -
  have "fst x \<longrightarrow> 0 < snd x \<and> goal \<le> length (runs_at w (snd x - 1))" if "wait_loop w timeout t_armed goal k = Some x" for x
    using that
  proof (induction rule: wait_loop.raw_induct [rotated, consumes 1, case_names step])
    case (step rec w timeout t_armed goal k x)
    then show ?case by (auto split: if_splits)
  qed
  from this [OF assms] show ?thesis by simp
qed

lemma bind_SomeE: "Option.bind m f = Some y \<Longrightarrow> (\<And>x. m = Some x \<Longrightarrow> f x = Some y \<Longrightarrow> P) \<Longrightarrow> P"
  by (auto simp: bind_eq_Some_conv)

lemma campaign_complete:
  assumes "run_campaign w timeout path c reply golden n_end crash vcs k = Some (Inr (co, k'))" and "co_complete co"
  shows "\<exists>j \<ge> 1. campaign_results c (runs_at w j) (co_before co) True golden n_end crash vcs = Inr co \<and>
    co_before co + length (c_trials c) + 1 \<le> length (runs_at w (j - 1))"
proof -
  from assms(1) obtain q where q: "(case q of Inl e \<Rightarrow> Some (Inl e)
       | Inr k1 \<Rightarrow>
           let before = length (runs_at w k1); t_armed = clock_at w (k1 + 2) in
           if has_error reply then Some (Inl (SysExit (path @ '': fi_campaign failed: '' @ reply)))
           else Option.bind (wait_loop w timeout t_armed (before + length (c_trials c) + 1) (k1 + 3)) (\<lambda>(done1, k2).
             Some (ebind (campaign_results c (runs_at w k2) before done1 golden n_end crash vcs) (\<lambda>co.
               Inr (co, k2 + 2))))) = Some (Inr (co, k'))"
    unfolding run_campaign_def by (elim bind_SomeE)
  then obtain k1 where q1: "q = Inr k1" by (cases q) simp_all
  have "\<not> has_error reply" using q by (auto simp: q1 Let_def)
  with q obtain x where x: "wait_loop w timeout (clock_at w (k1 + 2)) (length (runs_at w k1) + length (c_trials c) + 1) (k1 + 3) = Some x"
    and r: "(case x of (done1, k2) \<Rightarrow> Some (ebind (campaign_results c (runs_at w k2) (length (runs_at w k1)) done1 golden n_end crash vcs)
      (\<lambda>co. Inr (co, k2 + 2)))) = Some (Inr (co, k'))"
    by (simp only: q1 sum.case Let_def if_False) (elim bind_SomeE)
  obtain d k2 where dk: "x = (d, k2)" by (metis surj_pair)
  have c: "campaign_results c (runs_at w k2) (length (runs_at w k1)) d golden n_end crash vcs = Inr co"
    using r by (simp add: dk ebind_eq_Inr)
  have co: "co_before co = length (runs_at w k1)" "co_complete co = d"
    using c by (auto simp: campaign_results_def Let_def ebind_eq_Inr)
  with assms(2) have d: "d = True" by simp
  from wait_complete [OF x [unfolded dk d]] c show ?thesis
    by (intro exI [of _ k2]) (simp add: co(1) d)
qed

section \<open>Properties\<close>

text \<open>C13: What is reported of a trial is final: however the bytes come in, the results the driver
  computes at one look are the first of those it would compute at any later look.\<close>

theorem results_are_final:
  assumes "i \<le> j" and "campaign_results c (reader_view tbs arrive i) before a golden n_end crash vcs = Inr co"
    and "campaign_results c (reader_view tbs arrive j) before a' golden n_end crash vcs = Inr co'"
  shows "prefix (ts_recs (co_trials co)) (ts_recs (co_trials co'))"
  using assms by (rule reader.results_stay)

text \<open>Two runs; the first look sees nothing, the next the first run, and from the sixth on both are there.\<close>

definition two_runs :: "tbyte list" where
  "two_runs = map (\<lambda>b. (b, 0)) (concat (map board_send [small_board [0x41, 0x0A], small_board []]))"

definition some_arrive :: "nat \<Rightarrow> nat" where
  "some_arrive k = (if k = 5 then length two_runs else 0)"

lemma some_arrived: "arrived some_arrive k = (if k < 6 then 0 else length two_runs)"
  by (induction k) (auto simp: arrived_def some_arrive_def)

lemma two_runs_view:
  "reader_view two_runs some_arrive k = (if k < 6 then [] else map sent_run [small_board [0x41, 0x0A], small_board []])"
proof -
  have "s_runs (stream_run stream_init two_runs) = map sent_run [small_board [0x41, 0x0A], small_board []]"
    unfolding two_runs_def stream_feed_run [symmetric] stream_feed_sent by (simp add: stream_init_def)
  then show ?thesis
    by (simp add: reader_view_def some_arrived stream_snapshot_def stream_init_def)
qed

theorem results_are_final_witness:
  "\<exists>co co'. campaign_results small_camp (reader_view two_runs some_arrive 6) 0 False [0x41, 0x0A] 1 [] None = Inr co \<and>
    campaign_results small_camp (reader_view two_runs some_arrive 9) 0 True [0x41, 0x0A] 1 [] None = Inr co' \<and>
    prefix (ts_recs (co_trials co)) (ts_recs (co_trials co')) \<and> length (ts_recs (co_trials co)) = 1"
proof -
  have g: "snd (upto_marker [0x41, 0x0A] 1)" by (simp add: upto_marker_def)
  from campaign_recorded [OF g, of small_camp "reader_view two_runs some_arrive 6" 0 False "[]" None]
  obtain co where co: "campaign_results small_camp (reader_view two_runs some_arrive 6) 0 False [0x41, 0x0A] 1 [] None = Inr co"
    "length (ts_recs (co_trials co)) = 1" by (auto simp: trials_recorded_def two_runs_view small_camp_def)
  from campaign_recorded [OF g, of small_camp "reader_view two_runs some_arrive 9" 0 True "[]" None]
  obtain co' where co': "campaign_results small_camp (reader_view two_runs some_arrive 9) 0 True [0x41, 0x0A] 1 [] None = Inr co'"
    by blast
  show ?thesis using results_are_final [OF _ co(1) co'] co co' by auto
qed

text \<open>C12: Board to report, as the driver runs: when the board sends the runs before a campaign, its
  trials and what follows, split and timed in any way while the driver waits, a campaign whose
  records all came and that began after the old runs reports every trial once, in order, with
  the bytes that run printed, its length, LOST exactly when its own or the next record lost
  bytes, and else the class classify gives.\<close>

theorem campaign_end_to_end:
  assumes "map fst tbs = concat (map board_send (old @ trials @ after # later))"
    and "length (c_trials c) = length trials" and "snd (upto_marker golden n_end)"
    and "run_campaign (reader_world clock tbs arrive) timeout path c reply golden n_end crash vcs k = Some (Inr (co, k'))"
    and "co_complete co" and "co_before co = length old"
  shows "length (ts_recs (co_trials co)) = length trials \<and>
    (\<forall>i < length trials. let b = trials ! i; nx = (trials @ [after]) ! Suc i; rec = ts_recs (co_trials co) ! i in
       tr_trial rec = Suc i \<and> tr_bytes rec = b_bytes b \<and> tr_run rec = uint (b_trial b) \<and> tr_cycles rec = uint (b_cyc nx) \<and>
       (if b_lost b \<or> b_lost nx then tr_class rec = Lost
        else \<exists>v. classify (b_bytes b) golden (b_abort nx) n_end crash = Inr v \<and> tr_class rec = Class v))"
proof -
  from campaign_complete [OF assms(4,5)] obtain j where
    c: "campaign_results c (reader_view tbs arrive j) (length old) True golden n_end crash vcs = Inr co"
    and l: "length old + length trials + 1 \<le> length (reader_view tbs arrive (j - 1))"
    by (auto simp: assms(2,6) reader_world_def)
  define view where "view = reader_view tbs arrive j"
  define final where "final = s_runs (stream_run stream_init tbs)"
  have len: "length old + length trials + 1 \<le> length view"
    using l reader.view_length [of "j - 1" j tbs arrive] by (simp add: view_def)
  have le: "runs_le view final" unfolding view_def final_def by (rule reader_view_below)
  have sent: "map untimed final = map sent_run (old @ trials @ after # later)"
    using board_view [OF assms(1)] by (simp add: final_def)
  from campaign_recorded [OF assms(3), of c view "length old" True crash vcs] c
  have t: "trials_recorded c view (length old) golden n_end crash (length trials) (co_trials co)"
    using len by (simp add: view_def assms(2))
  have "let b = trials ! i; nx = (trials @ [after]) ! Suc i; rec = ts_recs (co_trials co) ! i in
       tr_trial rec = Suc i \<and> tr_bytes rec = b_bytes b \<and> tr_run rec = uint (b_trial b) \<and> tr_cycles rec = uint (b_cyc nx) \<and>
       (if b_lost b \<or> b_lost nx then tr_class rec = Lost
        else \<exists>v. classify (b_bytes b) golden (b_abort nx) n_end crash = Inr v \<and> tr_class rec = Class v)"
    if i: "i < length trials" for i
  proof -
    define b where "b = trials ! i"
    define nx where "nx = (trials @ [after]) ! Suc i"
    have "untimed (view ! (length old + i)) = sent_run b"
      using view_closed [OF le sent, of "length old + i"] i len by (simp add: b_def nth_append)
    note r = untimed_fields [OF this]
    have n: "r_flags_prev (view ! (length old + i + 1)) = r_flags_prev (sent_run nx)"
      "r_cycles_prev (view ! (length old + i + 1)) = r_cycles_prev (sent_run nx)"
      using view_head [OF le sent, of "length old + i + 1"] i len by (auto simp: nx_def nth_append)
    have "trial_recorded c view (length old) golden n_end crash i (ts_recs (co_trials co) ! i)"
      using t i by (simp add: trials_recorded_def)
    note k = this [unfolded trial_recorded_def Let_def r n sent_flags]
    show ?thesis unfolding Let_def b_def [symmetric] nx_def [symmetric]
      using k by (auto simp: sent_run_def split: if_splits)
  qed
  with t show ?thesis by (simp add: trials_recorded_def)
qed

lemma some_campaign:
  "\<exists>co k'. run_campaign (reader_world real two_runs some_arrive) 120 path small_camp ''ok'' [0x41, 0x0A] 1 [] None 0 =
     Some (Inr (co, k')) \<and> co_complete co \<and> co_before co = 0"
proof -
  have g: "snd (upto_marker [0x41, 0x0A] 1)" by (simp add: upto_marker_def)
  let ?w = "reader_world real two_runs some_arrive"
  have q: "quiet_loop ?w (quiet_time small_camp) (clock_at ?w (0 + 2)) path (length (runs_at ?w (0 + 1))) (clock_at ?w (0 + 2)) (0 + 3)
      = Some (Inr 4)"
    by (subst quiet_loop.simps) (simp add: reader_world_def quiet_time_def small_camp_def clk_hz_def)
  have w: "wait_loop ?w 120 (clock_at ?w (4 + 2)) (0 + length (c_trials small_camp) + 1) (4 + 3) = Some (True, 8)"
    by (subst wait_loop.simps) (simp add: reader_world_def two_runs_view small_camp_def)
  have b: "length (runs_at ?w 4) = 0" by (simp add: reader_world_def two_runs_view)
  have e: "\<not> has_error ''ok''" by (simp add: has_error_def lower_def sublist_code)
  obtain co where co: "campaign_results small_camp (runs_at ?w 8) 0 True [0x41, 0x0A] 1 [] None = Inr co"
    using campaign_recorded [OF g] by blast
  then have "co_complete co" "co_before co = 0" by (auto simp: campaign_results_def Let_def ebind_eq_Inr)
  moreover have "run_campaign ?w 120 path small_camp ''ok'' [0x41, 0x0A] 1 [] None 0 = Some (Inr (co, 8 + 2))"
    unfolding run_campaign_def q by (simp only: bind.simps sum.case b Let_def e if_False w prod.case co ebind_def)
  ultimately show ?thesis by blast
qed

theorem campaign_end_to_end_witness:
  "\<exists>co k'. run_campaign (reader_world real two_runs some_arrive) 120 ''c.json'' small_camp ''ok'' [0x41, 0x0A] 1 [] None 0 =
     Some (Inr (co, k')) \<and> tr_bytes (ts_recs (co_trials co) ! 0) = [0x41, 0x0A] \<and> tr_cycles (ts_recs (co_trials co) ! 0) = 7"
proof -
  have g: "snd (upto_marker [0x41, 0x0A] 1)" by (simp add: upto_marker_def)
  from some_campaign [of "''c.json''"] obtain co k' where
    r: "run_campaign (reader_world real two_runs some_arrive) 120 ''c.json'' small_camp ''ok'' [0x41, 0x0A] 1 [] None 0 = Some (Inr (co, k'))"
    and c: "co_complete co" and b: "co_before co = length ([] :: board_run list)" by (metis list.size(3))
  have s: "map fst two_runs = concat (map board_send ([] @ [small_board [0x41, 0x0A]] @ small_board [] # []))"
    by (simp add: two_runs_def comp_def)
  have "length (c_trials small_camp) = length [small_board [0x41, 0x0A]]" by (simp add: small_camp_def)
  from campaign_end_to_end [OF s this g r c b] r show ?thesis by (auto simp: Let_def small_board_def)
qed

end
