(* ===== verification/Py_Utf8.thy ===== *)
theory Py_Utf8
  imports Py_Text
begin

text \<open>
  UTF-8 as Python's \<open>str.encode\<close> and \<open>bytes.decode(errors="ignore")\<close> have it; a character is its code
  point. What is encoded is read back.
\<close>

section \<open>UTF-8\<close>

text \<open>How many continuation bytes a first byte asks for; None for a byte that cannot be the first.\<close>

definition utf8_more :: "byte \<Rightarrow> nat option" where
  "utf8_more x =
     (if x < 0x80 then Some 0
      else if 0xC2 \<le> x \<and> x \<le> 0xDF then Some 1
      else if 0xE0 \<le> x \<and> x \<le> 0xEF then Some 2
      else if 0xF0 \<le> x \<and> x \<le> 0xF4 then Some 3
      else None)"

definition utf8_cont :: "byte \<Rightarrow> bool" where
  "utf8_cont y \<longleftrightarrow> 0x80 \<le> y \<and> y \<le> 0xBF"

text \<open>The second byte: no overlong forms, no surrogates, nothing above 10FFFF.\<close>

definition utf8_second :: "byte \<Rightarrow> byte \<Rightarrow> bool" where
  "utf8_second x y \<longleftrightarrow> utf8_cont y \<and> (x = 0xE0 \<longrightarrow> 0xA0 \<le> y) \<and> (x = 0xED \<longrightarrow> y \<le> 0x9F) \<and>
     (x = 0xF0 \<longrightarrow> 0x90 \<le> y) \<and> (x = 0xF4 \<longrightarrow> y \<le> 0x8F)"

text \<open>How many of the \<open>n\<close> continuation bytes of \<open>x\<close> are there.\<close>

definition utf8_run :: "byte \<Rightarrow> nat \<Rightarrow> byte list \<Rightarrow> nat" where
  "utf8_run x n ys =
     (case ys of
        [] \<Rightarrow> 0
      | y # ys' \<Rightarrow> if n = 0 \<or> \<not> utf8_second x y then 0 else Suc (length (takeWhile utf8_cont (take (n - 1) ys'))))"

definition utf8_value :: "byte \<Rightarrow> byte list \<Rightarrow> nat" where
  "utf8_value x ys =
     foldl (\<lambda>v y. v * 64 + unat y mod 64) (if ys = [] then unat x else unat x mod 2 ^ (6 - length ys)) ys"

text \<open>
  \<open>decode(errors="ignore")\<close>, as code points: a first byte with too few continuation bytes is dropped
  with those it has, and so is a byte that cannot be the first.
\<close>

function utf8_ignore :: "byte list \<Rightarrow> nat list" where
  "utf8_ignore [] = []"
| "utf8_ignore (x # xs) =
     (case utf8_more x of
        None \<Rightarrow> utf8_ignore xs
      | Some n \<Rightarrow>
          let k = utf8_run x n xs in
          if k = n then utf8_value x (take n xs) # utf8_ignore (drop n xs) else utf8_ignore (drop k xs))"
  by pat_completeness auto
termination
  by (relation "measure length") auto

text \<open>The code points that have an encoding, and the encoding.\<close>

definition scalar :: "nat \<Rightarrow> bool" where
  "scalar c \<longleftrightarrow> c < 0xD800 \<or> 0xE000 \<le> c \<and> c < 0x110000"

definition cont_byte :: "nat \<Rightarrow> byte" where
  "cont_byte v = of_nat (0x80 + v mod 64)"

definition utf8_encode :: "nat \<Rightarrow> byte list" where
  "utf8_encode c =
     (if c < 0x80 then [of_nat c]
      else if c < 0x800 then [of_nat (0xC0 + c div 64), cont_byte c]
      else if c < 0x10000 then [of_nat (0xE0 + c div 4096), cont_byte (c div 64), cont_byte c]
      else [of_nat (0xF0 + c div 262144), cont_byte (c div 4096), cont_byte (c div 64), cont_byte c])"

definition str_encode :: "string \<Rightarrow> byte list" where
  "str_encode s = concat (map (utf8_encode \<circ> ord) s)"

section \<open>UTF-8 is read back\<close>

lemma unat_byte: "n < 256 \<Longrightarrow> unat (of_nat n :: byte) = n"
  by (simp add: unat_of_nat take_bit_eq_mod)

lemma unat_cont: "unat (cont_byte v) = 0x80 + v mod 64"
proof -
  have "v mod 64 < 64" by simp
  then show ?thesis unfolding cont_byte_def by (intro unat_byte) simp
qed

lemma utf8_cont_byte [simp]: "utf8_cont (cont_byte v)"
proof -
  have "v mod 64 < 64" by simp
  then show ?thesis by (simp add: utf8_cont_def word_le_nat_alt unat_cont)
qed

lemma utf8_run_all:
  assumes "utf8_second x y" and "list_all utf8_cont ys"
  shows "utf8_run x (Suc (length ys)) (y # ys @ zs) = Suc (length ys)"
proof -
  have "takeWhile utf8_cont ys = ys" using assms(2) by (simp add: list_all_iff takeWhile_eq_all_conv)
  from arg_cong [OF this, of length] show ?thesis using assms(1) by (simp add: utf8_run_def del: takeWhile_eq_all_conv)
qed

lemma utf8_ignore_multi:
  assumes "utf8_more x = Some (Suc (length ys))" and "utf8_second x y" and "list_all utf8_cont ys"
  shows "utf8_ignore (x # y # ys @ zs) = utf8_value x (y # ys) # utf8_ignore zs"
  using assms utf8_run_all [OF assms(2,3), of zs] by simp

lemma utf8_more_nat: "utf8_more x =
    (if unat x < 128 then Some 0 else if 194 \<le> unat x \<and> unat x \<le> 223 then Some 1
     else if 224 \<le> unat x \<and> unat x \<le> 239 then Some 2 else if 240 \<le> unat x \<and> unat x \<le> 244 then Some 3 else None)"
  by (simp add: utf8_more_def word_less_nat_alt word_le_nat_alt)

lemma utf8_second_nat: "utf8_second x (cont_byte v) \<longleftrightarrow>
    (unat x = 224 \<longrightarrow> 32 \<le> v mod 64) \<and> (unat x = 237 \<longrightarrow> v mod 64 \<le> 31) \<and>
    (unat x = 240 \<longrightarrow> 16 \<le> v mod 64) \<and> (unat x = 244 \<longrightarrow> v mod 64 \<le> 15)"
  by (simp add: utf8_second_def word_le_nat_alt word_unat_eq_iff unat_cont)

lemma mod_low: "q < m \<Longrightarrow> (k * m + q) mod m = (q :: nat)"
  by simp

lemma utf8_value_cont: "utf8_value x (cont_byte v # map cont_byte vs) =
    foldl (\<lambda>a v. a * 64 + v mod 64) (unat x mod 2 ^ (5 - length vs)) (v # vs)"
proof -
  have "(128 + v mod 64) mod 64 = v mod 64" for v :: nat using mod_low [of "v mod 64" 64 2] by simp
  then have "foldl (\<lambda>a y. a * 64 + unat y mod 64) a (map cont_byte vs) = foldl (\<lambda>a v. a * 64 + v mod 64) a vs" for a vs
    by (induction vs arbitrary: a) (simp_all add: unat_cont)
  from this [of _ "v # vs"] show ?thesis by (simp add: utf8_value_def)
qed

lemma base64: "(c div 64) * 64 + c mod 64 = (c :: nat)" "c div 4096 * 64 + c div 64 mod 64 = c div 64"
  "c div 262144 * 64 + c div 4096 mod 64 = c div 4096"
proof -
  have "c div 4096 = c div 64 div 64" "c div 262144 = c div 4096 div 64" by (simp_all add: div_mult2_eq [symmetric])
  then show "(c div 64) * 64 + c mod 64 = c" "c div 4096 * 64 + c div 64 mod 64 = c div 64"
    "c div 262144 * 64 + c div 4096 mod 64 = c div 4096" by simp_all
qed

lemma utf8_ignore_encode:
  assumes "scalar c"
  shows "utf8_ignore (utf8_encode c @ zs) = c # utf8_ignore zs"
proof -
  have multi: "utf8_ignore (x # cont_byte v # map cont_byte vs @ zs) =
      foldl (\<lambda>a v. a * 64 + v mod 64) (unat x mod 2 ^ (5 - length vs)) (v # vs) # utf8_ignore zs"
    if "utf8_more x = Some (Suc (length vs))" "utf8_second x (cont_byte v)" for x v vs
    using utf8_ignore_multi [of x "map cont_byte vs" "cont_byte v" zs] that
    by (simp add: utf8_value_cont list_all_iff)
  consider "c < 0x80" | "0x80 \<le> c" "c < 0x800" | "0x800 \<le> c" "c < 0x10000" | "0x10000 \<le> c" "c < 0x110000"
    using assms unfolding scalar_def by linarith
  then show ?thesis
  proof cases
    case 1
    then have u: "unat (of_nat c :: byte) = c" by (intro unat_byte) simp
    then have "utf8_more (of_nat c) = Some 0" using 1 by (simp add: utf8_more_nat)
    with 1 u show ?thesis by (simp add: utf8_encode_def utf8_run_def utf8_value_def split: list.split)
  next
    case 2
    let ?x = "of_nat (0xC0 + c div 64) :: byte"
    have d: "c div 64 < 32" "2 \<le> c div 64" using 2 by auto
    then have u: "unat ?x = 192 + c div 64" by (intro unat_byte) simp
    have "utf8_more ?x = Some (Suc (length ([] :: nat list)))" "utf8_second ?x (cont_byte c)"
      using d unfolding utf8_more_nat utf8_second_nat u by simp_all
    moreover have "(192 + c div 64) mod 2 ^ 5 = c div 64" using mod_low [of "c div 64" 32 6] d by simp
    ultimately show ?thesis
      using 2 multi [of ?x "[]" c] base64(1) [of c] unfolding u by (simp add: utf8_encode_def)
  next
    case 3
    let ?x = "of_nat (0xE0 + c div 4096) :: byte"
    have d: "c div 4096 < 16" using 3 by auto
    then have u: "unat ?x = 224 + c div 4096" by (intro unat_byte) simp
    have "32 \<le> c div 64" using 3 by auto
    then have "c div 4096 = 0 \<longrightarrow> 32 \<le> c div 64 mod 64" using base64(2) [of c] by auto
    moreover have "c div 64 < 864 \<or> 14 \<le> c div 4096"
      using assms unfolding scalar_def by (auto simp: div_less_iff_less_mult less_eq_div_iff_mult_less_eq)
    then have "c div 4096 = 13 \<longrightarrow> c div 64 mod 64 \<le> 31" using base64(2) [of c] by auto
    ultimately have "utf8_more ?x = Some (Suc (length [c]))" "utf8_second ?x (cont_byte (c div 64))"
      using d unfolding utf8_more_nat utf8_second_nat u by simp_all
    moreover have "(224 + c div 4096) mod 2 ^ 4 = c div 4096" using mod_low [of "c div 4096" 16 14] d by simp
    ultimately show ?thesis
      using 3 multi [of ?x "[c]" "c div 64"] base64 [of c] unfolding u by (simp add: utf8_encode_def)
  next
    case 4
    let ?x = "of_nat (0xF0 + c div 262144) :: byte"
    have d: "c div 262144 \<le> 4" using 4 by auto
    then have u: "unat ?x = 240 + c div 262144" by (intro unat_byte) simp
    have "16 \<le> c div 4096" "c div 4096 < 272" using 4 by auto
    then have "c div 262144 = 0 \<longrightarrow> 16 \<le> c div 4096 mod 64" "c div 262144 = 4 \<longrightarrow> c div 4096 mod 64 \<le> 15"
      using base64(3) [of c] by auto
    then have "utf8_more ?x = Some (Suc (length [c div 64, c]))" "utf8_second ?x (cont_byte (c div 4096))"
      using d unfolding utf8_more_nat utf8_second_nat u by simp_all
    moreover have "(240 + c div 262144) mod 2 ^ 3 = c div 262144" using mod_low [of "c div 262144" 8 30] d by simp
    ultimately show ?thesis
      using 4 multi [of ?x "[c div 64, c]" "c div 4096"] base64 [of c] unfolding u by (simp add: utf8_encode_def)
  qed
qed

lemma utf8_ignore_text: "list_all scalar cs \<Longrightarrow> utf8_ignore (concat (map utf8_encode cs)) = cs"
  by (induction cs) (simp_all add: utf8_ignore_encode del: utf8_ignore.simps(2))

lemma str_encode_ascii: "list_all (\<lambda>c. ord c < 0x80) s \<Longrightarrow> str_encode s = map (of_nat \<circ> ord) s"
  by (induction s) (simp_all add: str_encode_def utf8_encode_def)

end
