(* ===== verification/Openocd.thy ===== *)
theory Openocd
  imports Campaign Py_Utf8
begin

text \<open>
  The class \<open>OpenOCD\<close> of \<open>fpga/host/board_campaign.py\<close>, the driver's client of OpenOCD's Tcl port: the
  command line, the two waits of \<open>__init__\<close>, \<open>rpc\<close>, \<open>profile\<close> and \<open>close\<close>. What the process and the
  socket do is an argument: the events of \<open>recv\<close>, in order, and what each look at the process, each
  attempt to connect and each look at the clock gives. Then the parts of \<open>main\<close> that rest on it.
\<close>

section \<open>rpc\<close>

definition eot :: byte where
  "eot = 0x1A"

text \<open>What \<open>recv\<close> gives: bytes, none when the peer closed the connection, or its timeout.\<close>

datatype recv = Chunk "byte list" | RecvTimeout

definition ends_eot :: "byte list \<Rightarrow> bool" where
  "ends_eot buf \<longleftrightarrow> buf \<noteq> [] \<and> last buf = eot"

text \<open>The loop over \<open>recv\<close>; None when the events are at their end and it still waits.\<close>

fun rpc_loop :: "byte list \<Rightarrow> recv list \<Rightarrow> (byte list res \<times> recv list) option" where
  "rpc_loop buf evs =
     (if ends_eot buf then Some (Inr buf, evs)
      else case evs of
          [] \<Rightarrow> None
        | RecvTimeout # evs' \<Rightarrow> Some (Inl TimeoutError, evs')
        | Chunk c # evs' \<Rightarrow>
            if c = [] then Some (Inl (RuntimeError ''OpenOCD closed the Tcl connection''), evs')
            else rpc_loop (buf @ c) evs')"

declare rpc_loop.simps [simp del]

text \<open>The bytes that are sent, and the reply's code points.\<close>

definition rpc_request :: "string \<Rightarrow> byte list" where
  "rpc_request cmd = str_encode cmd @ [eot]"

definition rpc :: "recv list \<Rightarrow> (nat list res \<times> recv list) option" where
  "rpc evs = map_option (\<lambda>(r, evs'). (ebind r (\<lambda>buf. Inr (utf8_ignore (butlast buf))), evs')) (rpc_loop [] evs)"

text \<open>
  \<open>"error" in r.lower()\<close>, on code points: no character outside ASCII has one of the letters of the word
  in its lower case.
\<close>

definition lower_code :: "nat \<Rightarrow> nat" where
  "lower_code c = (if 65 \<le> c \<and> c \<le> 90 then c + 32 else c)"

definition reply_error :: "nat list \<Rightarrow> bool" where
  "reply_error r \<longleftrightarrow> sublist (map ord ''error'') (map lower_code r)"

lemma prefix_map_inj: "inj f \<Longrightarrow> prefix (map f xs) (map f ys) \<longleftrightarrow> prefix xs ys"
proof (induction xs arbitrary: ys)
  case (Cons x xs)
  then show ?case by (cases ys) (auto dest: injD)
qed simp

lemma sublist_map_inj:
  assumes "inj f"
  shows "sublist (map f xs) (map f ys) \<longleftrightarrow> sublist xs ys"
proof (induction ys)
  case (Cons y ys)
  have "prefix (map f xs) (f y # map f ys) \<longleftrightarrow> prefix xs (y # ys)"
    using prefix_map_inj [OF assms, of xs "y # ys"] by simp
  with Cons.IH show ?case by (simp add: sublist_Cons_right)
qed simp

text \<open>The driver's test on the text of a reply is this one.\<close>

lemma reply_error_text: "reply_error (map ord s) = has_error s"
proof -
  have "map lower_code (map ord s) = map ord (map lower s)"
    by (induction s) (auto simp: lower_code_def lower_def)
  moreover have "sublist (map ord xs) (map ord ys) = sublist xs ys" for xs ys
    by (rule sublist_map_inj) (simp add: inj_def ord_def)
  ultimately show ?thesis by (simp only: reply_error_def has_error_def)
qed

section \<open>Starting and stopping the process\<close>

record ocd_args =
  oa_openocd :: string
  oa_host :: string
  oa_channel :: int
  oa_cputapid :: string
  oa_khz :: int
  oa_port :: int
  oa_cfg :: string

definition ocd_pre :: "ocd_args \<Rightarrow> string list" where
  "ocd_pre a = [''-c'', ''set FIAWASE_HOST {'' @ oa_host a @ ''}'',
     ''-c'', ''set FI_FTDI_CHANNEL '' @ show_int (oa_channel a), ''-c'', ''set CPUTAPID '' @ oa_cputapid a,
     ''-c'', ''set FI_ADAPTER_KHZ '' @ show_int (oa_khz a)]"

definition ocd_argv :: "ocd_args \<Rightarrow> string list" where
  "ocd_argv a = [oa_openocd a, ''-c'', ''gdb_port disabled'', ''-c'', ''telnet_port disabled'',
     ''-c'', ''tcl_port '' @ show_int (oa_port a)] @ ocd_pre a @ [''-f'', oa_cfg a]"

text \<open>
  What the waits of \<open>__init__\<close> see at their \<open>k\<close>-th round: the exit code of the process when it is gone,
  whether the connection is accepted, the time, and the reply of \<open>rpc("info procs fi_campaign")\<close>.
\<close>

record ocd_world =
  ow_poll :: "nat \<Rightarrow> int option"
  ow_accept :: "nat \<Rightarrow> bool"
  ow_time :: "nat \<Rightarrow> real"
  ow_procs :: "nat \<Rightarrow> nat list res"

definition exited :: "int \<Rightarrow> string \<Rightarrow> pyerr" where
  "exited code logf = SysExit (''OpenOCD exited ('' @ show_int code @ ''); see '' @ logf)"

definition never_opened :: "string \<Rightarrow> pyerr" where
  "never_opened logf = SysExit (''OpenOCD'' @ CHR 0x27 # ''s Tcl port never opened; see '' @ logf)"

partial_function (option) connect_loop :: "ocd_world \<Rightarrow> string \<Rightarrow> real \<Rightarrow> nat \<Rightarrow> nat res option" where
  "connect_loop w logf t0 k =
     (case ow_poll w k of
        Some code \<Rightarrow> Some (Inl (exited code logf))
      | None \<Rightarrow>
          if ow_accept w k then Some (Inr k)
          else if ow_time w k - t0 > 30 then Some (Inl (never_opened logf))
          else connect_loop w logf t0 (k + 1))"

partial_function (option) procs_loop :: "ocd_world \<Rightarrow> string \<Rightarrow> nat \<Rightarrow> nat res option" where
  "procs_loop w logf k =
     (case ow_procs w k of
        Inl e \<Rightarrow> Some (Inl e)
      | Inr r \<Rightarrow>
          if sublist (map ord ''fi_campaign'') r then Some (Inr k)
          else case ow_poll w k of
              Some code \<Rightarrow> Some (Inl (exited code logf))
            | None \<Rightarrow> procs_loop w logf (k + 1))"

text \<open>\<open>__init__\<close>, from the look \<open>k\<close> on; the procs are asked for after the connection.\<close>

definition ocd_start :: "ocd_world \<Rightarrow> string \<Rightarrow> nat \<Rightarrow> nat res option" where
  "ocd_start w logf k =
     Option.bind (connect_loop w logf (ow_time w k) (k + 1)) (\<lambda>c.
       case c of Inl e \<Rightarrow> Some (Inl e) | Inr k1 \<Rightarrow> procs_loop w logf (k1 + 1))"

datatype proc_action = Terminate | Await | Kill | CloseLog

definition ocd_close :: "int option \<Rightarrow> bool \<Rightarrow> proc_action list" where
  "ocd_close poll waited =
     (case poll of None \<Rightarrow> [Terminate, Await] @ (if waited then [] else [Kill]) | Some code \<Rightarrow> []) @ [CloseLog]"

section \<open>profile\<close>

text \<open>\<open>{v[i]: int(v[i + 1]) for i in range(0, len(v) - 1, 2)}\<close>.\<close>

fun profile_pairs :: "string list \<Rightarrow> (string \<times> int) list \<Rightarrow> (string \<times> int) list res" where
  "profile_pairs (a # b # v) d = ebind (py_int b 10) (\<lambda>n. profile_pairs v (dict_set a n d))"
| "profile_pairs v d = Inr d"

definition profile :: "string \<Rightarrow> (string \<times> int) list res" where
  "profile r = profile_pairs (py_split r) []"

text \<open>What main reports of a campaign with \<open>--profile\<close>.\<close>

record prof_step =
  ps_campaign :: string
  ps_trials :: nat
  ps_entries :: nat
  ps_pause :: real
  ps_load :: real
  ps_last :: "real option"
  ps_done :: real
  ps_onchip :: real
  ps_steps :: "(string \<times> int) list"

definition prof_entries :: "camp \<Rightarrow> nat" where
  "prof_entries c = sum_list (map (\<lambda>(cyc, fs). length (remdups fs)) (c_trials c))"

definition profile_step :: "string \<Rightarrow> camp \<Rightarrow> run list \<Rightarrow> nat \<Rightarrow> real \<Rightarrow> real \<Rightarrow> real \<Rightarrow> real \<Rightarrow> (string \<times> int) list \<Rightarrow>
    prof_step" where
  "profile_step path c runs before t_pause t_load t_armed t_done prof =
     (let n = length (c_trials c);
          t_last = (if before + n < length runs then Some (r_t (runs ! (before + n))) else None) in
      \<lparr>ps_campaign = path, ps_trials = n, ps_entries = prof_entries c, ps_pause = t_load - t_pause, ps_load = t_armed - t_load,
       ps_last = (case t_last of None \<Rightarrow> None | Some t \<Rightarrow> if t = 0 then None else Some (t - t_armed)),
       ps_done = t_done - t_armed, ps_onchip = of_int (run_cycles runs before n) / clk_hz,
       ps_steps = map (\<lambda>(k, v). (k @ ''_us'', v)) prof\<rparr>)"

section \<open>The UART\<close>

text \<open>The port of \<open>--uart\<close>, or the one entry that \<open>glob\<close> finds.\<close>

definition uart_of :: "string option \<Rightarrow> string list \<Rightarrow> string res" where
  "uart_of arg ports =
     (if arg = None \<or> arg = Some []
      then (case ports of
              [p] \<Rightarrow> Inr p
            | _ \<Rightarrow> Inl (SysExit (''--uart is needed (FT232R ports found: '' @ repr_list ports @ '')'')))
      else Inr (the arg))"

section \<open>Chunks\<close>

text \<open>Only the character 1A is encoded with the byte 1A.\<close>

lemma eot_encoded: "scalar c \<Longrightarrow> eot \<in> set (utf8_encode c) \<Longrightarrow> c = 0x1A"
proof -
  have e: "unat eot = 26" by (simp add: eot_def)
  have cont: "eot \<noteq> cont_byte v" for v using e unat_cont [of v] by force
  have low: "eot = (of_nat n :: byte) \<longleftrightarrow> n = 26" if "n < 256" for n
    using e unat_byte [OF that] by (auto simp: word_unat_eq_iff)
  assume "scalar c" "eot \<in> set (utf8_encode c)"
  then show "c = 0x1A"
    using cont low [of c] low [of "192 + c div 64"] low [of "224 + c div 4096"] low [of "240 + c div 262144"]
    by (auto simp: utf8_encode_def scalar_def split: if_splits)
qed

lemma rpc_loop_chunks:
  assumes "concat cs = r @ [eot]" and "[] \<notin> set cs" and "eot \<notin> set (buf @ r)"
  shows "rpc_loop buf (map Chunk cs @ later) = Some (Inr (buf @ r @ [eot]), later)"
  using assms
proof (induction cs arbitrary: buf r)
  case (Cons c cs)
  have "\<not> ends_eot buf"
  proof
    assume "ends_eot buf"
    then have "eot \<in> set buf" unfolding ends_eot_def by (metis last_in_set)
    with Cons.prems(3) show False by simp
  qed
  moreover have "c \<noteq> []" using Cons.prems(2) by auto
  ultimately have step: "rpc_loop buf (map Chunk (c # cs) @ later) = rpc_loop (buf @ c) (map Chunk cs @ later)"
    by (subst rpc_loop.simps) simp
  from Cons.prems(1) have c: "c @ concat cs = r @ [eot]" by simp
  show ?case
  proof (cases "cs = []")
    case True
    have "ends_eot (buf @ c)" using c True by (simp add: ends_eot_def)
    then show ?thesis unfolding step using c True by (subst rpc_loop.simps) simp
  next
    case False
    then have "concat cs \<noteq> []" using Cons.prems(2) by (cases cs) auto
    then obtain r' where r': "concat cs = r' @ [eot]" "r = c @ r'"
      using c by (cases "concat cs" rule: rev_cases) (auto simp: append_assoc [symmetric] simp del: append_assoc)
    have "rpc_loop (buf @ c) (map Chunk cs @ later) = Some (Inr ((buf @ c) @ r' @ [eot]), later)"
      using Cons.prems r' by (intro Cons.IH) auto
    then show ?thesis unfolding step by (simp add: r')
  qed
qed simp

section \<open>The waits of the start\<close>

definition clock_goes_on :: "ocd_world \<Rightarrow> bool" where
  "clock_goes_on w \<longleftrightarrow> (\<forall>b. \<exists>k. \<forall>j \<ge> k. b < ow_time w j)"

lemma connect_ends:
  assumes "clock_goes_on w"
  shows "\<exists>x. connect_loop w logf t0 k = Some x"
proof -
  from assms obtain K where K: "\<forall>j \<ge> K. t0 + 30 < ow_time w j" unfolding clock_goes_on_def by blast
  show ?thesis
  proof (induction "K - k" arbitrary: k rule: less_induct)
    case less
    show ?case
    proof (cases "ow_poll w k = None \<and> \<not> ow_accept w k \<and> \<not> ow_time w k - t0 > 30")
      case False
      then show ?thesis by (subst connect_loop.simps) (auto split: option.split)
    next
      case True
      then have "k < K" using spec [OF K, of k] by (cases "K \<le> k") auto
      then have "K - (k + 1) < K - k" by simp
      from less.hyps [OF this] True show ?thesis by (subst connect_loop.simps) simp
    qed
  qed
qed

text \<open>What a round that is not the last saw.\<close>

abbreviation not_yet :: "ocd_world \<Rightarrow> real \<Rightarrow> nat \<Rightarrow> bool" where
  "not_yet w t0 j \<equiv> ow_poll w j = None \<and> \<not> ow_accept w j \<and> ow_time w j \<le> t0 + 30"

definition connected_at :: "ocd_world \<Rightarrow> string \<Rightarrow> real \<Rightarrow> nat \<Rightarrow> nat res \<Rightarrow> bool" where
  "connected_at w logf t0 k x \<longleftrightarrow> (\<exists>n \<ge> k. (\<forall>j. k \<le> j \<and> j < n \<longrightarrow> not_yet w t0 j) \<and>
     (case x of
        Inr m \<Rightarrow> m = n \<and> ow_poll w n = None \<and> ow_accept w n
      | Inl e \<Rightarrow> (\<exists>code. ow_poll w n = Some code \<and> e = exited code logf) \<or>
          ow_time w n > t0 + 30 \<and> ow_poll w n = None \<and> \<not> ow_accept w n \<and> e = never_opened logf))"

lemma connect_loop_sound:
  assumes "connect_loop w logf t0 k = Some x"
  shows "connected_at w logf t0 k x"
  using assms
proof (induction rule: connect_loop.raw_induct [rotated, consumes 1, case_names step])
  case (step rec w logf t0 k x)
  show ?case
  proof (cases "ow_poll w k = None \<and> \<not> ow_accept w k \<and> \<not> ow_time w k - t0 > 30")
    case True
    with step(2) have "rec w logf t0 (k + 1) = Some x" by simp
    from step(1) [OF this] obtain n where n: "n \<ge> k + 1" "\<forall>j. k + 1 \<le> j \<and> j < n \<longrightarrow> not_yet w t0 j"
      and c: "case x of
        Inr m \<Rightarrow> m = n \<and> ow_poll w n = None \<and> ow_accept w n
      | Inl e \<Rightarrow> (\<exists>code. ow_poll w n = Some code \<and> e = exited code logf) \<or>
          ow_time w n > t0 + 30 \<and> ow_poll w n = None \<and> \<not> ow_accept w n \<and> e = never_opened logf"
      unfolding connected_at_def by blast
    have "not_yet w t0 j" if "k \<le> j" "j < n" for j
      using that n(2) True by (cases "j = k") auto
    with n(1) c show ?thesis unfolding connected_at_def by (intro exI [of _ n]) auto
  next
    case False
    then consider code where "ow_poll w k = Some code" | "ow_poll w k = None" "ow_accept w k"
      | "ow_poll w k = None" "\<not> ow_accept w k" "ow_time w k - t0 > 30" by auto
    then show ?thesis
    proof cases
      case (1 code)
      then have "x = Inl (exited code logf)" using step(2) by simp
      with 1 show ?thesis unfolding connected_at_def by (intro exI [of _ k]) auto
    next
      case 2
      then have "x = Inr k" using step(2) by simp
      with 2 show ?thesis unfolding connected_at_def by (intro exI [of _ k]) auto
    next
      case 3
      then have "x = Inl (never_opened logf)" using step(2) by simp
      with 3 show ?thesis unfolding connected_at_def by (intro exI [of _ k]) auto
    qed
  qed
qed

section \<open>Properties\<close>

text \<open>C17: The reply of OpenOCD is received whole and decoded to the text that was sent, however the
  socket splits it, inside a character too; what comes after it stays for the next call.\<close>

theorem rpc_reply_whole:
  assumes "list_all scalar text" and "0x1A \<notin> set text" and "concat cs = concat (map utf8_encode text) @ [eot]" and "[] \<notin> set cs"
  shows "rpc (map Chunk cs @ later) = Some (Inr text, later)"
proof -
  have "eot \<notin> set (concat (map utf8_encode text))"
    using assms(1,2) eot_encoded by (auto simp: list_all_iff)
  then have "rpc_loop [] (map Chunk cs @ later) = Some (Inr (concat (map utf8_encode text) @ [eot]), later)"
    using rpc_loop_chunks [OF assms(3,4), of "[]" later] by simp
  then show ?thesis using utf8_ignore_text [OF assms(1)] by (simp add: rpc_def)
qed

theorem rpc_reply_whole_witness:
  "rpc (map Chunk [[0x6F], [0x6B, 0xC3], [0xA9, 0x1A]] @ [RecvTimeout]) = Some (Inr [0x6F, 0x6B, 0xE9], [RecvTimeout])"
proof (rule rpc_reply_whole)
  show "list_all scalar [0x6F, 0x6B, 0xE9]" by (simp add: scalar_def)
  show "concat [[0x6F], [0x6B, 0xC3], [0xA9, 0x1A]] = concat (map utf8_encode [0x6F, 0x6B, 0xE9]) @ [eot]"
    by code_simp
qed simp_all

text \<open>C18: Connecting to OpenOCD always ends, as its clock goes on: connected at the first round that
  is accepted, with the exit of the process at the first round that finds it gone, or with the
  message that the port never opened, at the first refused round more than 30 seconds after the
  start.\<close>

theorem connect_bounded:
  assumes "clock_goes_on w"
  shows "\<exists>x. connect_loop w logf t0 k = Some x \<and> connected_at w logf t0 k x"
  using connect_ends [OF assms, of logf t0 k] connect_loop_sound by blast

definition slow_port :: ocd_world where
  "slow_port = \<lparr>ow_poll = (\<lambda>k. None), ow_accept = (\<lambda>k. k = 3), ow_time = real, ow_procs = (\<lambda>k. Inr [])\<rparr>"

theorem connect_bounded_witness:
  "\<exists>x. connect_loop slow_port ''log'' 0 1 = Some x \<and> connected_at slow_port ''log'' 0 1 x"
proof (rule connect_bounded)
  have "\<exists>k. \<forall>j \<ge> k. b < real j" for b
  proof -
    obtain k where "b < real k" using reals_Archimedean2 by blast
    then show ?thesis by (intro exI [of _ k]) (auto intro: less_le_trans)
  qed
  then show "clock_goes_on slow_port" by (simp add: clock_goes_on_def slow_port_def)
qed

text \<open>The wait for the procs has no such bound: a process that stays and never has them is asked for ever.\<close>

theorem procs_never:
  assumes "\<forall>k. \<exists>r. ow_procs w k = Inr r \<and> \<not> sublist (map ord ''fi_campaign'') r" and "\<forall>k. ow_poll w k = None"
  shows "procs_loop w logf k = None"
proof -
  have "False" if "procs_loop w logf k = Some x" for x
    using that assms
  proof (induction rule: procs_loop.raw_induct [rotated, consumes 1, case_names step])
    case (step rec w logf k x)
    obtain r where "ow_procs w k = Inr r" "\<not> sublist (map ord ''fi_campaign'') r" using step(3) by blast
    with step(2,4) have "rec w logf (k + 1) = Some x" by simp
    from step(1) [OF this step(3,4)] show False .
  qed
  then show ?thesis by (cases "procs_loop w logf k") auto
qed

end
