(* ===== verification/Golden_Text.thy ===== *)
theory Golden_Text
  imports Campaign Py_Utf8
begin

text \<open>
  \<open>--golden-text\<close> of \<open>fpga/host/board_campaign.py\<close>: the text is read as the body of a Python string, with
  its escapes, and every character must fit a byte. The names of \<^verbatim>\<open>\N{...}\<close> are Unicode's, an argument.
\<close>

section \<open>Escapes\<close>

definition is_octal :: "char \<Rightarrow> bool" where
  "is_octal c \<longleftrightarrow> 48 \<le> ord c \<and> ord c \<le> 55"

definition hex_val :: "char \<Rightarrow> nat option" where
  "hex_val c = (case digit_val c of None \<Rightarrow> None | Some d \<Rightarrow> if d < 16 then Some d else None)"

definition digits_value :: "nat \<Rightarrow> string \<Rightarrow> nat" where
  "digits_value b ds = foldl (\<lambda>v c. v * b + the (digit_val c)) 0 ds"

text \<open>The characters of one letter.\<close>

definition letter_escape :: "char \<Rightarrow> nat option" where
  "letter_escape c = map_of [(CHR 0x5C, 0x5C), (CHR 0x27, 0x27), (CHR 0x22, 0x22), (CHR ''b'', 8), (CHR ''f'', 12),
     (CHR ''t'', 9), (CHR ''n'', 10), (CHR ''r'', 13), (CHR ''v'', 11), (CHR ''a'', 7)] c"

definition hex_length :: "char \<Rightarrow> nat option" where
  "hex_length c = map_of [(CHR ''x'', 2), (CHR ''u'', 4), (CHR ''U'', 8)] c"

text \<open>After a backslash: the code points it stands for and the text after it.\<close>

definition hex_escape :: "nat \<Rightarrow> string \<Rightarrow> (nat list \<times> string) res" where
  "hex_escape n s =
     (let ds = take n s in
      if length ds < n \<or> \<not> list_all (\<lambda>c. hex_val c \<noteq> None) ds then Inl (ValueError ''truncated escape'')
      else if digits_value 16 ds > 0x10FFFF then Inl (ValueError ''illegal Unicode character'')
      else Inr ([digits_value 16 ds], drop n s))"

definition name_escape :: "(string \<Rightarrow> nat option) \<Rightarrow> string \<Rightarrow> (nat list \<times> string) res" where
  "name_escape names s =
     (let n = takeWhile (\<lambda>c. c \<noteq> CHR ''}'') (tl s) in
      if s = [] \<or> hd s \<noteq> CHR ''{'' \<or> n = [] \<or> n = tl s then Inl (ValueError ''malformed character name'')
      else case names n of
          None \<Rightarrow> Inl (ValueError ''unknown Unicode character name'')
        | Some v \<Rightarrow> Inr ([v], drop (length n + 2) s))"

definition escape :: "(string \<Rightarrow> nat option) \<Rightarrow> char \<Rightarrow> string \<Rightarrow> (nat list \<times> string) res" where
  "escape names c s =
     (if c = CHR 0x0A then Inr ([], s)
      else case letter_escape c of
          Some v \<Rightarrow> Inr ([v], s)
        | None \<Rightarrow>
            if is_octal c
            then let ds = c # takeWhile is_octal (take 2 s) in Inr ([digits_value 8 ds], drop (length ds - 1) s)
            else case hex_length c of
                Some n \<Rightarrow> hex_escape n s
              | None \<Rightarrow> if c = CHR ''N'' then name_escape names s else Inr ([0x5C, ord c], s))"

lemma escape_shorter: "escape names c s = Inr (vs, s') \<Longrightarrow> length s' \<le> length s"
  by (auto simp: escape_def hex_escape_def name_escape_def Let_def split: if_splits option.splits)

text \<open>\<open>decode("unicode_escape")\<close>.\<close>

function unicode_escape :: "(string \<Rightarrow> nat option) \<Rightarrow> string \<Rightarrow> nat list res" where
  "unicode_escape names [] = Inr []"
| "unicode_escape names (c # s) =
     (if c \<noteq> CHR 0x5C then ebind (unicode_escape names s) (\<lambda>vs. Inr (ord c # vs))
      else case s of
          [] \<Rightarrow> Inl (ValueError ''backslash at end of string'')
        | e # t \<Rightarrow>
            (case escape names e t of
               Inl err \<Rightarrow> Inl err
             | Inr (vs, t') \<Rightarrow> ebind (unicode_escape names t') (\<lambda>ws. Inr (vs @ ws))))"
  by pat_completeness auto
termination
  by (relation "measure (\<lambda>(names, s). length s)") (auto dest: escape_shorter)

text \<open>\<open>encode("latin-1")\<close>.\<close>

definition latin1 :: "nat \<Rightarrow> byte res" where
  "latin1 v = (if v < 256 then Inr (of_nat v) else Inl (ValueError ''ordinal not in range(256)''))"

text \<open>The text is first encoded, so that a character above ASCII is the bytes of its encoding.\<close>

definition golden_text :: "(string \<Rightarrow> nat option) \<Rightarrow> string \<Rightarrow> byte list res" where
  "golden_text names s =
     ebind (unicode_escape names (map (char_of \<circ> unat) (str_encode s))) (emap latin1)"

text \<open>The two options of the golden output, the log before the text.\<close>

definition golden_arg :: "(string \<Rightarrow> nat option) \<Rightarrow> string list option \<Rightarrow> string option \<Rightarrow> golden_source res" where
  "golden_arg names from_log txt =
     (case from_log of
        Some ls \<Rightarrow> Inr (GoldenLog ls)
      | None \<Rightarrow> (case txt of
          None \<Rightarrow> Inr NoGolden
        | Some s \<Rightarrow> ebind (golden_text names s) (\<lambda>bs. Inr (GoldenText bs))))"

section \<open>Every golden output can be given as text\<close>

text \<open>A byte as it is, when it is ASCII and no backslash, or as \<^verbatim>\<open>\x\<close> and two digits.\<close>

definition byte_text :: "byte \<Rightarrow> bool \<Rightarrow> string" where
  "byte_text b plain = (if plain then [char_of (unat b)] else CHR 0x5C # CHR ''x'' # zero_pad 2 (show_hex (unat b)))"

definition plain_ok :: "byte \<times> bool \<Rightarrow> bool" where
  "plain_ok bp \<longleftrightarrow> snd bp \<longrightarrow> unat (fst bp) < 128 \<and> unat (fst bp) \<noteq> 0x5C"

lemma byte_below: "unat (b :: byte) < 256"
  using unsigned_less [of b] by simp

lemma int_digits_value:
  "CHR ''_'' \<notin> set ds \<Longrightarrow> int_digits b us acc ds = Some v \<Longrightarrow> foldl (\<lambda>v c. v * b + the (digit_val c)) acc ds = v"
proof (induction ds arbitrary: us acc)
  case (Cons c ds)
  then obtain d where "digit_val c = Some d" "int_digits b False (acc * b + d) ds = Some v"
    by (auto split: option.splits if_splits)
  with Cons show ?case by simp
qed (simp split: if_splits)

lemma escape_hex:
  assumes "v < 256"
  shows "escape names (CHR ''x'') (zero_pad 2 (show_hex v) @ t) = Inr ([v], t)"
proof -
  let ?d = "zero_pad 2 (show_hex v)"
  have len: "length ?d = 2"
    using length_show_hex [of v 2] assms by (simp add: length_zero_pad)
  have hex: "list_all (\<lambda>c. hex_val c \<noteq> None) ?d"
    using zero_pad_string [OF show_hex_string, of 2 v] by (auto simp: hex_string_def list_all_iff hex_val_def)
  have "int_digits 16 False 0 ?d = Some v"
    using int_digits_zeros [of False "2 - length (show_hex v)" "show_hex v"] int_digits_show_hex [of False v "[]"]
    by (simp add: zero_pad_def)
  moreover have "CHR ''_'' \<notin> set ?d"
  proof
    assume "CHR ''_'' \<in> set ?d"
    then obtain d where "d < 16" "CHR ''_'' = digit_char d"
      using zero_pad_string [OF show_hex_string, of 2 v] by (auto simp: hex_string_def)
    with digit_char_not(1) [of d] show False by simp
  qed
  ultimately have v: "digits_value 16 ?d = v" unfolding digits_value_def by (rule int_digits_value [rotated])
  have "letter_escape (CHR ''x'') = None" "\<not> is_octal (CHR ''x'')" "hex_length (CHR ''x'') = Some 2" by code_simp+
  then show ?thesis using len hex v assms by (simp add: escape_def hex_escape_def Let_def)
qed

lemma unicode_escape_byte:
  assumes "plain_ok (b, plain)"
  shows "unicode_escape names (byte_text b plain @ t) = ebind (unicode_escape names t) (\<lambda>vs. Inr (unat b # vs))"
proof (cases plain)
  case True
  have b: "unat b < 256" by (rule byte_below)
  have "ord (CHR 0x5C) = 0x5C" by (simp add: ord_def)
  moreover have "ord (char_of (unat b)) \<noteq> 0x5C" unfolding ord_char_of [OF b] using assms True by (simp add: plain_ok_def)
  ultimately have "char_of (unat b) \<noteq> CHR 0x5C" by metis
  then show ?thesis using True b by (simp add: byte_text_def)
next
  case False
  have "unat b < 256" by (rule byte_below)
  from escape_hex [OF this, of names t] False show ?thesis by (simp add: byte_text_def)
qed

lemma byte_text_ascii: "plain_ok (b, p) \<Longrightarrow> list_all (\<lambda>c. ord c < 0x80) (byte_text b p)"
proof -
  have d: "ord c < 0x80" if "hex_string s" "c \<in> set s" for s c
  proof -
    from that obtain d where "c = digit_char d" "d < 16" by (auto simp: hex_string_def)
    then show ?thesis by (auto simp: digit_char_def)
  qed
  have "unat b < 256" by (rule byte_below)
  then have "ord (char_of (unat b)) = unat b" by simp
  moreover have "ord (CHR 0x5C) < 0x80" "ord (CHR ''x'') < 0x80" by (simp_all add: ord_def)
  ultimately show "plain_ok (b, p) \<Longrightarrow> ?thesis"
    using d [OF zero_pad_string [OF show_hex_string, of 2 "unat b"]]
    by (auto simp: byte_text_def plain_ok_def list_all_iff)
qed

lemma latin1_bytes: "emap latin1 (map unat bs) = Inr bs"
proof (induction bs)
  case (Cons b bs)
  have "unat b < 256" by (rule byte_below)
  with Cons show ?case by (simp add: latin1_def)
qed simp

text \<open>C19: Every golden output can be given as text: bytes written as themselves, where they are ASCII
  and no backslash, or as hexadecimal escapes are read back as those bytes.\<close>

theorem golden_text_any_bytes:
  assumes "list_all plain_ok bps"
  shows "golden_text names (concat (map (\<lambda>(b, p). byte_text b p) bps)) = Inr (map fst bps)"
proof -
  let ?s = "concat (map (\<lambda>(b, p). byte_text b p) bps)"
  have "list_all (\<lambda>c. ord c < 0x80) ?s"
    using assms byte_text_ascii by (fastforce simp: list_all_iff)
  from str_encode_ascii [OF this] have "map (char_of \<circ> unat) (str_encode ?s) = map (\<lambda>c. char_of (unat (of_nat (ord c) :: byte))) ?s"
    by simp
  also have "\<dots> = ?s"
    using \<open>list_all (\<lambda>c. ord c < 0x80) ?s\<close> by (intro map_idI) (auto simp: list_all_iff unat_byte ord_def)
  finally have e: "map (char_of \<circ> unat) (str_encode ?s) = ?s" .
  have "unicode_escape names ?s = Inr (map (unat \<circ> fst) bps)"
    using assms by (induction bps) (auto simp: unicode_escape_byte)
  then show ?thesis using latin1_bytes [of "map fst bps"] unfolding golden_text_def e by simp
qed

theorem golden_text_any_bytes_witness:
  "golden_text (\<lambda>n. None) (concat (map (\<lambda>(b, p). byte_text b p) [(0x6F, True), (0x6B, True), (0x0A, False)])) = Inr [0x6F, 0x6B, 0x0A] \<and>
     concat (map (\<lambda>(b, p). byte_text b p) [(0x6F, True), (0x6B, True), (0x0A, False)]) = ''ok'' @ CHR 0x5C # ''x0a''"
proof
  have "list_all plain_ok [(0x6F, True), (0x6B, True), (0x0A, False)]" by (simp add: plain_ok_def)
  from golden_text_any_bytes [OF this, of "\<lambda>n. None"]
  show "golden_text (\<lambda>n. None) (concat (map (\<lambda>(b, p). byte_text b p) [(0x6F, True), (0x6B, True), (0x0A, False)])) = Inr [0x6F, 0x6B, 0x0A]"
    by simp
qed code_simp

end
