(* ===== verification/Py_Re.thy ===== *)
theory Py_Re
  imports Py_Text
begin

text \<open>
  The part of Python's module \<open>re\<close> that the tools use: a backtracking matcher. \<open>rm r\<close> lists, in the
  order in which the backtracking search finds them, all the ways \<open>r\<close> can match at a position;
  \<open>match\<close>, \<open>fullmatch\<close>, \<open>search\<close>, \<open>finditer\<close> and \<open>sub\<close> take the first. Patterns are written with
  the constructors below, one per construct of the pattern language.
\<close>

section \<open>Patterns\<close>

datatype re =
    REps
  | RCls "char \<Rightarrow> bool"
  | RSeq re re
  | RAlt re re
  | RStar re          \<comment> \<open>greedy\<close>
  | RLazy re          \<comment> \<open>as few as possible\<close>
  | RGrp nat re
  | RWordB            \<comment> \<open>a word boundary\<close>
  | RBol              \<comment> \<open>start of the text\<close>
  | RBolM             \<comment> \<open>start of a line\<close>
  | REol              \<comment> \<open>end of the text, or before a newline that ends it\<close>
  | RNot re           \<comment> \<open>negative lookahead\<close>

abbreviation "rchr x \<equiv> RCls (\<lambda>c. c = x)"
abbreviation "rplus r \<equiv> RSeq r (RStar r)"
abbreviation "ropt r \<equiv> RAlt r REps"
abbreviation "rany \<equiv> RCls (\<lambda>c. True)"
abbreviation "rword \<equiv> RCls is_word"
abbreviation "rdigit \<equiv> RCls is_digit"
abbreviation "rspaces \<equiv> RStar (RCls is_space)"

fun rlit :: "string \<Rightarrow> re" where
  "rlit [] = REps"
| "rlit [c] = rchr c"
| "rlit (c # cs) = RSeq (rchr c) (rlit cs)"

fun rseq :: "re list \<Rightarrow> re" where
  "rseq [] = REps"
| "rseq [r] = r"
| "rseq (r # rs) = RSeq r (rseq rs)"

fun ralt :: "string list \<Rightarrow> re" where
  "ralt [] = RCls (\<lambda>c. False)"
| "ralt [s] = rlit s"
| "ralt (s # ss) = RAlt (rlit s) (ralt ss)"

section \<open>The matcher\<close>

text \<open>
  A position: the text before it, reversed, the text after it, and the groups that are set
  (number, start, text), the latest first.
\<close>

type_synonym caps = "(nat \<times> nat \<times> string) list"
type_synonym mst = "string \<times> string \<times> caps"

abbreviation rest :: "mst \<Rightarrow> string" where
  "rest st \<equiv> fst (snd st)"

primrec star_g :: "nat \<Rightarrow> (mst \<Rightarrow> mst list) \<Rightarrow> mst \<Rightarrow> mst list" where
  "star_g 0 m st = [st]"
| "star_g (Suc n) m st =
     concat (map (\<lambda>st'. if length (rest st') < length (rest st) then star_g n m st' else []) (m st))
     @ [st]"

primrec star_l :: "nat \<Rightarrow> (mst \<Rightarrow> mst list) \<Rightarrow> mst \<Rightarrow> mst list" where
  "star_l 0 m st = [st]"
| "star_l (Suc n) m st =
     st # concat (map (\<lambda>st'. if length (rest st') < length (rest st) then star_l n m st' else []) (m st))"

definition word_at :: "string \<Rightarrow> bool" where
  "word_at s = (case s of [] \<Rightarrow> False | c # _ \<Rightarrow> is_word c)"

primrec rm :: "re \<Rightarrow> mst \<Rightarrow> mst list" where
  "rm REps st = [st]"
| "rm (RCls P) st = (case st of (p, s, cs) \<Rightarrow>
     (case s of [] \<Rightarrow> [] | c # s' \<Rightarrow> if P c then [(c # p, s', cs)] else []))"
| "rm (RSeq a b) st = concat (map (rm b) (rm a st))"
| "rm (RAlt a b) st = rm a st @ rm b st"
| "rm (RStar r) st = star_g (length (rest st)) (rm r) st"
| "rm (RLazy r) st = star_l (length (rest st)) (rm r) st"
| "rm (RGrp g r) st = map (\<lambda>(p', s', cs').
     (p', s', (g, length (fst st), take (length p' - length (fst st)) (rest st)) # cs')) (rm r st)"
| "rm RWordB st = (if word_at (fst st) \<noteq> word_at (rest st) then [st] else [])"
| "rm RBol st = (if fst st = [] then [st] else [])"
| "rm RBolM st = (if fst st = [] \<or> hd (fst st) = CHR 0x0A then [st] else [])"
| "rm REol st = (if rest st = [] \<or> rest st = [CHR 0x0A] then [st] else [])"
| "rm (RNot r) st = (if rm r st = [] then [st] else [])"

section \<open>The functions of the module re\<close>

text \<open>A match: where it starts, the position after it.\<close>

type_synonym rmatch = "nat \<times> mst"

definition m_end :: "rmatch \<Rightarrow> nat" where
  "m_end m = length (fst (snd m))"

definition m_group :: "rmatch \<Rightarrow> nat \<Rightarrow> string option" where
  "m_group m g = map_option snd (map_of (snd (snd (snd m))) g)"

definition m_text :: "rmatch \<Rightarrow> nat \<Rightarrow> string" where
  "m_text m g = (case m_group m g of None \<Rightarrow> [] | Some t \<Rightarrow> t)"

definition m_start :: "rmatch \<Rightarrow> nat \<Rightarrow> nat" where
  "m_start m g = (case map_of (snd (snd (snd m))) g of None \<Rightarrow> 0 | Some (i, t) \<Rightarrow> i)"

definition match_at :: "re \<Rightarrow> string \<Rightarrow> string \<Rightarrow> rmatch option" where
  "match_at r p s = (case rm r (p, s, []) of [] \<Rightarrow> None | st # _ \<Rightarrow> Some (length p, st))"

definition re_match :: "re \<Rightarrow> string \<Rightarrow> rmatch option" where
  "re_match r s = match_at r [] s"

definition re_fullmatch :: "re \<Rightarrow> string \<Rightarrow> rmatch option" where
  "re_fullmatch r s = map_option (Pair 0) (find (\<lambda>st. rest st = []) (rm r ([], s, [])))"

fun search_from :: "re \<Rightarrow> string \<Rightarrow> string \<Rightarrow> rmatch option" where
  "search_from r p [] = match_at r p []"
| "search_from r p (c # cs) =
     (case match_at r p (c # cs) of None \<Rightarrow> search_from r (c # p) cs | Some m \<Rightarrow> Some m)"

definition re_search :: "re \<Rightarrow> string \<Rightarrow> rmatch option" where
  "re_search r s = search_from r [] s"

text \<open>
  The matches of a pattern that do not overlap, from the left. After a match that consumes nothing
  the search goes on one character further; no pattern of the tools can match the empty text.
\<close>

function find_from :: "re \<Rightarrow> string \<Rightarrow> string \<Rightarrow> rmatch list" where
  "find_from r p s =
     (case match_at r p s of
        None \<Rightarrow> (case s of [] \<Rightarrow> [] | c # cs \<Rightarrow> find_from r (c # p) cs)
      | Some m \<Rightarrow> m # (case snd m of (p', s', _) \<Rightarrow>
          if length s' < length s then find_from r p' s'
          else (case s of [] \<Rightarrow> [] | c # cs \<Rightarrow> find_from r (c # p) cs)))"
  by pat_completeness auto
termination
  by (relation "measure (\<lambda>(r, p, s). length s)") auto

function sub_from :: "re \<Rightarrow> (rmatch \<Rightarrow> string) \<Rightarrow> string \<Rightarrow> string \<Rightarrow> string" where
  "sub_from r f p s =
     (case match_at r p s of
        None \<Rightarrow> (case s of [] \<Rightarrow> [] | c # cs \<Rightarrow> c # sub_from r f (c # p) cs)
      | Some m \<Rightarrow> f m @ (case snd m of (p', s', _) \<Rightarrow>
          if length s' < length s then sub_from r f p' s'
          else (case s of [] \<Rightarrow> [] | c # cs \<Rightarrow> c # sub_from r f (c # p) cs)))"
  by pat_completeness auto
termination
  by (relation "measure (\<lambda>(r, f, p, s). length s)") auto

declare find_from.simps [simp del] sub_from.simps [simp del]

definition re_finditer :: "re \<Rightarrow> string \<Rightarrow> rmatch list" where
  "re_finditer r s = find_from r [] s"

definition re_sub :: "re \<Rightarrow> (rmatch \<Rightarrow> string) \<Rightarrow> string \<Rightarrow> string" where
  "re_sub r f s = sub_from r f [] s"

section \<open>What the matcher consumes\<close>

text \<open>Every way to match moves a prefix of the rest to the text before the position.\<close>

definition consumes :: "mst \<Rightarrow> mst \<Rightarrow> bool" where
  "consumes st st' \<longleftrightarrow> (\<exists>u. fst st' = rev u @ fst st \<and> rest st = u @ rest st')"

lemma consumes_refl [simp]: "consumes st st"
  by (simp add: consumes_def)

lemma consumes_trans: "consumes a b \<Longrightarrow> consumes b c \<Longrightarrow> consumes a c"
  unfolding consumes_def by (metis append.assoc rev_append)

lemma star_g_consumes:
  assumes "\<And>a b. b \<in> set (m a) \<Longrightarrow> consumes a b"
  shows "st' \<in> set (star_g n m st) \<Longrightarrow> consumes st st'"
proof (induction n arbitrary: st)
  case (Suc n)
  then show ?case by (auto split: if_splits dest!: assms intro: consumes_trans)
qed simp

lemma star_l_consumes:
  assumes "\<And>a b. b \<in> set (m a) \<Longrightarrow> consumes a b"
  shows "st' \<in> set (star_l n m st) \<Longrightarrow> consumes st st'"
proof (induction n arbitrary: st)
  case (Suc n)
  then show ?case by (auto split: if_splits dest!: assms intro: consumes_trans)
qed simp

lemma rm_consumes: "st' \<in> set (rm r st) \<Longrightarrow> consumes st st'"
proof (induction r arbitrary: st st')
  case (RCls P)
  then show ?case by (auto simp: consumes_def split: list.splits prod.splits if_splits)
next
  case (RSeq a b)
  from RSeq.prems obtain x where x: "x \<in> set (rm a st)" "st' \<in> set (rm b x)" by auto
  from RSeq.IH(1) [OF x(1)] RSeq.IH(2) [OF x(2)] show ?case by (rule consumes_trans)
next
  case (RStar r)
  then show ?case using star_g_consumes [of "rm r"] by simp
next
  case (RLazy r)
  then show ?case using star_l_consumes [of "rm r"] by simp
next
  case (RGrp g r)
  from RGrp.prems obtain p' s' c' d where x: "(p', s', c') \<in> set (rm r st)" and "st' = (p', s', d)"
    by auto
  with RGrp.IH [OF x] show ?case by (simp add: consumes_def)
qed (auto split: if_splits)

section \<open>The matches of the common patterns\<close>

text \<open>From here on the matcher is unfolded through the lemmas below.\<close>

lemmas rm_eqs = rm.simps

declare rm.simps [simp del]

lemmas rm_test_simps [simp] = rm.simps(1,4,8,9,10,11,12)

lemma rm_cls:
  "st' \<in> set (rm (RCls P) (p, s, c)) \<longleftrightarrow> (\<exists>x s'. s = x # s' \<and> P x \<and> st' = (x # p, s', c))"
  by (auto simp: rm_eqs split: list.splits)

lemma rm_seq: "st' \<in> set (rm (RSeq a b) st) \<longleftrightarrow> (\<exists>x \<in> set (rm a st). st' \<in> set (rm b x))"
  by (auto simp: rm_eqs)

lemma rm_seq_tuple: "st' \<in> set (rm (RSeq a b) (p, s, c)) \<longleftrightarrow>
    (\<exists>p1 s1 c1. (p1, s1, c1) \<in> set (rm a (p, s, c)) \<and> st' \<in> set (rm b (p1, s1, c1)))"
  unfolding rm_seq by auto

lemma rm_cls_Nil [simp]: "rm (RCls P) (p, [], c) = []"
  by (simp add: rm_eqs)

lemma rm_cls_Cons [simp]: "rm (RCls P) (p, x # s, c) = (if P x then [(x # p, s, c)] else [])"
  by (simp add: rm_eqs)

lemma star_g_cls:
  "length s \<le> n \<Longrightarrow> star_g n (rm (RCls P)) (p, s, c) =
     map (\<lambda>k. (rev (take k s) @ p, drop k s, c)) (rev [0..<Suc (length (takeWhile P s))])"
proof (induction n arbitrary: p s)
  case (Suc n)
  show ?case
  proof (cases s)
    case (Cons x s')
    show ?thesis
    proof (cases "P x")
      case True
      have "rev [0..<Suc (Suc m)] = map Suc (rev [0..<Suc m]) @ [0]" for m
        by (simp add: map_Suc_upt [symmetric] rev_map upt_conv_Cons del: upt_Suc)
      with True Cons Suc.IH [of s' "x # p"] Suc.prems show ?thesis
        by (simp add: comp_def del: upt_Suc)
    qed (simp add: Cons)
  qed simp
qed simp

lemma rm_star_cls_list:
  "rm (RStar (RCls P)) (p, s, c) =
     map (\<lambda>k. (rev (take k s) @ p, drop k s, c)) (rev [0..<Suc (length (takeWhile P s))])"
  using star_g_cls [of s "length s" P p c] by (simp add: rm_eqs(5))

lemma take_all_iff: "(\<exists>k < Suc (length (takeWhile P s)). u = take k s \<and> v = drop k s) \<longleftrightarrow>
    s = u @ v \<and> list_all P u"
proof
  assume "\<exists>k < Suc (length (takeWhile P s)). u = take k s \<and> v = drop k s"
  then obtain k where k: "k \<le> length (takeWhile P s)" "u = take k s" "v = drop k s"
    by (auto simp: less_Suc_eq_le)
  then have "u = take k (takeWhile P s)"
    by (metis append_eq_append_conv_if takeWhile_dropWhile_id take_append diff_is_0_eq take_0 append_Nil2)
  then have "list_all P u"
    by (metis in_set_takeD list_all_iff set_takeWhileD)
  with k show "s = u @ v \<and> list_all P u" by simp
next
  assume a: "s = u @ v \<and> list_all P u"
  then have "length u \<le> length (takeWhile P s)"
    by (simp add: takeWhile_append2 list_all_iff)
  with a show "\<exists>k < Suc (length (takeWhile P s)). u = take k s \<and> v = drop k s"
    by (intro exI [of _ "length u"]) (simp add: less_Suc_eq_le)
qed

lemma set_map_split:
  "st' \<in> set (map (\<lambda>k. (rev (take k s) @ p, drop k s, c)) (rev [0..<n])) \<longleftrightarrow>
     (\<exists>u v. (\<exists>k < n. u = take k s \<and> v = drop k s) \<and> st' = (rev u @ p, v, c))"
  "st' \<in> set (map (\<lambda>k. (rev (take k s) @ p, drop k s, c)) [0..<n]) \<longleftrightarrow>
     (\<exists>u v. (\<exists>k < n. u = take k s \<and> v = drop k s) \<and> st' = (rev u @ p, v, c))"
  by auto

lemma rm_star_cls:
  "st' \<in> set (rm (RStar (RCls P)) (p, s, c)) \<longleftrightarrow>
     (\<exists>u v. s = u @ v \<and> list_all P u \<and> st' = (rev u @ p, v, c))"
  unfolding rm_star_cls_list set_map_split take_all_iff by blast

lemma star_l_cls:
  "length s \<le> n \<Longrightarrow> star_l n (rm (RCls P)) (p, s, c) =
     map (\<lambda>k. (rev (take k s) @ p, drop k s, c)) [0..<Suc (length (takeWhile P s))]"
proof (induction n arbitrary: p s)
  case (Suc n)
  show ?case
  proof (cases s)
    case (Cons x s')
    show ?thesis
    proof (cases "P x")
      case True
      have "[0..<Suc (Suc m)] = 0 # map Suc [0..<Suc m]" for m
        by (simp add: map_Suc_upt upt_conv_Cons del: upt_Suc)
      with True Cons Suc.IH [of s' "x # p"] Suc.prems show ?thesis
        by (simp add: comp_def del: upt_Suc)
    qed (simp add: Cons)
  qed simp
qed simp

lemma rm_lazy_cls_list:
  "rm (RLazy (RCls P)) (p, s, c) =
     map (\<lambda>k. (rev (take k s) @ p, drop k s, c)) [0..<Suc (length (takeWhile P s))]"
  using star_l_cls [of s "length s" P p c] by (simp add: rm_eqs(6))

lemma rm_lazy_cls:
  "st' \<in> set (rm (RLazy (RCls P)) (p, s, c)) \<longleftrightarrow>
     (\<exists>u v. s = u @ v \<and> list_all P u \<and> st' = (rev u @ p, v, c))"
  unfolding rm_lazy_cls_list set_map_split take_all_iff by blast

lemma rm_plus_cls:
  "st' \<in> set (rm (rplus (RCls P)) (p, s, c)) \<longleftrightarrow>
     (\<exists>u v. s = u @ v \<and> u \<noteq> [] \<and> list_all P u \<and> st' = (rev u @ p, v, c))"
proof
  assume "st' \<in> set (rm (rplus (RCls P)) (p, s, c))"
  then obtain x s' where s: "s = x # s'" "P x" "st' \<in> set (rm (RStar (RCls P)) (x # p, s', c))"
    unfolding rm_seq by (auto simp: rm_cls)
  then obtain u v where "s' = u @ v" "list_all P u" "st' = (rev u @ x # p, v, c)"
    by (auto simp: rm_star_cls)
  with s show "\<exists>u v. s = u @ v \<and> u \<noteq> [] \<and> list_all P u \<and> st' = (rev u @ p, v, c)"
    by (intro exI [of _ "x # u"] exI [of _ v]) simp
next
  assume "\<exists>u v. s = u @ v \<and> u \<noteq> [] \<and> list_all P u \<and> st' = (rev u @ p, v, c)"
  then obtain u v where u: "s = u @ v" "u \<noteq> []" "list_all P u" "st' = (rev u @ p, v, c)" by blast
  then obtain x u' where x: "u = x # u'" by (cases u) auto
  with u have "st' \<in> set (rm (RStar (RCls P)) (x # p, u' @ v, c))" by (auto simp: rm_star_cls)
  with u x show "st' \<in> set (rm (rplus (RCls P)) (p, s, c))"
    unfolding rm_seq by (auto simp: rm_cls)
qed

lemma rm_grp:
  "st' \<in> set (rm (RGrp g r) (p, s, c)) \<longleftrightarrow>
     (\<exists>u v c'. (rev u @ p, v, c') \<in> set (rm r (p, s, c)) \<and> s = u @ v \<and>
       st' = (rev u @ p, v, (g, length p, u) # c'))"
proof
  assume "st' \<in> set (rm (RGrp g r) (p, s, c))"
  then obtain p' v c' where m: "(p', v, c') \<in> set (rm r (p, s, c))"
    and st': "st' = (p', v, (g, length p, take (length p' - length p) s) # c')"
    by (auto simp: rm_eqs(7))
  from rm_consumes [OF m] obtain u where "p' = rev u @ p" "s = u @ v" by (auto simp: consumes_def)
  with m st' show "\<exists>u v c'. (rev u @ p, v, c') \<in> set (rm r (p, s, c)) \<and> s = u @ v \<and>
       st' = (rev u @ p, v, (g, length p, u) # c')" by auto
next
  assume "\<exists>u v c'. (rev u @ p, v, c') \<in> set (rm r (p, s, c)) \<and> s = u @ v \<and>
       st' = (rev u @ p, v, (g, length p, u) # c')"
  then obtain u v c' where "(rev u @ p, v, c') \<in> set (rm r (p, s, c))" "s = u @ v"
       "st' = (rev u @ p, v, (g, length p, u) # c')" by blast
  then show "st' \<in> set (rm (RGrp g r) (p, s, c))" by (force simp: rm_eqs(7) image_iff)
qed

lemmas rm_sets = rm_seq rm_cls rm_star_cls rm_lazy_cls rm_plus_cls rm_grp

lemma rm_grp_plus:
  "st' \<in> set (rm (RGrp g (rplus (RCls P))) (p, s, c)) \<longleftrightarrow>
     (\<exists>u v. s = u @ v \<and> u \<noteq> [] \<and> list_all P u \<and> st' = (rev u @ p, v, (g, length p, u) # c))"
  unfolding rm_grp rm_plus_cls by auto

lemma fullmatch_SomeD:
  assumes "re_fullmatch r s = Some m"
  shows "\<exists>p c. m = (0, p, [], c) \<and> (p, [], c) \<in> set (rm r ([], s, []))"
proof -
  from assms obtain st where m: "m = (0, st)"
    and f: "find (\<lambda>st. rest st = []) (rm r ([], s, [])) = Some st"
    by (auto simp: re_fullmatch_def)
  from f have "st \<in> set (rm r ([], s, []))" and "rest st = []"
    by (auto simp: find_Some_iff)
  with m show ?thesis by (cases st) auto
qed

lemma fullmatch_None_iff:
  "re_fullmatch r s = None \<longleftrightarrow> (\<forall>p c. (p, [], c) \<notin> set (rm r ([], s, [])))"
  by (auto simp: re_fullmatch_def find_None_iff)

lemma fullmatch_ex:
  assumes "\<exists>p c. (p, [], c) \<in> set (rm r ([], s, []))"
  obtains m where "re_fullmatch r s = Some m"
  using assms fullmatch_None_iff [of r s] by (cases "re_fullmatch r s") blast+

lemma fullmatch_unique:
  assumes "(p, [], c) \<in> set (rm r ([], s, []))"
    and "\<And>p' c'. (p', [], c') \<in> set (rm r ([], s, [])) \<Longrightarrow> (p', c') = (p, c)"
  shows "re_fullmatch r s = Some (0, p, [], c)"
proof (cases "re_fullmatch r s")
  case None
  with assms(1) show ?thesis by (simp add: fullmatch_None_iff)
next
  case (Some m)
  from fullmatch_SomeD [OF this] assms(2) Some show ?thesis by fastforce
qed

lemma rm_grp_cls:
  "st' \<in> set (rm (RGrp g (RCls P)) (p, s, c)) \<longleftrightarrow>
     (\<exists>x v. s = x # v \<and> P x \<and> st' = (x # p, v, (g, length p, [x]) # c))"
  unfolding rm_grp rm_cls by force

lemmas rm_forward = rseq.simps rm_seq_tuple rm_grp_plus rm_grp_cls rm_cls rm_star_cls rm_plus_cls

text \<open>One way to match, built from left to right.\<close>

lemma rm_seqI:
  "(p1, s1, c1) \<in> set (rm a (p, s, c)) \<Longrightarrow> st' \<in> set (rm b (p1, s1, c1)) \<Longrightarrow> st' \<in> set (rm (RSeq a b) (p, s, c))"
  unfolding rm_seq by blast

lemma rm_clsI: "P x \<Longrightarrow> (x # p, s, c) \<in> set (rm (RCls P) (p, x # s, c))"
  by simp

lemma rm_starI:
  "list_all P u \<Longrightarrow> (rev u @ p, v, c) \<in> set (rm (RStar (RCls P)) (p, u @ v, c))"
  unfolding rm_star_cls by blast

lemma rm_star_skipI: "(p, v, c) \<in> set (rm (RStar (RCls P)) (p, v, c))"
  using rm_starI [of P "[]"] by simp

lemma rm_grp_plusI:
  "u \<noteq> [] \<Longrightarrow> list_all P u \<Longrightarrow>
     (rev u @ p, v, (g, length p, u) # c) \<in> set (rm (RGrp g (rplus (RCls P))) (p, u @ v, c))"
  unfolding rm_grp_plus by blast

text \<open>The first character outside a class determines the split.\<close>

lemma class_split:
  assumes "u @ x # v = u' @ x' # v'" and "list_all P u" and "list_all P u'" and "\<not> P x" and "\<not> P x'"
  shows "u = u' \<and> x = x' \<and> v = v'"
  using assms
proof (induction u arbitrary: u')
  case Nil
  then show ?case by (cases u') auto
next
  case (Cons a u)
  then show ?case by (cases u') auto
qed

section \<open>The first match\<close>

text \<open>
  \<open>first r st st'\<close>: the search of \<open>r\<close> at \<open>st\<close> succeeds first at \<open>st'\<close>. The rules follow the
  backtracking: a part is tried at the first match of the part before it, a greedy repetition at its
  longest, a lazy one at its shortest, and further ones only when what follows has no match.
\<close>

definition first :: "re \<Rightarrow> mst \<Rightarrow> mst \<Rightarrow> bool" where
  "first r st st' \<longleftrightarrow> (\<exists>xs. rm r st = st' # xs)"

lemma first_match: "first r ([], s, []) st' \<Longrightarrow> re_match r s = Some (0, st')"
  by (auto simp: first_def re_match_def match_at_def)

lemma first_match_at: "first r (p, s, []) st' \<Longrightarrow> match_at r p s = Some (length p, st')"
  by (auto simp: first_def match_at_def)

lemma upt_around: "a < b \<Longrightarrow> [0..<b] = [0..<a] @ a # [Suc a..<b]"
  using upt_add_eq_append [of 0 a "b - a"] upt_conv_Cons [of a b] by simp

lemma concat_first: "xs = ys @ y # zs \<Longrightarrow> (\<And>x. x \<in> set ys \<Longrightarrow> f x = []) \<Longrightarrow> f y = w # ws \<Longrightarrow>
    \<exists>vs. concat (map f xs) = w # vs"
  by (simp add: concat_eq_Nil_conv [THEN iffD2])

lemma first_seq: "first a st x \<Longrightarrow> first b x y \<Longrightarrow> first (RSeq a b) st y"
  by (auto simp: first_def rm_eqs)

lemma first_cls: "P x \<Longrightarrow> first (RCls P) (p, x # s, c) (x # p, s, c)"
  by (simp add: first_def)

lemma first_eps: "first REps st st"
  by (simp add: first_def)

lemma first_alt1: "first a st y \<Longrightarrow> first (RAlt a b) st y"
  by (auto simp: first_def)

lemma first_alt2: "rm a st = [] \<Longrightarrow> first b st y \<Longrightarrow> first (RAlt a b) st y"
  by (auto simp: first_def)

lemma first_grp: "first r (p, u @ s, c) (rev u @ p, s, c') \<Longrightarrow>
    first (RGrp g r) (p, u @ s, c) (rev u @ p, s, (g, length p, u) # c')"
  by (auto simp: first_def rm_eqs(7))

lemma first_bol: "first RBol ([], s, c) ([], s, c)"
  by (simp add: first_def)

lemma first_eol: "first REol (p, [], c) (p, [], c)"
  by (simp add: first_def)

lemma first_wordb: "word_at p \<noteq> word_at s \<Longrightarrow> first RWordB (p, s, c) (p, s, c)"
  by (simp add: first_def)

definition stops :: "(char \<Rightarrow> bool) \<Rightarrow> string \<Rightarrow> bool" where
  "stops P s \<longleftrightarrow> s = [] \<or> \<not> P (hd s)"

lemma stops_simps [simp]: "stops P []" "stops P (x # s) \<longleftrightarrow> \<not> P x"
  by (simp_all add: stops_def)

lemma takeWhile_stops: "list_all P u \<Longrightarrow> stops P s \<Longrightarrow> takeWhile P (u @ s) = u"
  by (induction u) (auto simp: stops_def takeWhile_eq_Nil_iff)

lemma first_star: "list_all P u \<Longrightarrow> stops P s \<Longrightarrow> first (RStar (RCls P)) (p, u @ s, c) (rev u @ p, s, c)"
  by (simp add: first_def rm_star_cls_list takeWhile_stops)

lemma first_star_skip: "stops P s \<Longrightarrow> first (RStar (RCls P)) (p, s, c) (p, s, c)"
  using first_star [of P "[]" s] by simp

lemma first_plus: "u \<noteq> [] \<Longrightarrow> list_all P u \<Longrightarrow> stops P s \<Longrightarrow>
    first (rplus (RCls P)) (p, u @ s, c) (rev u @ p, s, c)"
proof -
  assume u: "u \<noteq> []" "list_all P u" "stops P s"
  then obtain x u' where x: "u = x # u'" by (cases u) auto
  have "first (RSeq (RCls P) (RStar (RCls P))) (p, x # (u' @ s), c) (rev u' @ x # p, s, c)"
    using u x by (intro first_seq [OF first_cls first_star]) auto
  with x show ?thesis by simp
qed

lemma first_grp_plus: "u \<noteq> [] \<Longrightarrow> list_all P u \<Longrightarrow> stops P s \<Longrightarrow>
    first (RGrp g (rplus (RCls P))) (p, u @ s, c) (rev u @ p, s, (g, length p, u) # c)"
  by (rule first_grp [OF first_plus])

lemma first_grp_star: "list_all P u \<Longrightarrow> stops P s \<Longrightarrow>
    first (RGrp g (RStar (RCls P))) (p, u @ s, c) (rev u @ p, s, (g, length p, u) # c)"
  by (rule first_grp [OF first_star])

text \<open>A group of any characters, greedy: the last place where what follows can match.\<close>

lemma rm_grp_star_any:
  "rm (RGrp g (RStar (RCls P))) (p, s, c) =
     map (\<lambda>k. (rev (take k s) @ p, drop k s, (g, length p, take k s) # c)) (rev [0..<Suc (length (takeWhile P s))])"
  by (auto simp: rm_eqs(7) rm_star_cls_list comp_def simp del: upt_Suc
      dest!: length_takeWhile_le [THEN [2] order_trans] simp: less_Suc_eq_le min_def)

lemma rm_grp_lazy_any:
  "rm (RGrp g (RLazy (RCls P))) (p, s, c) =
     map (\<lambda>k. (rev (take k s) @ p, drop k s, (g, length p, take k s) # c)) [0..<Suc (length (takeWhile P s))]"
  by (auto simp: rm_eqs(7) rm_lazy_cls_list comp_def simp del: upt_Suc
      dest!: length_takeWhile_le [THEN [2] order_trans] simp: less_Suc_eq_le min_def)

lemma first_grp_greedy:
  assumes "list_all P u" and "first b (rev u @ p, s, (g, length p, u) # c) y"
    and "\<And>u1 s1. s = u1 @ s1 \<Longrightarrow> u1 \<noteq> [] \<Longrightarrow> list_all P u1 \<Longrightarrow>
      rm b (rev (u @ u1) @ p, s1, (g, length p, u @ u1) # c) = []"
  shows "first (RSeq (RGrp g (RStar (RCls P))) b) (p, u @ s, c) y"
proof -
  let ?n = "length (takeWhile P (u @ s))"
  let ?st = "\<lambda>k. (rev (take k (u @ s)) @ p, drop k (u @ s), (g, length p, take k (u @ s)) # c)"
  have tw: "takeWhile P (u @ s) = u @ takeWhile P s"
    using assms(1) by (simp add: list_all_iff)
  have "rm b (?st k) = []" if k: "length u < k" "k < Suc ?n" for k
  proof -
    let ?j = "k - length u"
    have "list_all P (take ?j s)"
    proof -
      have "?j \<le> length (takeWhile P s)" using k tw by simp
      then have "take ?j s = take ?j (takeWhile P s)" by (metis takeWhile_eq_take take_take min.absorb1)
      then show ?thesis by (metis in_set_takeD list_all_iff set_takeWhileD)
    qed
    moreover have "take ?j s \<noteq> []"
    proof -
      have "length (takeWhile P s) \<le> length s" by (rule length_takeWhile_le)
      then show ?thesis using k tw by auto
    qed
    ultimately have "rm b (rev (u @ take ?j s) @ p, drop ?j s, (g, length p, u @ take ?j s) # c) = []"
      by (intro assms(3)) simp_all
    with k show ?thesis by simp
  qed
  moreover have "rev [0..<Suc ?n] = rev [Suc (length u)..<Suc ?n] @ length u # rev [0..<length u]"
  proof -
    have "[0..<Suc ?n] = [0..<length u] @ length u # [Suc (length u)..<Suc ?n]"
      using tw by (intro upt_around) simp
    then show ?thesis by simp
  qed
  ultimately show ?thesis
    using assms(2) unfolding first_def rm_eqs(3) rm_grp_star_any map_map comp_def
    by (elim exE) (rule concat_first [where y = "length u" and ys = "rev [Suc (length u)..<Suc ?n]"], auto)
qed

lemma first_grp_lazy:
  assumes "list_all P u" and "first b (rev u @ p, s, (g, length p, u) # c) y"
    and "\<And>u1 u2. u = u1 @ u2 \<Longrightarrow> u2 \<noteq> [] \<Longrightarrow> rm b (rev u1 @ p, u2 @ s, (g, length p, u1) # c) = []"
  shows "first (RSeq (RGrp g (RLazy (RCls P))) b) (p, u @ s, c) y"
proof -
  let ?n = "length (takeWhile P (u @ s))"
  let ?st = "\<lambda>k. (rev (take k (u @ s)) @ p, drop k (u @ s), (g, length p, take k (u @ s)) # c)"
  have tw: "takeWhile P (u @ s) = u @ takeWhile P s"
    using assms(1) by (simp add: list_all_iff)
  have "rm b (?st k) = []" if "k < length u" for k
    using assms(3) [of "take k u" "drop k u"] that by simp
  moreover have "[0..<Suc ?n] = [0..<length u] @ length u # [Suc (length u)..<Suc ?n]"
    using tw by (intro upt_around) simp
  ultimately show ?thesis
    using assms(2) unfolding first_def rm_eqs(3) rm_grp_lazy_any map_map comp_def
    by (elim exE) (rule concat_first [where y = "length u" and ys = "[0..<length u]"], auto)
qed

end
