(* ===== verification/Cells.thy ===== *)
theory Cells
  imports Py_Re "HOL-Library.Char_ord" "HOL-Library.List_Lexorder"
begin

text \<open>
  The library description: the record \<open>cells\<close> has a field for every name a file of the form of
  \<open>fpga/tools/cells.py\<close> defines, \<open>cells_py\<close> is that file. Of \<open>fpga/tools/clocktrace.py\<close>, \<open>first_pin\<close>
  and \<open>role\<close>, which say what a leaf cell is.
\<close>

section \<open>cells.py\<close>

text \<open>A two-input cell: its pins and its function of two bits, 0 or 1.\<close>

type_synonym gate2_cell = "(string \<times> string) \<times> (int \<Rightarrow> int \<Rightarrow> int)"

record cells =
  c_base :: "string \<Rightarrow> string"
  c_icg :: re
  c_icg_neg :: "re option"
  c_icg_clock :: string
  c_icg_enables :: "string list"
  c_flop_clocks :: "string list"
  c_q :: string
  c_latch :: re
  c_latch_low :: re
  c_latch_enables :: "string list"
  c_latch_d :: string
  c_buf :: "string list \<times> string list"
  c_inv :: "string list \<times> string list"
  c_gate2 :: "(string \<times> gate2_cell) list"
  c_macro :: re
  c_macro_clock :: string

definition base_re :: re where
  "base_re = rseq [rlit ''_X'', rplus rdigit, REol]"

definition base :: "string \<Rightarrow> string" where
  "base cell = re_sub base_re (\<lambda>m. []) cell"

definition gate2_py :: "(string \<times> gate2_cell) list" where
  "gate2_py =
     [(''AND2'', ((''A1'', ''A2''), \<lambda>a b. a AND b)),
      (''ANDN2'', ((''A1'', ''B1''), \<lambda>a b. a AND (1 - b))),
      (''NAND2'', ((''A1'', ''A2''), \<lambda>a b. 1 - (a AND b))),
      (''NOR2'', ((''A1'', ''A2''), \<lambda>a b. 1 - (a OR b))),
      (''OR2'', ((''A1'', ''A2''), \<lambda>a b. a OR b))]"

definition cells_py :: cells where
  "cells_py =
     \<lparr>c_base = base, c_icg = rlit ''ICGP'', c_icg_neg = Some (rlit ''ICGN''), c_icg_clock = ''CP'',
      c_icg_enables = [''E'', ''TE''], c_flop_clocks = [''CP'', ''CPN''], c_q = ''Q'',
      c_latch = rlit ''LAT'', c_latch_low = rlit ''LATN'', c_latch_enables = [''EN'', ''E''],
      c_latch_d = ''D'', c_buf = ([''I''], [''Z'']), c_inv = ([''I''], [''ZN'']),
      c_gate2 = gate2_py, c_macro = rlit ''sram_'', c_macro_clock = ''clk''\<rparr>"

section \<open>first\_pin and role\<close>

text \<open>\<open>next((p for p in names if p in dirs), names[-1])\<close>.\<close>

definition first_pin :: "string list \<Rightarrow> (string \<times> string) list \<Rightarrow> string res" where
  "first_pin names dirs =
     (if names = [] then Inl IndexError
      else Inr (case find (\<lambda>p. map_of dirs p \<noteq> None) names of Some p \<Rightarrow> p | None \<Rightarrow> last names))"

datatype role = Icg | IcgN | Flop | Latch | Buf | Inv | Gate2 | Macro | Comb | Blackbox

primrec role_name :: "role \<Rightarrow> string" where
  "role_name Icg = ''icg''"
| "role_name IcgN = ''icg_n''"
| "role_name Flop = ''flop''"
| "role_name Latch = ''latch''"
| "role_name Buf = ''buf''"
| "role_name Inv = ''inv''"
| "role_name Gate2 = ''gate2''"
| "role_name Macro = ''macro''"
| "role_name Comb = ''comb''"
| "role_name Blackbox = ''blackbox''"

text \<open>\<open>sorted(p for p, d in dirs.items() if d == kind)\<close>.\<close>

definition pins_of :: "string \<Rightarrow> (string \<times> string) list \<Rightarrow> string list" where
  "pins_of kind dirs = sort (map fst (filter (\<lambda>pd. snd pd = kind) dirs))"

definition cell_role :: "string \<Rightarrow> (string \<times> string) list \<Rightarrow> cells \<Rightarrow> role" where
  "cell_role cell dirs cs =
     (let ins = pins_of ''input'' dirs; outs = pins_of ''output'' dirs; b = c_base cs cell in
      if re_match (c_icg cs) b \<noteq> None then Icg
      else if (case c_icg_neg cs of None \<Rightarrow> False | Some r \<Rightarrow> re_match r b \<noteq> None) then IcgN
      else if list_ex (\<lambda>p. p \<in> set ins) (c_flop_clocks cs) \<and> c_q cs \<in> set outs then Flop
      else if re_match (c_latch cs) b \<noteq> None \<and> c_q cs \<in> set outs then Latch
      else if ins = fst (c_buf cs) \<and> outs = snd (c_buf cs) then Buf
      else if ins = fst (c_inv cs) \<and> outs = snd (c_inv cs) then Inv
      else if map_of (c_gate2 cs) b \<noteq> None then Gate2
      else if re_match (c_macro cs) cell \<noteq> None then Macro
      else Comb)"

end
