(* ===== verification/Vnet_Expr.thy ===== *)
theory Vnet_Expr
  imports Py_Re
begin

text \<open>
  Expressions of a netlist in \<open>fpga/tools/vnet.py\<close>: \<open>expr_bits\<close>, \<open>_split_top\<close> and \<open>port_bits\<close>.
  A bus is a name with its \<open>(msb, lsb)\<close> in a dictionary; a bit is \<^verbatim>\<open>n\<close>, \<^verbatim>\<open>n[3]\<close> or a
  constant \<^verbatim>\<open>0\<close>, \<^verbatim>\<open>1\<close>.
\<close>

type_synonym widths = "(string \<times> nat \<times> nat) list"

section \<open>\_split\_top\<close>

text \<open>The loop of \<open>_split_top\<close>: the depth, the part under construction and the rest.\<close>

fun split_top_loop :: "int \<Rightarrow> string \<Rightarrow> string \<Rightarrow> string list" where
  "split_top_loop depth cur [] = (if py_strip cur = [] then [] else [cur])"
| "split_top_loop depth cur (ch # s) =
     (let depth' = (if ch = CHR ''{'' then depth + 1 else if ch = CHR ''}'' then depth - 1 else depth)
      in if ch = CHR '','' \<and> depth' = 0 then cur # split_top_loop depth' [] s
         else split_top_loop depth' (cur @ [ch]) s)"

definition split_top :: "string \<Rightarrow> string list" where
  "split_top s = split_top_loop 0 [] s"

section \<open>Bits of a bus and of a constant\<close>

text \<open>\<open>range(a, b + step, step)\<close> with \<open>step\<close> -1 when \<open>a >= b\<close>.\<close>

definition index_range :: "nat \<Rightarrow> nat \<Rightarrow> nat list" where
  "index_range a b = (if a \<ge> b then rev [b..<Suc a] else [a..<Suc b])"

definition bit_name :: "string \<Rightarrow> string \<Rightarrow> string" where
  "bit_name n k = n @ ''['' @ k @ '']''"

definition bus_bits :: "string \<Rightarrow> nat \<Rightarrow> nat \<Rightarrow> string list" where
  "bus_bits n a b = map (\<lambda>k. bit_name n (show_nat k)) (index_range a b)"

definition const_bits :: "nat \<Rightarrow> int \<Rightarrow> string list" where
  "const_bits n v = map (\<lambda>k. if odd (v div 2 ^ k) then ''1'' else ''0'') (rev [0..<n])"

section \<open>expr\_bits\<close>

definition const_re :: re where
  "const_re = rseq [RGrp 1 (rplus rdigit), rchr (CHR 0x27),
     RGrp 2 (RCls (\<lambda>c. c \<in> set ''bhd'')),
     RGrp 3 (rplus (RCls (\<lambda>c. is_digit c \<or> c \<in> set ''abcdefABCDEFxXzZ_'')))]"

definition range_re :: re where
  "range_re = rseq [RGrp 1 (rplus rword), rspaces, rchr (CHR ''[''), rspaces, RGrp 2 (rplus rdigit),
     rspaces, rchr (CHR '':''), rspaces, RGrp 3 (rplus rdigit), rspaces, rchr (CHR '']'')]"

definition index_re :: re where
  "index_re = rseq [RGrp 1 (rplus rword), rspaces, rchr (CHR ''[''), rspaces, RGrp 2 (rplus rdigit),
     rspaces, rchr (CHR '']'')]"

definition name_re :: re where
  "name_re = rplus rword"

definition const_base :: "string \<Rightarrow> nat" where
  "const_base b = (if b = ''b'' then 2 else if b = ''h'' then 16 else 10)"

text \<open>What \<open>expr_bits\<close> does with an expression that is not a concatenation.\<close>

definition const_value_bits :: "rmatch \<Rightarrow> string list res" where
  "const_value_bits c =
     ebind (py_int (m_text c 1) 10) (\<lambda>n.
       ebind (py_int (filter (\<lambda>x. x \<noteq> CHR ''_'') (m_text c 3)) (const_base (m_text c 2))) (\<lambda>val.
         Inr (const_bits (nat n) val)))"

definition range_bits :: "rmatch \<Rightarrow> string list res" where
  "range_bits r =
     ebind (py_int (m_text r 2) 10) (\<lambda>a. ebind (py_int (m_text r 3) 10) (\<lambda>b.
       Inr (bus_bits (m_text r 1) (nat a) (nat b))))"

definition name_bits :: "string \<Rightarrow> widths \<Rightarrow> string list" where
  "name_bits n width =
     (case map_of width n of None \<Rightarrow> [n] | Some (a, b) \<Rightarrow> bus_bits n a b)"

definition simple_bits :: "string \<Rightarrow> widths \<Rightarrow> string list res" where
  "simple_bits expr width =
     (case re_fullmatch const_re expr of
        Some c \<Rightarrow> const_value_bits c
      | None \<Rightarrow>
     (case re_fullmatch range_re expr of
        Some r \<Rightarrow> range_bits r
      | None \<Rightarrow>
     (case re_fullmatch index_re expr of
        Some r \<Rightarrow> Inr [bit_name (m_text r 1) (m_text r 2)]
      | None \<Rightarrow>
        if re_fullmatch name_re expr \<noteq> None then Inr (name_bits expr width)
        else Inl (ValueError (''unsupported expression: '' @ expr)))))"

lemma split_top_loop_length:
  "part \<in> set (split_top_loop depth cur s) \<Longrightarrow> length part \<le> length cur + length s"
  by (induction depth cur s rule: split_top_loop.induct)
    (auto simp: Let_def split: if_splits)

lemma split_top_length: "part \<in> set (split_top s) \<Longrightarrow> length part \<le> length s"
  using split_top_loop_length [of part 0 "[]" s] by (simp add: split_top_def)

lemma py_strip_length: "length (py_strip s) \<le> length s"
  unfolding py_strip_def by (metis le_trans length_dropWhile_le length_rev)

text \<open>\<open>expr[1:-1]\<close> of a text that starts with a brace.\<close>

definition inner :: "string \<Rightarrow> string" where
  "inner s = butlast (tl s)"

function expr_bits :: "string \<Rightarrow> widths \<Rightarrow> string list res" where
  "expr_bits expr0 width =
     (let expr = py_strip expr0 in
      if expr = [] then Inr []
      else if hd expr = CHR ''{''
      then if last expr \<noteq> CHR ''}'' then Inl (AssertionError expr)
           else ebind (emap (\<lambda>part. expr_bits part width) (split_top (inner expr)))
                  (\<lambda>bss. Inr (concat bss))
      else simple_bits expr width)"
  by pat_completeness auto
termination
proof (relation "measure (\<lambda>(e, w). length e)", goal_cases)
  case (2 expr0 width x part)
  have "length part \<le> length (inner x)" using 2 split_top_length by blast
  also have "\<dots> < length x" using 2 by (cases x) (auto simp: inner_def)
  also have "\<dots> \<le> length expr0" using 2 py_strip_length by simp
  finally show ?case by simp
qed simp

declare expr_bits.simps [simp del]

definition port_bits :: "widths \<Rightarrow> string \<Rightarrow> string list" where
  "port_bits width port = name_bits port width"

section \<open>The patterns\<close>

definition const_char :: "char \<Rightarrow> bool" where
  "const_char c \<longleftrightarrow> is_digit c \<or> c \<in> set ''abcdefABCDEFxXzZ_''"

definition is_name :: "string \<Rightarrow> bool" where
  "is_name s \<longleftrightarrow> s \<noteq> [] \<and> list_all is_word s"

definition is_index :: "string \<Rightarrow> bool" where
  "is_index s \<longleftrightarrow> s \<noteq> [] \<and> list_all is_digit s"

lemma quote_not: "\<not> is_word (CHR 0x27)" "\<not> is_digit (CHR 0x27)" "\<not> is_space (CHR 0x27)"
  by code_simp+

lemma bracket_not: "\<not> is_word (CHR ''['')" "\<not> is_space (CHR ''['')" "\<not> is_digit (CHR '']'')"
  "\<not> is_space (CHR '']'')" "\<not> is_digit (CHR '':'')" "\<not> is_space (CHR '':'')" "\<not> is_word (CHR '']'')"
  by code_simp+

lemma const_re_set:
  "(p', [], c') \<in> set (rm const_re ([], s, [])) \<longleftrightarrow>
     (\<exists>ns b vs. s = ns @ CHR 0x27 # b # vs \<and> is_index ns \<and> b \<in> set ''bhd'' \<and> vs \<noteq> [] \<and> list_all const_char vs \<and>
       p' = rev s \<and> c' = [(3, length ns + 2, vs), (2, length ns + 1, [b]), (1, 0, ns)])"
proof -
  have "(p', [], c') \<in> set (rm const_re ([], s, [])) \<longleftrightarrow>
     (\<exists>ns b vs. s = ns @ CHR 0x27 # b # vs \<and> is_index ns \<and> b \<in> set ''bhd'' \<and> vs \<noteq> [] \<and> list_all const_char vs \<and>
       p' = rev vs @ b # CHR 0x27 # rev ns \<and>
       c' = [(3, length ns + 2, vs), (2, length ns + 1, [b]), (1, 0, ns)])"
    unfolding const_re_def rm_forward is_index_def const_char_def [symmetric] by fastforce
  then show ?thesis by (metis (no_types, opaque_lifting) append.assoc append_Cons append_Nil rev.simps(2) rev_append)
qed

lemma const_fullmatch:
  assumes "is_index ns" and "b \<in> set ''bhd''" and "vs \<noteq> []" and "list_all const_char vs"
  shows "re_fullmatch const_re (ns @ CHR 0x27 # b # vs) = Some (0, rev (ns @ CHR 0x27 # b # vs), [],
    [(3, length ns + 2, vs), (2, length ns + 1, [b]), (1, 0, ns)])"
proof (rule fullmatch_unique)
  show "(rev (ns @ CHR 0x27 # b # vs), [], [(3, length ns + 2, vs), (2, length ns + 1, [b]), (1, 0, ns)])
    \<in> set (rm const_re ([], ns @ CHR 0x27 # b # vs, []))"
    unfolding const_re_set using assms by blast
next
  fix p' c' assume "(p', [], c') \<in> set (rm const_re ([], ns @ CHR 0x27 # b # vs, []))"
  then obtain ns' b' vs' where e: "ns @ CHR 0x27 # b # vs = ns' @ CHR 0x27 # b' # vs'" and "is_index ns'"
    and r: "p' = rev (ns @ CHR 0x27 # b # vs)" "c' = [(3, length ns' + 2, vs'), (2, length ns' + 1, [b']), (1, 0, ns')]"
    unfolding const_re_set by blast
  then have "ns = ns' \<and> CHR 0x27 = CHR 0x27 \<and> b # vs = b' # vs'"
    using assms quote_not by (intro class_split [OF e, of is_digit]) (simp_all add: is_index_def)
  with r show "(p', c') = (rev (ns @ CHR 0x27 # b # vs),
      [(3, length ns + 2, vs), (2, length ns + 1, [b]), (1, 0, ns)])" by simp
qed

lemma const_fullmatch_None: "CHR 0x27 \<notin> set s \<Longrightarrow> re_fullmatch const_re s = None"
  unfolding fullmatch_None_iff const_re_set by auto

lemma range_re_set:
  assumes "(p', [], c') \<in> set (rm range_re ([], s, []))"
  shows "\<exists>n w1 w2 a w3 w4 b w5. s = n @ w1 @ ''['' @ w2 @ a @ w3 @ '':'' @ w4 @ b @ w5 @ '']'' \<and>
    is_name n \<and> is_index a \<and> is_index b \<and> list_all (list_all is_space) [w1, w2, w3, w4, w5] \<and> p' = rev s \<and>
    map (\<lambda>(g, i, t). (g, t)) c' = [(3, b), (2, a), (1, n)]"
  using assms unfolding range_re_def rm_forward is_index_def is_name_def
  by (elim exE conjE) (simp, blast)

lemma index_re_set:
  assumes "(p', [], c') \<in> set (rm index_re ([], s, []))"
  shows "\<exists>n w1 w2 a w3. s = n @ w1 @ ''['' @ w2 @ a @ w3 @ '']'' \<and>
    is_name n \<and> is_index a \<and> list_all (list_all is_space) [w1, w2, w3] \<and> p' = rev s \<and>
    map (\<lambda>(g, i, t). (g, t)) c' = [(2, a), (1, n)]"
  using assms unfolding index_re_def rm_forward is_index_def is_name_def
  by (elim exE conjE) (simp, blast)

lemma name_fullmatch: "re_fullmatch name_re s \<noteq> None \<longleftrightarrow> is_name s"
  unfolding fullmatch_None_iff name_re_def rm_plus_cls is_name_def by auto

section \<open>What expr\_bits returns\<close>

text \<open>A bit: a constant or a name, or a name with an index in brackets.\<close>

definition is_bit :: "string \<Rightarrow> bool" where
  "is_bit b \<longleftrightarrow> is_name b \<or> (\<exists>n k. is_name n \<and> is_index k \<and> b = bit_name n k)"

lemma is_bitI [intro]:
  "is_name n \<Longrightarrow> is_bit n"
  "is_name n \<Longrightarrow> is_index k \<Longrightarrow> is_bit (bit_name n k)"
  by (auto simp: is_bit_def)

lemma show_nat_num: "is_index (show_nat k)"
  using show_nat_digits by (simp add: is_index_def)

lemma bus_bits_wf: "is_name n \<Longrightarrow> b \<in> set (bus_bits n x y) \<Longrightarrow> is_bit b"
  by (auto simp: bus_bits_def show_nat_num)

lemma const_bits_wf: "b \<in> set (const_bits n v) \<Longrightarrow> is_bit b"
proof -
  assume "b \<in> set (const_bits n v)"
  then have "b = ''0'' \<or> b = ''1''" by (auto simp: const_bits_def)
  moreover have "is_name ''0''" "is_name ''1''" by code_simp+
  ultimately show ?thesis by (auto simp: is_bit_def)
qed

lemma name_bits_wf: "is_name n \<Longrightarrow> b \<in> set (name_bits n w) \<Longrightarrow> is_bit b"
  by (auto simp: name_bits_def dest: bus_bits_wf split: option.splits)

lemma range_fullmatchD:
  assumes "re_fullmatch range_re s = Some m"
  shows "is_name (m_text m 1) \<and> is_index (m_text m 2) \<and> is_index (m_text m 3)"
  using fullmatch_SomeD [OF assms]
  by (auto dest!: range_re_set simp: m_text_def m_group_def map_eq_Cons_conv)

lemma index_fullmatchD:
  assumes "re_fullmatch index_re s = Some m"
  shows "is_name (m_text m 1) \<and> is_index (m_text m 2)"
  using fullmatch_SomeD [OF assms]
  by (auto dest!: index_re_set simp: m_text_def m_group_def map_eq_Cons_conv)

lemma simple_bits_wf:
  assumes "simple_bits e w = Inr bs" and "b \<in> set bs"
  shows "is_bit b"
proof (cases "re_fullmatch const_re e")
  case (Some c)
  with assms show ?thesis by (auto simp: simple_bits_def const_value_bits_def res_simps const_bits_wf)
next
  case c: None
  show ?thesis
  proof (cases "re_fullmatch range_re e")
    case (Some r)
    with assms c range_fullmatchD [OF Some] show ?thesis
      by (auto simp: simple_bits_def range_bits_def res_simps bus_bits_wf)
  next
    case r: None
    show ?thesis
    proof (cases "re_fullmatch index_re e")
      case (Some i)
      with assms c r index_fullmatchD [OF Some] show ?thesis
        by (auto simp: simple_bits_def)
    next
      case None
      with assms c r name_fullmatch [of e] show ?thesis
        by (auto simp: simple_bits_def name_bits_wf split: if_splits)
    qed
  qed
qed

lemma expr_bits_bits: "expr_bits e w = Inr bs \<Longrightarrow> b \<in> set bs \<Longrightarrow> is_bit b"
proof (induction e w arbitrary: bs rule: expr_bits.induct)
  case (1 e w)
  let ?x = "py_strip e"
  consider "?x = []" | "?x \<noteq> []" "hd ?x = CHR ''{''" | "?x \<noteq> []" "hd ?x \<noteq> CHR ''{''" by blast
  then show ?case
  proof cases
    case 1
    with "1.prems" show ?thesis by (simp add: expr_bits.simps [of e w])
  next
    case 2
    with "1.prems"(1) obtain bss where last: "\<not> last ?x \<noteq> CHR ''}''"
      and bss: "emap (\<lambda>part. expr_bits part w) (split_top (inner ?x)) = Inr bss" "bs = concat bss"
      by (auto simp: expr_bits.simps [of e w] Let_def res_simps split: if_splits)
    then obtain cs where cs: "cs \<in> set bss" "b \<in> set cs" using "1.prems"(2) by auto
    then obtain part where "part \<in> set (split_top (inner ?x))" "expr_bits part w = Inr cs"
      using emap_result [OF bss(1)] by blast
    with "1.IH" [OF refl _ _ last] 2 cs show ?thesis by blast
  next
    case 3
    with "1.prems" show ?thesis by (auto simp: expr_bits.simps [of e w] Let_def intro: simple_bits_wf)
  qed
qed

text \<open>Constants: as many bits as the size says, most significant first.\<close>

definition bits_value :: "string list \<Rightarrow> int" where
  "bits_value bs = foldl (\<lambda>v b. 2 * v + (if b = ''1'' then 1 else 0)) 0 bs"

lemma const_bits_Suc: "const_bits (Suc n) v = (if odd (v div 2 ^ n) then ''1'' else ''0'') # const_bits n v"
  by (simp add: const_bits_def)

lemma bits_value_acc: "foldl (\<lambda>v b. 2 * v + (if b = ''1'' then 1 else 0)) a bs = a * 2 ^ length bs + bits_value bs"
proof (induction bs arbitrary: a)
  case (Cons b bs)
  show ?case
    unfolding bits_value_def using Cons [of "2 * a + (if b = ''1'' then 1 else 0)"]
      Cons [of "0 + (if b = ''1'' then 1 else 0)"]
    by (auto simp: algebra_simps)
qed (simp add: bits_value_def)

lemma length_const_bits [simp]: "length (const_bits n v) = n"
  by (simp add: const_bits_def)

lemma bits_value_Cons:
  "bits_value (b # bs) = (if b = ''1'' then 2 ^ length bs else 0) + bits_value bs"
proof -
  have "bits_value (b # bs) =
      foldl (\<lambda>v b. 2 * v + (if b = ''1'' then 1 else 0)) (if b = ''1'' then 1 else 0) bs"
    by (simp add: bits_value_def)
  then show ?thesis by (simp only: bits_value_acc) simp
qed

lemma bits_value_const: "bits_value (const_bits n v) = v mod 2 ^ n"
proof (induction n)
  case 0
  then show ?case by (simp add: const_bits_def bits_value_def)
next
  case (Suc n)
  have "bits_value (const_bits (Suc n) v) = ((v div 2 ^ n) mod 2) * 2 ^ n + v mod 2 ^ n"
    using Suc by (simp add: const_bits_Suc bits_value_Cons mod_2_eq_odd)
  also have "\<dots> = v mod 2 ^ Suc n"
    using zmod_zmult2_eq [of 2 v "2 ^ n"] by (simp add: mult.commute)
  finally show ?case .
qed

section \<open>Lists in braces\<close>

text \<open>\<open>part\<close> can stand in a list: its braces close, and no comma is outside them.\<close>

fun depth_after :: "int \<Rightarrow> char \<Rightarrow> int" where
  "depth_after d c = (if c = CHR ''{'' then d + 1 else if c = CHR ''}'' then d - 1 else d)"

fun closed_part :: "int \<Rightarrow> string \<Rightarrow> bool" where
  "closed_part d [] = (d = 0)"
| "closed_part d (c # s) = ((c = CHR '','' \<longrightarrow> d \<noteq> 0) \<and> closed_part (depth_after d c) s)"

fun join_commas :: "string list \<Rightarrow> string" where
  "join_commas [] = []"
| "join_commas [p] = p"
| "join_commas (p # ps) = p @ CHR '','' # join_commas ps"

lemma split_top_loop_part:
  "closed_part d p \<Longrightarrow> split_top_loop d cur (p @ CHR '','' # s) = (cur @ p) # split_top_loop 0 [] s"
proof (induction d p arbitrary: cur rule: closed_part.induct)
  case (2 d c p)
  then show ?case by (auto simp: Let_def)
qed (simp add: Let_def)

lemma split_top_loop_last:
  "closed_part d p \<Longrightarrow> split_top_loop d cur p = (if py_strip (cur @ p) = [] then [] else [cur @ p])"
proof (induction d p arbitrary: cur rule: closed_part.induct)
  case (2 d c p)
  then show ?case by (auto simp: Let_def)
qed simp

lemma split_join:
  assumes "ps \<noteq> []" and "\<And>p. p \<in> set ps \<Longrightarrow> closed_part 0 p" and "py_strip (last ps) \<noteq> []"
  shows "split_top (join_commas ps) = ps"
  using assms
proof (induction ps rule: join_commas.induct)
  case (2 p)
  then show ?case by (simp add: split_top_def split_top_loop_last)
next
  case (3 p q ps)
  then show ?case by (simp add: split_top_def split_top_loop_part)
qed simp

lemma expr_bits_braces:
  "expr_bits (CHR ''{'' # s @ ''}'') w =
     ebind (emap (\<lambda>part. expr_bits part w) (split_top s)) (\<lambda>bss. Inr (concat bss))"
proof -
  have sp: "\<not> is_space (CHR ''{'')" "\<not> is_space (CHR ''}'')" by code_simp+
  have "py_strip (CHR ''{'' # s @ ''}'') = CHR ''{'' # s @ ''}''"
    using sp by (intro py_strip_id) simp_all
  moreover have "inner (CHR ''{'' # s @ ''}'') = s" by (simp add: inner_def butlast_append)
  ultimately show ?thesis by (subst expr_bits.simps) (simp add: Let_def)
qed

section \<open>Names and ranges\<close>

lemma name_strip:
  assumes "is_name n"
  shows "py_strip n = n"
proof (rule py_strip_id)
  show "n \<noteq> []" "\<not> is_space (hd n)" "\<not> is_space (last n)"
    using assms by (auto simp: is_name_def list_all_iff intro!: is_word_not_space)
qed

lemma name_chars: "is_name n \<Longrightarrow> is_word (hd n) \<and> hd n \<noteq> CHR ''{'' \<and> CHR 0x27 \<notin> set n \<and> CHR ''['' \<notin> set n"
proof -
  assume n: "is_name n"
  have "\<not> is_word (CHR ''{'')" by code_simp
  with n quote_not bracket_not show ?thesis
    unfolding is_name_def list_all_iff by (metis list.set_sel(1))
qed

lemma no_bracket_None:
  assumes "CHR ''['' \<notin> set e"
  shows "re_fullmatch range_re e = None" "re_fullmatch index_re e = None"
  unfolding fullmatch_None_iff
  using assms by (auto dest!: range_re_set index_re_set)

lemma expr_bits_name:
  assumes "is_name n"
  shows "expr_bits n w = Inr (name_bits n w)"
proof -
  from name_chars [OF assms] have c: "CHR 0x27 \<notin> set n" "CHR ''['' \<notin> set n" "hd n \<noteq> CHR ''{''" by auto
  have "n \<noteq> []" using assms by (simp add: is_name_def)
  then show ?thesis
    using c name_fullmatch [of n] assms
    by (simp add: expr_bits.simps [of n w] Let_def name_strip simple_bits_def
        const_fullmatch_None no_bracket_None)
qed

lemma all_mono: "list_all P u \<Longrightarrow> (\<And>x. P x \<Longrightarrow> Q x) \<Longrightarrow> list_all Q u"
  by (simp add: list_all_iff)

text \<open>The only way the range pattern matches a text without spaces.\<close>

lemma range_split:
  assumes e: "n @ ''['' @ a @ '':'' @ b @ '']'' = n' @ w1 @ ''['' @ w2 @ a' @ w3 @ '':'' @ w4 @ b' @ w5 @ '']''"
    and "is_name n" "is_index a" "is_index b" "is_name n'" "is_index a'" "is_index b'"
    and "list_all (list_all is_space) [w1, w2, w3, w4, w5]"
  shows "n' = n \<and> a' = a \<and> b' = b"
proof -
  let ?P = "\<lambda>c. is_word c \<or> is_space c"
  have sp: "list_all is_word u \<Longrightarrow> list_all is_space v \<Longrightarrow> u' = u @ v \<Longrightarrow> list_all is_word u' \<Longrightarrow> v = []"
    for u v u' by (cases v) (auto dest: is_word_not_space)
  have pre: "list_all is_space v \<Longrightarrow> u' = v @ u \<Longrightarrow> list_all is_word u' \<Longrightarrow> v = []"
    for u v u' by (cases v) (auto dest: is_word_not_space)
  have w: "list_all is_word n" "list_all is_word a" "list_all is_word b"
    "list_all is_word n'" "list_all is_word a'" "list_all is_word b'"
    using assms(2-7) by (auto simp: is_name_def is_index_def intro: all_mono is_digit_word)
  have s: "list_all is_space w1" "list_all is_space w2" "list_all is_space w3" "list_all is_space w4"
    "list_all is_space w5" using assms(8) by simp_all
  have P: "list_all is_word u \<Longrightarrow> list_all ?P u" "list_all is_space u \<Longrightarrow> list_all ?P u" for u
    by (auto simp: list_all_iff)
  have np: "\<not> ?P (CHR ''['')" "\<not> ?P (CHR '':'')" "\<not> ?P (CHR '']'')" by code_simp+
  have 1: "n = n' @ w1 \<and> CHR ''['' = CHR ''['' \<and> a @ '':'' @ b @ '']'' = w2 @ a' @ w3 @ '':'' @ w4 @ b' @ w5 @ '']''"
    by (rule class_split [where P = ?P]) (use e w s P np in auto)
  then have 2: "a = w2 @ a' @ w3 \<and> CHR '':'' = CHR '':'' \<and> b @ '']'' = w4 @ b' @ w5 @ '']''"
    by (intro class_split [where P = ?P]) (use w s P np in auto)
  then have 3: "b = w4 @ b' @ w5 \<and> CHR '']'' = CHR '']'' \<and> [] = ([] :: string)"
    by (intro class_split [where P = ?P]) (use w s P np in auto)
  have "w1 = []" using sp [OF w(4) s(1)] 1 w(1) by blast
  moreover have "w2 = []" using pre [OF s(2)] 2 w(2) by blast
  moreover have "w4 = []" using pre [OF s(4)] 3 w(3) by blast
  moreover have "w3 = []" using sp [OF w(5) s(3)] 2 w(2) \<open>w2 = []\<close> by simp
  moreover have "w5 = []" using sp [OF w(6) s(5)] 3 w(3) \<open>w4 = []\<close> by simp
  ultimately show ?thesis using 1 2 3 by simp
qed

lemma range_re_matches:
  assumes "n \<noteq> []" "list_all is_word n" "a \<noteq> []" "list_all is_digit a" "b \<noteq> []" "list_all is_digit b"
  shows "\<exists>p c. (p, [], c) \<in> set (rm range_re ([], n @ ''['' @ a @ '':'' @ b @ '']'', []))"
  unfolding range_re_def rseq.simps append_Cons append_Nil
  by (rule exI rm_seqI rm_grp_plusI rm_star_skipI rm_clsI assms refl)+

lemma range_fullmatch:
  assumes "is_name n" "is_index a" "is_index b"
  shows "\<exists>m. re_fullmatch range_re (n @ ''['' @ a @ '':'' @ b @ '']'') = Some m \<and>
    m_text m 1 = n \<and> m_text m 2 = a \<and> m_text m 3 = b"
proof -
  let ?s = "n @ ''['' @ a @ '':'' @ b @ '']''"
  have "\<exists>p c. (p, [], c) \<in> set (rm range_re ([], ?s, []))"
    using assms by (intro range_re_matches) (simp_all add: is_name_def is_index_def)
  then obtain m where m: "re_fullmatch range_re ?s = Some m"
    by (rule fullmatch_ex)
  from fullmatch_SomeD [OF m] obtain p c where mc: "m = (0, p, [], c)"
    and "(p, [], c) \<in> set (rm range_re ([], ?s, []))" by blast
  from range_re_set [OF this(2)] obtain n' w1 w2 a' w3 w4 b' w5 where
    e: "?s = n' @ w1 @ ''['' @ w2 @ a' @ w3 @ '':'' @ w4 @ b' @ w5 @ '']''"
    and k: "is_name n'" "is_index a'" "is_index b'" "list_all (list_all is_space) [w1, w2, w3, w4, w5]"
    and g: "map (\<lambda>(g, i, t). (g, t)) c = [(3, b'), (2, a'), (1, n')]"
    by (elim exE conjE) (rule that; assumption)
  have "n' = n \<and> a' = a \<and> b' = b" by (rule range_split [OF e assms k])
  with g mc m show ?thesis by (auto simp: m_text_def m_group_def map_eq_Cons_conv)
qed

lemma expr_bits_range:
  assumes "is_name n"
  shows "expr_bits (n @ ''['' @ show_nat a @ '':'' @ show_nat b @ '']'') w = Inr (bus_bits n a b)"
proof -
  let ?s = "n @ ''['' @ show_nat a @ '':'' @ show_nat b @ '']''"
  have ne: "n \<noteq> []" using assms by (simp add: is_name_def)
  have hd: "hd ?s = hd n" using ne by simp
  have strip: "py_strip ?s = ?s"
    using ne name_chars [OF assms] bracket_not hd by (intro py_strip_id) (auto dest: is_word_not_space)
  have digits: "CHR 0x27 \<notin> set (show_nat k)" for k
    using show_nat_digits [of k] quote_not by (auto simp: list_all_iff)
  have "CHR 0x27 \<notin> set ?s" using digits name_chars [OF assms] by auto
  moreover obtain m where "re_fullmatch range_re ?s = Some m" "m_text m 1 = n"
    "m_text m 2 = show_nat a" "m_text m 3 = show_nat b"
    using range_fullmatch [OF assms show_nat_num show_nat_num] by blast
  ultimately have "simple_bits ?s w = Inr (bus_bits n a b)"
    by (simp add: simple_bits_def const_fullmatch_None range_bits_def del: append.simps)
  then show ?thesis
    using ne name_chars [OF assms] hd strip by (subst expr_bits.simps) (simp add: Let_def)
qed

section \<open>Properties\<close>



text \<open>A concatenation of parts whose braces close means the bits of its parts in order, and fails
  as its first failing part does.\<close>

theorem expr_bits_concatenation:
  assumes "ps \<noteq> []" and "list_all (closed_part 0) ps" and "py_strip (last ps) \<noteq> []"
  shows "expr_bits (CHR ''{'' # join_commas ps @ ''}'') w =
    ebind (emap (\<lambda>p. expr_bits p w) ps) (\<lambda>bss. Inr (concat bss))"
  using split_join [of ps] assms by (simp add: expr_bits_braces list_all_iff)

theorem expr_bits_concatenation_witness:
  "expr_bits (CHR ''{'' # join_commas [''a'', '' b[3:2]''] @ ''}'') [] =
    Inr [''a'', ''b[3]'', ''b[2]'']"
proof -
  have "expr_bits (CHR ''{'' # join_commas [''a'', '' b[3:2]''] @ ''}'') [] =
      ebind (emap (\<lambda>p. expr_bits p []) [''a'', '' b[3:2]'']) (\<lambda>bss. Inr (concat bss))"
    by (rule expr_bits_concatenation) code_simp+
  also have "\<dots> = Inr [''a'', ''b[3]'', ''b[2]'']" by code_simp
  finally show ?thesis .
qed

text \<open>A sized constant in base b, h or d gives exactly as many bits as its size says, most
  significant first, with its value modulo two to that size.\<close>

theorem expr_bits_constant:
  assumes "b \<in> set ''bhd''" and "vs \<noteq> []" and "list_all const_char vs"
    and "py_int (filter (\<lambda>x. x \<noteq> CHR ''_'') vs) (const_base [b]) = Inr v"
  shows "\<exists>bs. expr_bits (show_nat n @ CHR 0x27 # b # vs) w = Inr bs \<and>
    length bs = n \<and> bits_value bs = v mod 2 ^ n"
proof -
  let ?s = "show_nat n @ CHR 0x27 # b # vs"
  have ne: "show_nat n \<noteq> []" and dig: "is_digit (hd (show_nat n))"
    using show_nat_digits [of n] by (simp_all add: list_all_iff)
  have hd: "hd ?s = hd (show_nat n)" using ne by simp
  have br: "\<not> is_digit (CHR ''{'')" by code_simp
  have "const_char (last vs)" using assms(2,3) by (simp add: list_all_iff)
  then have "is_word (last vs)"
  proof -
    have "list_all is_word ''abcdefABCDEFxXzZ_''" by code_simp
    then show ?thesis using \<open>const_char (last vs)\<close> is_digit_word
      unfolding const_char_def list_all_iff by blast
  qed
  then have strip: "py_strip ?s = ?s"
    using ne dig hd assms(2) by (intro py_strip_id) (auto dest: is_word_not_space is_digit_word)
  have "re_fullmatch const_re ?s = Some (0, rev ?s, [],
      [(3, length (show_nat n) + 2, vs), (2, length (show_nat n) + 1, [b]), (1, 0, show_nat n)])"
    using const_fullmatch [OF show_nat_num assms(1-3)] .
  then have "simple_bits ?s w = Inr (const_bits n v)"
    using assms(4) by (simp add: simple_bits_def const_value_bits_def m_text_def m_group_def)
  then have "expr_bits ?s w = Inr (const_bits n v)"
    using ne dig br hd strip by (subst expr_bits.simps) (auto simp: Let_def)
  then show ?thesis by (simp add: bits_value_const)
qed

theorem expr_bits_constant_witness:
  "\<exists>bs. expr_bits (show_nat 4 @ CHR 0x27 # CHR ''h'' # ''1A'') [] = Inr bs \<and>
    length bs = 4 \<and> bits_value bs = 26 mod 2 ^ 4"
  by (rule expr_bits_constant) code_simp+

text \<open>The name of a declared bus, the same bus written with its full range, and the port of that
  name have the same bits in the same order.\<close>

theorem expr_bits_bus_is_range:
  assumes "is_name n" and "map_of width n = Some (a, b)"
  shows "expr_bits n width = Inr (bus_bits n a b) \<and>
    expr_bits (n @ ''['' @ show_nat a @ '':'' @ show_nat b @ '']'') width = Inr (bus_bits n a b) \<and>
    port_bits width n = bus_bits n a b"
  using assms expr_bits_name [OF assms(1)] expr_bits_range [OF assms(1)]
  by (simp add: name_bits_def port_bits_def)

theorem expr_bits_bus_is_range_witness:
  "expr_bits ''d'' [(''d'', 1, 0)] = Inr (bus_bits ''d'' 1 0) \<and>
   expr_bits (''d'' @ ''['' @ show_nat 1 @ '':'' @ show_nat 0 @ '']'') [(''d'', 1, 0)] =
     Inr (bus_bits ''d'' 1 0) \<and> port_bits [(''d'', 1, 0)] ''d'' = bus_bits ''d'' 1 0"
proof (rule expr_bits_bus_is_range)
  show "is_name ''d''" by code_simp
qed simp

end
