(* ===== verification/Vnet_Parse.thy ===== *)
theory Vnet_Parse
  imports Vnet_Expr
begin

text \<open>
  Reading a netlist: \<open>parse\<close> and \<open>read_cell_dirs\<close> of \<open>fpga/tools/vnet.py\<close>, the classes \<open>Inst\<close> and
  \<open>Module\<close>, and the patterns they use. A file is its text; the dictionaries whose order the code
  uses are association lists.
\<close>

section \<open>Inst and Module\<close>

record inst =
  i_cell :: string
  i_name :: string
  i_conns :: "(string \<times> string) list"
  i_start :: nat
  i_end :: nat

record module =
  md_name :: string
  md_ports :: "string list"
  md_text :: string
  md_start :: nat
  md_end :: nat
  md_dirs :: "(string \<times> string) list"
  md_width :: widths
  md_insts :: "inst list"
  md_assigns :: "(string \<times> string) list"
  md_supply :: "(string \<times> string) list"

type_synonym modules = "(string \<times> module) list"

definition module_init :: "string \<Rightarrow> string list \<Rightarrow> string \<Rightarrow> nat \<Rightarrow> nat \<Rightarrow> module" where
  "module_init name ports text s e =
     \<lparr>md_name = name, md_ports = ports, md_text = text, md_start = s, md_end = e,
      md_dirs = [], md_width = [], md_insts = [], md_assigns = [], md_supply = []\<rparr>"

section \<open>The patterns\<close>

definition not_in :: "string \<Rightarrow> char \<Rightarrow> bool" where
  "not_in cs c \<longleftrightarrow> c \<notin> set cs"

definition comment_re :: re where
  "comment_re = RAlt (rseq [rlit ''//'', RStar (RCls (not_in [CHR 0x0A]))])
     (rseq [rlit ''/*'', RLazy rany, rlit ''*/''])"

definition module_re :: re where
  "module_re = rseq [RWordB, rlit ''module'', rplus (RCls is_space), RGrp 1 (rplus rword), rspaces,
     rchr (CHR ''(''), RGrp 2 (RLazy rany), rchr (CHR '')''), rspaces, rchr (CHR '';''),
     RGrp 3 (RLazy rany), RWordB, rlit ''endmodule'', RWordB]"

definition decl_re :: re where
  "decl_re = rseq [RBol, rspaces,
     RGrp 1 (ralt [''input'', ''output'', ''inout'', ''wire'', ''tri'', ''supply0'', ''supply1'']), RWordB,
     rspaces,
     ropt (RGrp 2 (rseq [rchr (CHR ''[''), rspaces, RGrp 3 (rplus rdigit), rspaces, rchr (CHR '':''),
       rspaces, RGrp 4 (rplus rdigit), rspaces, rchr (CHR '']'')])),
     rspaces, RGrp 5 (RStar rany), REol]"

definition inst_re :: re where
  "inst_re = rseq [RBol, rspaces, RGrp 1 (rplus rword), rplus (RCls is_space), RGrp 2 (rplus rword),
     rspaces, rchr (CHR ''(''), RGrp 3 (RStar rany), rchr (CHR '')''), rspaces, REol]"

definition conn_re :: re where
  "conn_re = rseq [rchr (CHR ''.''), RGrp 1 (rplus rword), rspaces, rchr (CHR ''(''), rspaces,
     RGrp 2 (RLazy (RCls (not_in ''()''))), rspaces, rchr (CHR '')'')]"

section \<open>parse\<close>

text \<open>\<open>text\<close>: every comment is overwritten with as many spaces, so that positions stay.\<close>

definition m_length :: "rmatch \<Rightarrow> nat" where
  "m_length m = m_end m - fst m"

definition blank_comments :: "string \<Rightarrow> string" where
  "blank_comments src = re_sub comment_re (\<lambda>m. replicate (m_length m) (CHR '' '')) src"

text \<open>\<open>[n.strip() for n in s.split(',') if n.strip()]\<close>.\<close>

definition comma_names :: "string \<Rightarrow> string list" where
  "comma_names s = filter (\<lambda>n. n \<noteq> []) (map py_strip (split_on (CHR '','') s))"

text \<open>The loop over the names of a declaration.\<close>

definition declare_name :: "rmatch \<Rightarrow> module \<Rightarrow> string \<Rightarrow> module res" where
  "declare_name d md n =
     ebind (case m_group d 2 of
              None \<Rightarrow> Inr md
            | Some _ \<Rightarrow> ebind (py_int (m_text d 3) 10) (\<lambda>a. ebind (py_int (m_text d 4) 10) (\<lambda>b.
                Inr (md\<lparr>md_width := dict_set n (nat a, nat b) (md_width md)\<rparr>))))
       (\<lambda>md1.
         let kind = m_text d 1 in
         if kind \<in> {''input'', ''output'', ''inout''}
         then Inr (md1\<lparr>md_dirs := dict_set n kind (md_dirs md1)\<rparr>)
         else if kind \<in> {''supply0'', ''supply1''}
         then Inr (md1\<lparr>md_supply := dict_set n [last kind] (md_supply md1)\<rparr>)
         else Inr md1)"

definition parse_decl :: "rmatch \<Rightarrow> module \<Rightarrow> module res" where
  "parse_decl d md = efold (declare_name d) md (comma_names (m_text d 5))"

text \<open>\<open>st[len('assign'):].split('=', 1)\<close>, which does not unpack when there is no \<open>=\<close>.\<close>

definition parse_assign :: "string \<Rightarrow> module \<Rightarrow> module res" where
  "parse_assign st md =
     (let s = drop 6 st;
          lhs = takeWhile (\<lambda>c. c \<noteq> CHR ''='') s
      in case drop (length lhs) s of
           [] \<Rightarrow> Inl (ValueError ''not enough values to unpack'')
         | _ # rhs \<Rightarrow> Inr (md\<lparr>md_assigns := md_assigns md @ [(py_strip lhs, py_strip rhs)]\<rparr>))"

text \<open>\<open>{p: e for p, e in _CONN.findall(s)}\<close>.\<close>

definition parse_conns :: "string \<Rightarrow> (string \<times> string) list" where
  "parse_conns s = foldl (\<lambda>d m. dict_set (m_text m 1) (m_text m 2) d) [] (re_finditer conn_re s)"

definition parse_inst :: "string \<Rightarrow> string \<Rightarrow> nat \<Rightarrow> nat \<Rightarrow> module \<Rightarrow> module res" where
  "parse_inst name st s0 s1 md =
     (case re_match inst_re st of
        None \<Rightarrow> Inl (ValueError (name @ '': cannot parse statement: '' @ take 120 st))
      | Some i \<Rightarrow> Inr (md\<lparr>md_insts := md_insts md @
          [\<lparr>i_cell = m_text i 1, i_name = m_text i 2, i_conns = parse_conns (m_text i 3),
            i_start = s0, i_end = s1\<rparr>]\<rparr>))"

text \<open>The loop body over the statements of a module, with the position of the next statement.\<close>

definition parse_stmt :: "string \<Rightarrow> nat \<times> module \<Rightarrow> string \<Rightarrow> (nat \<times> module) res" where
  "parse_stmt name pm stmt =
     (case pm of (pos, md) \<Rightarrow>
       let s0 = pos; s1 = pos + length stmt; pos' = s1 + 1; st = py_strip stmt in
       if st = [] then Inr (pos', md)
       else case re_match decl_re st of
           Some d \<Rightarrow> ebind (parse_decl d md) (\<lambda>md'. Inr (pos', md'))
         | None \<Rightarrow>
             ebind (if prefix ''assign'' st then parse_assign st md else parse_inst name st s0 s1 md)
               (\<lambda>md'. Inr (pos', md')))"

definition parse_module :: "rmatch \<Rightarrow> module res" where
  "parse_module m =
     (let name = m_text m 1; body = m_text m 3;
          md = module_init name (comma_names (m_text m 2)) body (m_start m 3) (m_start m 3 + length body)
      in ebind (efold (parse_stmt name) (0, md) (split_on (CHR '';'') body)) (\<lambda>pm. Inr (snd pm)))"

definition parse :: "string \<Rightarrow> (modules \<times> string) res" where
  "parse src =
     (let text = blank_comments src in
      ebind (efold (\<lambda>mods m. ebind (parse_module m) (\<lambda>md. Inr (dict_set (m_text m 1) md mods)))
               [] (re_finditer module_re text))
        (\<lambda>mods. Inr (mods, text)))"

section \<open>read\_cell\_dirs\<close>

definition cell_module_re :: re where
  "cell_module_re = rseq [RWordB, rlit ''module'', rplus (RCls is_space), RGrp 1 (rplus rword), rspaces,
     ropt (RGrp 2 (rseq [rchr (CHR ''#''), rspaces, rchr (CHR ''(''), RLazy rany, rchr (CHR '')''), rspaces])),
     rchr (CHR ''(''), RGrp 3 (RLazy rany), rchr (CHR '')''), rspaces, rchr (CHR '';''),
     RGrp 4 (RLazy rany), RWordB, rlit ''endmodule'', RWordB]"

text \<open>\<^verbatim>\<open>(input|output|inout)\b(?:\s+(?:wire|reg|logic))?(?:\s*\[[^\]]*\])?\s*\<close>, in both patterns.\<close>

definition dir_prefix :: "re list" where
  "dir_prefix = [RGrp 1 (ralt [''input'', ''output'', ''inout'']), RWordB,
     ropt (rseq [rplus (RCls is_space), ralt [''wire'', ''reg'', ''logic'']]),
     ropt (rseq [rspaces, rchr (CHR ''[''), RStar (RCls (not_in '']'')), rchr (CHR '']'')]), rspaces]"

definition ansi_re :: re where
  "ansi_re = rseq (dir_prefix @ [RGrp 2 (rplus rword), REol])"

definition body_decl_re :: re where
  "body_decl_re = rseq ([RBolM, rspaces] @ dir_prefix @ [RGrp 2 (RStar (RCls (not_in '';''))), rchr (CHR '';'')])"

text \<open>The directions an ANSI header gives; a name without a direction has that of the name before.\<close>

definition ansi_token :: "string option \<times> (string \<times> string) list \<Rightarrow> string \<Rightarrow>
    string option \<times> (string \<times> string) list" where
  "ansi_token cd tok =
     (case cd of (cur, d) \<Rightarrow>
       let t = py_strip tok in
       case re_match ansi_re t of
         Some mm \<Rightarrow> (Some (m_text mm 1), dict_set (m_text mm 2) (m_text mm 1) d)
       | None \<Rightarrow>
          (case cur of
             Some c \<Rightarrow> if re_fullmatch name_re t \<noteq> None then (cur, dict_set t c d) else (cur, d)
           | None \<Rightarrow> (cur, d)))"

definition ansi_dirs :: "string \<Rightarrow> (string \<times> string) list" where
  "ansi_dirs hdr = snd (foldl ansi_token (None, []) (split_on (CHR '','') hdr))"

definition body_decl :: "(string \<times> string) list \<Rightarrow> rmatch \<Rightarrow> (string \<times> string) list" where
  "body_decl d mm = foldl (\<lambda>d n0. let n = py_strip n0 in
      if re_fullmatch name_re n \<noteq> None then dict_set n (m_text mm 1) d else d)
     d (split_on (CHR '','') (m_text mm 2))"

definition cell_dirs_of :: "rmatch \<Rightarrow> (string \<times> string) list" where
  "cell_dirs_of m = foldl body_decl (ansi_dirs (m_text m 3)) (re_finditer body_decl_re (m_text m 4))"

type_synonym cell_dirs = "(string \<times> (string \<times> string) list) list"

definition read_cell_dirs :: "string list \<Rightarrow> cell_dirs" where
  "read_cell_dirs files = foldl (\<lambda>dirs src.
      foldl (\<lambda>dirs m. dict_set (m_text m 1) (cell_dirs_of m) dirs) dirs
        (re_finditer cell_module_re (re_sub comment_re (\<lambda>m. '' '') src))) [] files"

end
