(* ===== verification/Union_Find.thy ===== *)
theory Union_Find
  imports Prelude
begin

text \<open>
  The union-find structure of the class \<open>Flat\<close> in \<open>fpga/tools/vnet.py\<close>: the dictionaries
  \<open>parent\<close> and \<open>const\<close> and the methods \<open>key\<close>, \<open>find\<close> and \<open>union\<close>. The loop of \<open>find\<close>, which
  halves the path it climbs, is a \<open>partial_function\<close>: a loop that does not end is \<open>NonTermination\<close>.
  The locale \<open>connector\<close> states what the netlist needs from the structure; it is interpreted on
  these definitions at the end.
\<close>

section \<open>parent, const, key, find, union\<close>

type_synonym parents = "string \<rightharpoonup> string"

record uf =
  uf_parent :: parents
  uf_const :: "(string \<times> string) list"

definition uf_init :: uf where
  "uf_init = \<lparr>uf_parent = Map.empty, uf_const = []\<rparr>"

text \<open>\<open>parent.setdefault(k, k)\<close>.\<close>

definition par_default :: "string \<Rightarrow> parents \<Rightarrow> parents" where
  "par_default k par = (case par k of None \<Rightarrow> par(k \<mapsto> k) | Some _ \<Rightarrow> par)"

definition is_const_bit :: "string \<Rightarrow> bool" where
  "is_const_bit b \<longleftrightarrow> b = ''0'' \<or> b = ''1''"

definition const_key :: "string \<Rightarrow> string" where
  "const_key b = ''const/'' @ b"

definition net_key :: "string \<Rightarrow> string \<Rightarrow> string" where
  "net_key path b = (if is_const_bit b then const_key b else path @ CHR ''/'' # b)"

definition key :: "string \<Rightarrow> string \<Rightarrow> uf \<Rightarrow> string \<times> uf" where
  "key path b st =
     (let k = net_key path b; st1 = st\<lparr>uf_parent := par_default k (uf_parent st)\<rparr> in
      if is_const_bit b then (k, st1\<lparr>uf_const := dict_set k b (uf_const st1)\<rparr>)
      else (k, st1))"

text \<open>The loop of \<open>find\<close>: \<open>parent[p] = parent[parent[p]]; p = parent[p]\<close>.\<close>

partial_function (option) find_loop :: "parents \<Rightarrow> string \<Rightarrow> (string \<times> parents) res option" where
  "find_loop par p =
     (case par p of
        None \<Rightarrow> Some (Inl (KeyError p))
      | Some q \<Rightarrow>
          if p = q then Some (Inr (p, par))
          else (case par q of
                  None \<Rightarrow> Some (Inl (KeyError q))
                | Some g \<Rightarrow> find_loop (par(p \<mapsto> g)) g))"

declare find_loop.simps [code]

definition uf_find :: "string \<Rightarrow> uf \<Rightarrow> (string \<times> uf) res" where
  "uf_find k st =
     (let par = par_default k (uf_parent st) in
      case find_loop par (the (par k)) of
        None \<Rightarrow> Inl NonTermination
      | Some (Inl e) \<Rightarrow> Inl e
      | Some (Inr (p, par')) \<Rightarrow> Inr (p, st\<lparr>uf_parent := par'(k \<mapsto> p)\<rparr>))"

text \<open>The end of \<open>union\<close>: \<open>ra\<close> is linked below \<open>rb\<close>, and hands its constant on.\<close>

definition uf_link :: "string \<Rightarrow> string \<Rightarrow> uf \<Rightarrow> uf" where
  "uf_link ra rb st =
     (let st1 = st\<lparr>uf_parent := (uf_parent st)(ra \<mapsto> rb)\<rparr> in
      case map_of (uf_const st1) ra of
        None \<Rightarrow> st1
      | Some v \<Rightarrow> st1\<lparr>uf_const := dict_set rb v (uf_const st1)\<rparr>)"

definition uf_union :: "string \<Rightarrow> string \<Rightarrow> uf \<Rightarrow> uf res" where
  "uf_union a b st =
     ebind (uf_find a st) (\<lambda>(ra, st1). ebind (uf_find b st1) (\<lambda>(rb, st2).
       if ra = rb then Inr st2
       else if prefix ''const/'' ra then Inr (uf_link rb ra st2)
       else Inr (uf_link ra rb st2)))"

section \<open>Roots\<close>

text \<open>\<open>climbs par k n r\<close>: from \<open>k\<close>, \<open>n\<close> steps to the parent lead to \<open>r\<close>, which is its own parent.\<close>

inductive climbs :: "parents \<Rightarrow> string \<Rightarrow> nat \<Rightarrow> string \<Rightarrow> bool" for par where
  root: "par r = Some r \<Longrightarrow> climbs par r 0 r"
| step: "par k = Some p \<Longrightarrow> p \<noteq> k \<Longrightarrow> climbs par p n r \<Longrightarrow> climbs par k (Suc n) r"

inductive_cases climbs_0E: "climbs par k 0 r"
inductive_cases climbs_SucE: "climbs par k (Suc n) r"

definition root_of :: "parents \<Rightarrow> string \<Rightarrow> string \<Rightarrow> bool" where
  "root_of par k r \<longleftrightarrow> (\<exists>n. climbs par k n r)"

text \<open>The invariant: every key leads to a root.\<close>

definition rooted :: "parents \<Rightarrow> bool" where
  "rooted par \<longleftrightarrow> (\<forall>k \<in> dom par. \<exists>r. root_of par k r)"

lemma climbs_root: "climbs par k n r \<Longrightarrow> par r = Some r"
  by (induction rule: climbs.induct)

lemma climbs_dom: "climbs par k n r \<Longrightarrow> k \<in> dom par"
  by (cases rule: climbs.cases) auto

lemma climbs_det: "climbs par k n r \<Longrightarrow> climbs par k m s \<Longrightarrow> n = m \<and> r = s"
proof (induction arbitrary: m s rule: climbs.induct)
  case (root r)
  from root.prems show ?case by (cases rule: climbs.cases) (use root.hyps in auto)
next
  case (step k p n r)
  from step.prems show ?case
  proof (cases rule: climbs.cases)
    case root
    with step.hyps(1,2) show ?thesis by simp
  next
    case (step q j)
    with \<open>par k = Some p\<close> step.IH show ?thesis by auto
  qed
qed

lemma root_of_det: "root_of par k r \<Longrightarrow> root_of par k s \<Longrightarrow> r = s"
  using climbs_det by (auto simp: root_of_def)

lemma root_of_root: "root_of par k r \<Longrightarrow> par r = Some r"
  using climbs_root by (auto simp: root_of_def)

lemma root_of_dom: "root_of par k r \<Longrightarrow> k \<in> dom par"
  unfolding root_of_def by (elim exE) (rule climbs_dom)

lemma root_of_self: "par r = Some r \<Longrightarrow> root_of par r s \<longleftrightarrow> s = r"
  using climbs.root root_of_det by (metis root_of_def)

lemma root_of_parent: "root_of par k r \<Longrightarrow> par k = Some p \<Longrightarrow> root_of par p r"
  unfolding root_of_def by (elim exE, erule climbs.cases) (auto intro: climbs.root)

lemma root_of_rootI: "par r = Some r \<Longrightarrow> root_of par r r"
  unfolding root_of_def by (blast intro: climbs.root)

lemma root_of_stepI: "par k = Some p \<Longrightarrow> root_of par p r \<Longrightarrow> root_of par k r"
  unfolding root_of_def by (cases "p = k") (blast intro: climbs.step)+

section \<open>Updates that keep the roots\<close>

text \<open>A parent may be changed for keys that are not on the way.\<close>

lemma climbs_lower:
  assumes "climbs par k n r" and "climbs par p m s" and "n < m"
  shows "climbs (par(p \<mapsto> x)) k n r"
  using assms(1,3)
proof (induction rule: climbs.induct)
  case (root r)
  then have "r \<noteq> p" using climbs_det [OF climbs.root [of par r]] assms(2) by blast
  with root show ?case by (intro climbs.root) simp
next
  case (step k q n r)
  have "climbs par k (Suc n) r" by (rule climbs.step [OF step.hyps])
  then have "k \<noteq> p" using climbs_det assms(2) step.prems by blast
  with step show ?case by (auto intro!: climbs.step)
qed

text \<open>Compression: \<open>p\<close> gets a parent \<open>x\<close> that is closer to its root.\<close>

lemma compress_roots:
  assumes p: "climbs par p n r" and x: "climbs par x m r" and "m < n"
    and k: "climbs par k j s"
  shows "root_of (par(p \<mapsto> x)) k s"
  using k
proof (induction rule: climbs.induct)
  case (root t)
  have "t \<noteq> p" using climbs_det [OF climbs.root [of par t, OF root]] p \<open>m < n\<close> by blast
  with root show ?case by (intro root_of_rootI) simp
next
  case (step k q j s)
  show ?case
  proof (cases "k = p")
    case True
    have "climbs par k (Suc j) s" using step by (blast intro: climbs.step)
    then have "s = r" using climbs_det p True by blast
    moreover have "x \<noteq> p" using climbs_det [OF x] p \<open>m < n\<close> by blast
    moreover have "root_of (par(p \<mapsto> x)) x r"
      using climbs_lower [OF x p \<open>m < n\<close>, of x] unfolding root_of_def by blast
    ultimately show ?thesis unfolding True by (simp only:) (rule root_of_stepI [of _ p x], simp)
  next
    case False
    with step show ?thesis by (intro root_of_stepI [of _ k q]) simp_all
  qed
qed

lemma compress_rel:
  assumes "rooted par" and "climbs par p n r" and "climbs par x m r" and "m < n"
  shows "root_of (par(p \<mapsto> x)) = root_of par"
proof (intro ext iffI)
  fix k s
  assume s: "root_of (par(p \<mapsto> x)) k s"
  then have "k \<in> dom par" using root_of_dom [OF s] climbs_dom [OF assms(2)] by auto
  then obtain t j where t: "climbs par k j t" using assms(1) unfolding rooted_def root_of_def by blast
  with compress_roots [OF assms(2-4)] s have "s = t" using root_of_det by blast
  with t show "root_of par k s" by (auto simp: root_of_def)
next
  fix k s
  assume "root_of par k s"
  then show "root_of (par(p \<mapsto> x)) k s" using compress_roots [OF assms(2-4)] by (auto simp: root_of_def)
qed

lemma rooted_same_rel:
  assumes "rooted par" and "root_of par' = root_of par" and "dom par' = dom par"
  shows "rooted par'"
  using assms by (simp add: rooted_def)

lemma default_rel:
  assumes "rooted par"
  shows "rooted (par_default k par)"
    and "root_of (par_default k par) a r \<longleftrightarrow> root_of par a r \<or> (k \<notin> dom par \<and> a = k \<and> r = k)"
    and "dom (par_default k par) = insert k (dom par)"
proof -
  show dom: "dom (par_default k par) = insert k (dom par)"
    by (auto simp: par_default_def split: option.splits)
  have up: "root_of (par(k \<mapsto> k)) a r" if new: "k \<notin> dom par" and a: "root_of par a r" for a r
  proof -
    from a obtain n where "climbs par a n r" by (auto simp: root_of_def)
    then have "climbs (par(k \<mapsto> k)) a n r"
    proof (induction rule: climbs.induct)
      case (root r)
      with new show ?case by (intro climbs.root) auto
    next
      case (step a p n r)
      with new show ?case by (intro climbs.step [of _ a p]) auto
    qed
    then show ?thesis by (auto simp: root_of_def)
  qed
  have self: "root_of (par(k \<mapsto> k)) k r \<longleftrightarrow> r = k" for r by (simp add: root_of_self)
  show rel: "root_of (par_default k par) a r \<longleftrightarrow> root_of par a r \<or> (k \<notin> dom par \<and> a = k \<and> r = k)" for a r
  proof (cases "k \<in> dom par")
    case True
    then show ?thesis by (auto simp: par_default_def)
  next
    case False
    then have d: "par_default k par = par(k \<mapsto> k)" by (auto simp: par_default_def split: option.splits)
    show ?thesis
    proof (cases "a = k")
      case True
      with False self d root_of_dom [of par k] show ?thesis by auto
    next
      case ne: False
      have "root_of (par(k \<mapsto> k)) a r \<Longrightarrow> root_of par a r"
      proof -
        assume r: "root_of (par(k \<mapsto> k)) a r"
        then have "a \<in> dom par" using root_of_dom [OF r] ne by auto
        then obtain s where "root_of par a s" using assms by (auto simp: rooted_def)
        with up [OF False this] r show ?thesis using root_of_det by metis
      qed
      with up [OF False] ne d show ?thesis by auto
    qed
  qed
  show "rooted (par_default k par)"
    using assms unfolding rooted_def dom rel by auto
qed

section \<open>find returns the root\<close>

lemma find_loop_root:
  assumes "climbs par p n r" and "rooted par"
  shows "\<exists>par'. find_loop par p = Some (Inr (r, par')) \<and> root_of par' = root_of par \<and> dom par' = dom par"
  using assms
proof (induction n arbitrary: par p rule: less_induct)
  case (less n)
  from less.prems(1) show ?case
  proof (cases rule: climbs.cases)
    case root
    then show ?thesis by (simp add: find_loop.simps)
  next
    case (step q m)
    obtain g where g: "par q = Some g" using climbs_dom [OF step(4)] by auto
    have low: "\<exists>j < n. climbs par g j r \<and> climbs (par(p \<mapsto> g)) g j r"
    proof -
      have "\<exists>j < n. climbs par g j r"
        using step(4)
      proof (cases rule: climbs.cases)
        case root
        with g step show ?thesis by (auto intro: climbs.root)
      next
        case (step g' m')
        with g \<open>n = Suc m\<close> show ?thesis by (intro exI [of _ m']) auto
      qed
      then show ?thesis using climbs_lower [OF _ less.prems(1)] by blast
    qed
    then obtain j where j: "j < n" "climbs par g j r" "climbs (par(p \<mapsto> g)) g j r" by blast
    have rel: "root_of (par(p \<mapsto> g)) = root_of par"
      using compress_rel [OF less.prems(2,1) j(2,1)] .
    have dom: "dom (par(p \<mapsto> g)) = dom par" using climbs_dom [OF less.prems(1)] by auto
    from less.IH [OF j(1,3) rooted_same_rel [OF less.prems(2) rel dom]]
    obtain par' where "find_loop (par(p \<mapsto> g)) g = Some (Inr (r, par'))"
      "root_of par' = root_of par" "dom par' = dom par" unfolding rel dom by blast
    with step g show ?thesis by (subst find_loop.simps) auto
  qed
qed

text \<open>What \<open>find\<close> does, for any key: it is the root afterwards, and no root changes.\<close>

lemma uf_find_spec:
  assumes "rooted (uf_parent st)"
  obtains r par where "uf_find k st = Inr (r, st\<lparr>uf_parent := par\<rparr>)" and "rooted par"
    and "root_of par = root_of (par_default k (uf_parent st))" and "root_of par k r"
    and "dom par = insert k (dom (uf_parent st))"
proof -
  let ?par = "par_default k (uf_parent st)"
  note d = default_rel [OF assms, of k]
  from d(1,3) obtain r n where n: "climbs ?par k n r" by (auto simp: rooted_def root_of_def)
  then obtain p where p: "?par k = Some p" using climbs_dom by blast
  have "root_of ?par k r" using n by (auto simp: root_of_def)
  then have "root_of ?par p r" using p by (rule root_of_parent)
  then obtain m where "climbs ?par p m r" by (auto simp: root_of_def)
  from find_loop_root [OF this d(1)] obtain par' where
    l: "find_loop ?par p = Some (Inr (r, par'))" and rel: "root_of par' = root_of ?par" and dom: "dom par' = dom ?par"
    by blast
  have ro: "rooted par'" by (rule rooted_same_rel [OF d(1) rel dom])
  have k': "root_of par' k r" using n rel by (auto simp: root_of_def)
  have rr: "par' r = Some r" by (rule root_of_root [OF k'])
  have rel': "root_of (par'(k \<mapsto> r)) = root_of par'"
  proof (cases "k = r")
    case True
    with rr have "par'(k \<mapsto> r) = par'" by auto
    then show ?thesis by simp
  next
    case False
    from k' obtain j where j: "climbs par' k j r" by (auto simp: root_of_def)
    moreover have "0 < j" using j False by (cases j) (auto elim: climbs_0E)
    ultimately show ?thesis using compress_rel [OF ro _ climbs.root [of par' r, OF rr]] by blast
  qed
  have "dom (par'(k \<mapsto> r)) = insert k (dom (uf_parent st))" using dom d(3) by auto
  moreover have "rooted (par'(k \<mapsto> r))"
    using rooted_same_rel [OF ro rel'] dom d(3) by auto
  moreover have "uf_find k st = Inr (r, st\<lparr>uf_parent := par'(k \<mapsto> r)\<rparr>)"
    using p l by (simp add: uf_find_def Let_def)
  ultimately show ?thesis using that rel rel' k' by metis
qed

section \<open>Representatives\<close>

text \<open>The representative of a key: what \<open>find\<close> returns; a key that is not there represents itself.\<close>

definition rep :: "uf \<Rightarrow> string \<Rightarrow> string" where
  "rep st k = (case uf_find k st of Inl e \<Rightarrow> k | Inr (r, st') \<Rightarrow> r)"

lemma rep_root:
  assumes "rooted (uf_parent st)"
  shows "root_of (par_default k (uf_parent st)) k (rep st k)"
proof -
  obtain r par where "uf_find k st = Inr (r, st\<lparr>uf_parent := par\<rparr>)"
    and "root_of par = root_of (par_default k (uf_parent st))" and "root_of par k r"
    by (rule uf_find_spec [OF assms])
  then show ?thesis by (simp add: rep_def)
qed

lemma rep_eq_iff:
  assumes "rooted (uf_parent st)"
  shows "rep st k = r \<longleftrightarrow> root_of (uf_parent st) k r \<or> k \<notin> dom (uf_parent st) \<and> r = k"
proof -
  have "root_of (par_default k (uf_parent st)) k r \<longleftrightarrow> rep st k = r" for r
    using rep_root [OF assms] root_of_det by metis
  then show ?thesis using default_rel(2) [OF assms, of k k] root_of_dom by metis
qed

lemma rep_cong:
  assumes "rooted (uf_parent st)" and "rooted (uf_parent st')"
    and "\<And>a r. root_of (uf_parent st') a r \<longleftrightarrow>
      root_of (uf_parent st) a r \<or> (a \<in> K \<and> a \<notin> dom (uf_parent st) \<and> r = a)"
    and "dom (uf_parent st') = K \<union> dom (uf_parent st)"
  shows "rep st' = rep st"
proof
  fix k
  have "rep st' k = rep st k"
    if "root_of (uf_parent st) k (rep st k) \<or> k \<notin> dom (uf_parent st) \<and> rep st k = k"
    using that assms(3) [of k "rep st k"] assms(4) rep_eq_iff [OF assms(2), of k "rep st k"] by auto
  then show "rep st' k = rep st k" using rep_eq_iff [OF assms(1), of k "rep st k"] by blast
qed

lemma uf_find_rep:
  assumes "rooted (uf_parent st)"
  shows "\<exists>par. uf_find k st = Inr (rep st k, st\<lparr>uf_parent := par\<rparr>) \<and> rooted par \<and>
    rep (st\<lparr>uf_parent := par\<rparr>) = rep st \<and> root_of par k (rep st k) \<and>
    dom par = insert k (dom (uf_parent st))"
proof -
  obtain r par where f: "uf_find k st = Inr (r, st\<lparr>uf_parent := par\<rparr>)" and ro: "rooted par"
    and rel: "root_of par = root_of (par_default k (uf_parent st))" and k: "root_of par k r"
    and dom: "dom par = insert k (dom (uf_parent st))" by (rule uf_find_spec [OF assms])
  have "rep st k = r" using f by (simp add: rep_def)
  moreover have "rep (st\<lparr>uf_parent := par\<rparr>) = rep st"
    using ro dom by (intro rep_cong [of _ _ "{k}"] assms) (auto simp: rel default_rel(2) [OF assms])
  ultimately show ?thesis using f ro k dom by auto
qed

section \<open>union merges two classes\<close>

lemma link_roots:
  assumes "rooted par" and a: "par a = Some a" and b: "par b = Some b" and "a \<noteq> b"
  shows "rooted (par(a \<mapsto> b))"
    and "root_of (par(a \<mapsto> b)) k r \<longleftrightarrow> (\<exists>s. root_of par k s \<and> r = (if s = a then b else s))"
proof -
  have up: "root_of (par(a \<mapsto> b)) k (if s = a then b else s)" if k: "root_of par k s" for k s
  proof -
    from k obtain n where "climbs par k n s" by (auto simp: root_of_def)
    then show ?thesis
    proof (induction rule: climbs.induct)
      case (root s)
      have "root_of (par(a \<mapsto> b)) b b" using b assms(4) by (intro root_of_rootI) simp
      then have "root_of (par(a \<mapsto> b)) a b" by (intro root_of_stepI [of _ a b]) simp
      moreover have "s \<noteq> a \<Longrightarrow> root_of (par(a \<mapsto> b)) s s" using root by (intro root_of_rootI) simp
      ultimately show ?case by presburger
    next
      case (step k p n s)
      then have "k \<noteq> a" using a by auto
      with step show ?case by (intro root_of_stepI [of _ k p]) auto
    qed
  qed
  have dom: "dom (par(a \<mapsto> b)) = dom par" using a by auto
  show "root_of (par(a \<mapsto> b)) k r \<longleftrightarrow> (\<exists>s. root_of par k s \<and> r = (if s = a then b else s))"
  proof
    assume r: "root_of (par(a \<mapsto> b)) k r"
    from root_of_dom [OF r] dom obtain s where s: "root_of par k s"
      using assms(1) unfolding rooted_def by blast
    from root_of_det [OF r up [OF s]] s show "\<exists>s. root_of par k s \<and> r = (if s = a then b else s)" by blast
  qed (use up in blast)
  show "rooted (par(a \<mapsto> b))" using assms(1) up unfolding rooted_def dom by blast
qed

lemma uf_link_parent [simp]: "uf_parent (uf_link ra rb st) = (uf_parent st)(ra \<mapsto> rb)"
  by (simp add: uf_link_def Let_def split: option.splits)

lemma uf_link_rep:
  assumes ro: "rooted (uf_parent st)" and a: "uf_parent st a = Some a" and b: "uf_parent st b = Some b"
    and "a \<noteq> b"
  shows "rep (uf_link a b st) k = (if rep st k = a then b else rep st k)"
proof -
  note l = link_roots [OF assms]
  have ro': "rooted (uf_parent (uf_link a b st))" using l(1) by simp
  have dom: "dom (uf_parent (uf_link a b st)) = dom (uf_parent st)" using a by auto
  show ?thesis
    unfolding rep_eq_iff [OF ro'] dom
    using rep_eq_iff [OF ro, of k "rep st k"] l(2) a by (auto simp: domI)
qed

text \<open>Two keys are connected when they have the same representative.\<close>

definition joined :: "uf \<Rightarrow> string \<Rightarrow> string \<Rightarrow> bool" where
  "joined st a b \<longleftrightarrow> rep st a = rep st b"

lemma uf_union_spec:
  assumes "rooted (uf_parent st)"
  obtains st' where "uf_union a b st = Inr st'" and "rooted (uf_parent st')"
    and "\<forall>x y. joined st' x y \<longleftrightarrow> joined st x y \<or>
      joined st x a \<and> joined st y b \<or> joined st x b \<and> joined st y a"
    and "dom (uf_parent st') = {a, b} \<union> dom (uf_parent st)"
    and "uf_const st' = uf_const st \<or> (\<exists>r s v. {r, s} = {rep st a, rep st b} \<and>
      map_of (uf_const st) r = Some v \<and> uf_const st' = dict_set s v (uf_const st))"
proof -
  obtain p1 where f1: "uf_find a st = Inr (rep st a, st\<lparr>uf_parent := p1\<rparr>)" and r1: "rooted p1"
    and rep1: "rep (st\<lparr>uf_parent := p1\<rparr>) = rep st" and a1: "root_of p1 a (rep st a)"
    and d1: "dom p1 = insert a (dom (uf_parent st))" using uf_find_rep [OF assms, of a] by auto
  let ?st1 = "st\<lparr>uf_parent := p1\<rparr>"
  obtain p2 where f2: "uf_find b ?st1 = Inr (rep st b, ?st1\<lparr>uf_parent := p2\<rparr>)" and r2: "rooted p2"
    and rep2: "rep (?st1\<lparr>uf_parent := p2\<rparr>) = rep st" and b2: "root_of p2 b (rep st b)"
    and d2: "dom p2 = insert b (insert a (dom (uf_parent st)))"
    using uf_find_rep [of ?st1 b] r1 rep1 d1 by auto
  let ?st2 = "st\<lparr>uf_parent := p2\<rparr>"
  have st2: "?st1\<lparr>uf_parent := p2\<rparr> = ?st2" by simp
  have ro2: "rooted (uf_parent ?st2)" using r2 by simp
  have "root_of p2 a (rep st a)"
    using rep_eq_iff [OF ro2, of a "rep st a"] rep2 d2 by auto
  then have pa: "uf_parent ?st2 (rep st a) = Some (rep st a)" using root_of_root by fastforce
  have pb: "uf_parent ?st2 (rep st b) = Some (rep st b)" using root_of_root [OF b2] by simp
  show ?thesis
  proof (cases "rep st a = rep st b")
    case True
    then show ?thesis
      using f1 f2 r2 rep2 d2 by (intro that [of ?st2]) (auto simp: uf_union_def joined_def)
  next
    case False
    let ?r = "if prefix ''const/'' (rep st a) then rep st b else rep st a"
    let ?s = "if prefix ''const/'' (rep st a) then rep st a else rep st b"
    let ?st' = "uf_link ?r ?s ?st2"
    have u: "uf_union a b st = Inr ?st'" using f1 f2 False by (simp add: uf_union_def)
    have pr: "uf_parent ?st2 ?r = Some ?r" "uf_parent ?st2 ?s = Some ?s" "?r \<noteq> ?s"
      using pa pb False by auto
    have rep': "rep ?st' k = (if rep st k = ?r then ?s else rep st k)" for k
      using uf_link_rep [OF ro2 pr, of k] rep2 by simp
    have "joined ?st' x y \<longleftrightarrow> joined st x y \<or>
        joined st x a \<and> joined st y b \<or> joined st x b \<and> joined st y a" for x y
      unfolding joined_def rep' by auto
    then have c: "\<forall>x y. joined ?st' x y \<longleftrightarrow> joined st x y \<or>
        joined st x a \<and> joined st y b \<or> joined st x b \<and> joined st y a" by blast
    have ro': "rooted (uf_parent ?st')" using link_roots(1) [OF ro2 pr] by simp
    have dom': "dom (uf_parent ?st') = {a, b} \<union> dom (uf_parent st)"
    proof -
      have "?r \<in> dom p2" using pr(1) by auto
      then have "dom (p2(?r \<mapsto> ?s)) = dom p2" by (simp only: dom_fun_upd option.distinct if_False insert_absorb)
      then show ?thesis using d2 by (simp add: insert_commute)
    qed
    have "uf_const ?st' = uf_const st \<or> (\<exists>v. map_of (uf_const st) ?r = Some v \<and>
        uf_const ?st' = dict_set ?s v (uf_const st))"
      by (auto simp: uf_link_def Let_def split: option.splits)
    moreover have "{?r, ?s} = {rep st a, rep st b}" by auto
    ultimately have "uf_const ?st' = uf_const st \<or> (\<exists>r s v. {r, s} = {rep st a, rep st b} \<and>
        map_of (uf_const st) r = Some v \<and> uf_const ?st' = dict_set s v (uf_const st))" by metis
    with u ro' c dom' show ?thesis by (rule that)
  qed
qed

section \<open>Keys and constants\<close>

lemma key_fst [simp]: "fst (key path b st) = net_key path b"
  by (simp add: key_def Let_def)

lemma key_parent: "uf_parent (snd (key path b st)) = par_default (net_key path b) (uf_parent st)"
  by (simp add: key_def Let_def)

lemma key_const: "uf_const (snd (key path b st)) =
    (if is_const_bit b then dict_set (const_key b) b (uf_const st) else uf_const st)"
  by (simp add: key_def Let_def net_key_def)

lemma key_spec:
  assumes "rooted (uf_parent st)"
  shows "rooted (uf_parent (snd (key path b st)))" and "rep (snd (key path b st)) = rep st"
    and "dom (uf_parent (snd (key path b st))) = insert (net_key path b) (dom (uf_parent st))"
proof -
  note d = default_rel [OF assms, of "net_key path b"]
  show ro: "rooted (uf_parent (snd (key path b st)))" by (simp add: key_parent d)
  show dom: "dom (uf_parent (snd (key path b st))) = insert (net_key path b) (dom (uf_parent st))"
    by (simp add: key_parent d)
  show "rep (snd (key path b st)) = rep st"
    by (rule rep_cong [OF assms ro, of "{net_key path b}"]) (auto simp: key_parent d)
qed

text \<open>Every constant noted in \<open>const\<close> is noted for a key that is connected to it.\<close>

definition const_ok :: "uf \<Rightarrow> bool" where
  "const_ok st \<longleftrightarrow> (\<forall>(r, v) \<in> set (uf_const st). is_const_bit v \<and> r \<in> dom (uf_parent st) \<and>
     joined st r (const_key v))"

definition uf_wf :: "uf \<Rightarrow> bool" where
  "uf_wf st \<longleftrightarrow> rooted (uf_parent st) \<and> const_ok st"

lemma uf_init_wf: "uf_wf uf_init"
  by (simp add: uf_wf_def uf_init_def rooted_def const_ok_def)

lemma uf_init_rep: "rep uf_init k = k"
  using rep_eq_iff [of uf_init k k] by (simp add: uf_init_def rooted_def)

lemma dict_set_set: "set (dict_set k v d) \<subseteq> insert (k, v) (set d)"
  by (induction d) auto

lemma key_wf:
  assumes "uf_wf st"
  shows "uf_wf (snd (key path b st))"
proof -
  have ro: "rooted (uf_parent st)" using assms by (simp add: uf_wf_def)
  note k = key_spec [OF ro, of path b]
  have "const_ok (snd (key path b st))"
    using assms dict_set_set [of "const_key b" b "uf_const st"]
    unfolding const_ok_def uf_wf_def joined_def k(2,3) key_const
    by (auto simp: net_key_def split: if_splits)
  with k(1) show ?thesis by (simp add: uf_wf_def)
qed

lemma uf_find_wf:
  assumes "uf_wf st"
  shows "\<exists>st'. uf_find k st = Inr (rep st k, st') \<and> uf_wf st' \<and> rep st' = rep st \<and>
    uf_const st' = uf_const st \<and> dom (uf_parent st') = insert k (dom (uf_parent st))"
proof -
  have "rooted (uf_parent st)" using assms by (simp add: uf_wf_def)
  from uf_find_rep [OF this, of k] obtain par where
    "uf_find k st = Inr (rep st k, st\<lparr>uf_parent := par\<rparr>)" "rooted par"
    "rep (st\<lparr>uf_parent := par\<rparr>) = rep st" "dom par = insert k (dom (uf_parent st))" by blast
  with assms show ?thesis by (auto simp: uf_wf_def const_ok_def joined_def)
qed

lemma uf_union_wf:
  assumes "uf_wf st" and "a \<in> dom (uf_parent st)" and "b \<in> dom (uf_parent st)"
  obtains st' where "uf_union a b st = Inr st'" and "uf_wf st'"
    and "\<forall>x y. joined st' x y \<longleftrightarrow> joined st x y \<or>
      joined st x a \<and> joined st y b \<or> joined st x b \<and> joined st y a"
    and "dom (uf_parent st') = dom (uf_parent st)"
proof -
  have ro: "rooted (uf_parent st)" using assms by (simp add: uf_wf_def)
  obtain st' where u: "uf_union a b st = Inr st'" and r': "rooted (uf_parent st')"
    and c: "\<forall>x y. joined st' x y \<longleftrightarrow> joined st x y \<or>
      joined st x a \<and> joined st y b \<or> joined st x b \<and> joined st y a"
    and d: "dom (uf_parent st') = {a, b} \<union> dom (uf_parent st)"
    and k: "uf_const st' = uf_const st \<or> (\<exists>r s v. {r, s} = {rep st a, rep st b} \<and>
      map_of (uf_const st) r = Some v \<and> uf_const st' = dict_set s v (uf_const st))"
    by (rule uf_union_spec [OF ro, of a b])
  have mono: "joined st x y \<Longrightarrow> joined st' x y" for x y using c by blast
  have repd: "rep st x \<in> dom (uf_parent st)" "joined st x (rep st x)" if "x \<in> dom (uf_parent st)" for x
  proof -
    have "root_of (uf_parent st) x (rep st x)" using rep_eq_iff [OF ro, of x "rep st x"] that by blast
    then have "uf_parent st (rep st x) = Some (rep st x)" by (rule root_of_root)
    then show "rep st x \<in> dom (uf_parent st)" "joined st x (rep st x)"
      using rep_eq_iff [OF ro, of "rep st x" "rep st x"] root_of_rootI by (auto simp: joined_def)
  qed
  have old: "is_const_bit v \<and> r \<in> dom (uf_parent st') \<and> joined st' r (const_key v)"
    if "(r, v) \<in> set (uf_const st)" for r v
  proof -
    have "is_const_bit v \<and> r \<in> dom (uf_parent st) \<and> joined st r (const_key v)"
      using assms(1) that unfolding uf_wf_def const_ok_def by blast
    then show ?thesis using mono d by simp
  qed
  have ab: "joined st' (rep st a) (rep st b)"
    using c repd(2) [OF assms(2)] repd(2) [OF assms(3)] unfolding joined_def by simp
  have "const_ok st'"
    using k
  proof
    assume "uf_const st' = uf_const st"
    with old show ?thesis by (auto simp: const_ok_def)
  next
    assume "\<exists>r s v. {r, s} = {rep st a, rep st b} \<and>
      map_of (uf_const st) r = Some v \<and> uf_const st' = dict_set s v (uf_const st)"
    then obtain r s v where rs: "{r, s} = {rep st a, rep st b}" and v: "map_of (uf_const st) r = Some v"
      and k': "uf_const st' = dict_set s v (uf_const st)" by blast
    have "joined st' s r" using ab rs by (auto simp: doubleton_eq_iff joined_def)
    moreover have "s \<in> dom (uf_parent st')" using repd assms(2,3) rs d by (auto simp: doubleton_eq_iff)
    ultimately have new: "is_const_bit v \<and> s \<in> dom (uf_parent st') \<and> joined st' s (const_key v)"
      using old [OF map_of_SomeD [OF v]] by (auto simp: joined_def)
    then show ?thesis
      using old dict_set_set [of s v "uf_const st"] unfolding const_ok_def k' by blast
  qed
  moreover have "dom (uf_parent st') = dom (uf_parent st)" using d assms(2,3) by auto
  ultimately show ?thesis using u r' c by (intro that [of st']) (auto simp: uf_wf_def)
qed

text \<open>\<open>self.union(self.key(path, a), self.key(path', b))\<close>, and \<open>self.find(self.key(path, b))\<close>.\<close>

definition uf_connect :: "string \<times> string \<Rightarrow> string \<times> string \<Rightarrow> uf \<Rightarrow> uf res" where
  "uf_connect pa pb st =
     (case key (fst pa) (snd pa) st of (ka, st1) \<Rightarrow>
      case key (fst pb) (snd pb) st1 of (kb, st2) \<Rightarrow> uf_union ka kb st2)"

definition uf_lookup :: "string \<times> string \<Rightarrow> uf \<Rightarrow> (string \<times> uf) res" where
  "uf_lookup pb st = (case key (fst pb) (snd pb) st of (k, st1) \<Rightarrow> uf_find k st1)"

lemma uf_connect_spec:
  assumes "uf_wf st"
  shows "\<exists>st'. uf_connect pa pb st = Inr st' \<and> uf_wf st' \<and>
    (\<forall>x y. joined st' x y \<longleftrightarrow> joined st x y \<or>
      joined st x (net_key (fst pa) (snd pa)) \<and> joined st y (net_key (fst pb) (snd pb)) \<or>
      joined st x (net_key (fst pb) (snd pb)) \<and> joined st y (net_key (fst pa) (snd pa))) \<and>
    dom (uf_parent st') = {net_key (fst pa) (snd pa), net_key (fst pb) (snd pb)} \<union> dom (uf_parent st)"
proof -
  let ?s1 = "snd (key (fst pa) (snd pa) st)"
  let ?s2 = "snd (key (fst pb) (snd pb) ?s1)"
  have w1: "uf_wf ?s1" and w2: "uf_wf ?s2" using assms key_wf by auto
  have r: "rooted (uf_parent st)" "rooted (uf_parent ?s1)" using assms w1 by (simp_all add: uf_wf_def)
  note k1 = key_spec [OF r(1), of "fst pa" "snd pa"] and k2 = key_spec [OF r(2), of "fst pb" "snd pb"]
  have rep2: "rep ?s2 = rep st" using k1(2) k2(2) by simp
  have d2: "dom (uf_parent ?s2) = {net_key (fst pa) (snd pa), net_key (fst pb) (snd pb)} \<union> dom (uf_parent st)"
    using k1(3) k2(3) by auto
  obtain st' where "uf_union (net_key (fst pa) (snd pa)) (net_key (fst pb) (snd pb)) ?s2 = Inr st'"
    "uf_wf st'" "dom (uf_parent st') = dom (uf_parent ?s2)"
    "\<forall>x y. joined st' x y \<longleftrightarrow> joined ?s2 x y \<or>
      joined ?s2 x (net_key (fst pa) (snd pa)) \<and> joined ?s2 y (net_key (fst pb) (snd pb)) \<or>
      joined ?s2 x (net_key (fst pb) (snd pb)) \<and> joined ?s2 y (net_key (fst pa) (snd pa))"
    by (rule uf_union_wf [OF w2, of "net_key (fst pa) (snd pa)" "net_key (fst pb) (snd pb)"])
      (use d2 in auto)
  then show ?thesis using rep2 d2
    by (intro exI [of _ st']) (simp add: uf_connect_def case_prod_beta joined_def)
qed

lemma uf_lookup_spec:
  assumes "uf_wf st"
  shows "\<exists>st'. uf_lookup pb st = Inr (rep st (net_key (fst pb) (snd pb)), st') \<and> uf_wf st' \<and>
    rep st' = rep st"
proof -
  have r: "rooted (uf_parent st)" using assms by (simp add: uf_wf_def)
  note k = key_spec [OF r, of "fst pb" "snd pb"]
  from uf_find_wf [OF key_wf [OF assms], of "net_key (fst pb) (snd pb)" "fst pb" "snd pb"] k
  show ?thesis by (auto simp: uf_lookup_def case_prod_beta)
qed

section \<open>The interface: a structure that connects nets\<close>

text \<open>\<open>linked E x y\<close>: \<open>x\<close> and \<open>y\<close> are joined by the connections \<open>E\<close>, in any direction.\<close>

definition linked :: "('k \<times> 'k) set \<Rightarrow> 'k \<Rightarrow> 'k \<Rightarrow> bool" where
  "linked E x y \<longleftrightarrow> (x, y) \<in> (E \<union> E\<inverse>)\<^sup>*"

lemma linked_refl [simp, intro]: "linked E x x"
  by (simp add: linked_def)

lemma linked_sym: "linked E x y \<Longrightarrow> linked E y x"
proof -
  have "sym ((E \<union> E\<inverse>)\<^sup>*)" by (rule sym_rtrancl) (auto simp: sym_def)
  then show "linked E x y \<Longrightarrow> linked E y x" unfolding linked_def by (rule symD)
qed

lemma linked_trans: "linked E x y \<Longrightarrow> linked E y z \<Longrightarrow> linked E x z"
  unfolding linked_def by (rule rtrancl_trans)

lemma linked_mono: "linked E x y \<Longrightarrow> E \<subseteq> F \<Longrightarrow> linked F x y"
  unfolding linked_def by (rule subsetD [OF rtrancl_mono]) auto

lemma linked_edge: "(a, b) \<in> E \<Longrightarrow> linked E a b"
  unfolding linked_def by blast

lemma linked_insert:
  "linked (insert (a, b) E) x y \<longleftrightarrow>
     linked E x y \<or> linked E x a \<and> linked E y b \<or> linked E x b \<and> linked E y a"
  (is "?L \<longleftrightarrow> ?R y")
proof
  assume ?L
  then have "(x, y) \<in> (insert (a, b) E \<union> (insert (a, b) E)\<inverse>)\<^sup>*" by (simp add: linked_def)
  then show "?R y"
  proof (induction rule: rtrancl_induct)
    case (step y z)
    from step.hyps(2) consider "(y, z) \<in> E \<union> E\<inverse>" | "y = a" "z = b" | "y = b" "z = a" by auto
    then show ?case
    proof cases
      case 1
      then have "linked E y z" unfolding linked_def by blast
      with step.IH show ?thesis using linked_trans linked_sym by metis
    next
      case 2
      with step.IH show ?thesis using linked_trans linked_sym linked_refl by metis
    next
      case 3
      with step.IH show ?thesis using linked_trans linked_sym linked_refl by metis
    qed
  qed simp
next
  have E: "linked E u v \<Longrightarrow> linked (insert (a, b) E) u v" for u v by (erule linked_mono) auto
  have ab: "linked (insert (a, b) E) a b" by (rule linked_edge) simp
  assume "?R y"
  then show ?L using E ab linked_trans linked_sym by metis
qed

locale connector =
  fixes wf :: "'s \<Rightarrow> bool"
    and start :: 's
    and repr :: "'s \<Rightarrow> 'k \<Rightarrow> 'k"
    and net :: "'e \<Rightarrow> 'k"
    and connect :: "'e \<Rightarrow> 'e \<Rightarrow> 's \<Rightarrow> 'x + 's"
    and lookup :: "'e \<Rightarrow> 's \<Rightarrow> 'x + ('k \<times> 's)"
  assumes start_law: "wf start \<and> repr start k = k"
    and connect_law: "wf st \<Longrightarrow> \<exists>st'. connect a b st = Inr st' \<and> wf st' \<and>
      (\<forall>x y. repr st' x = repr st' y \<longleftrightarrow> repr st x = repr st y \<or>
        repr st x = repr st (net a) \<and> repr st y = repr st (net b) \<or>
        repr st x = repr st (net b) \<and> repr st y = repr st (net a))"
    and lookup_law: "wf st \<Longrightarrow> \<exists>st'. lookup a st = Inr (repr st (net a), st') \<and> wf st' \<and> repr st' = repr st"
begin

text \<open>The state stands for the connections \<open>E\<close>: two nets have one representative iff \<open>E\<close> joins them.\<close>

definition stands_for :: "'s \<Rightarrow> ('k \<times> 'k) set \<Rightarrow> bool" where
  "stands_for st E \<longleftrightarrow> wf st \<and> (\<forall>x y. repr st x = repr st y \<longleftrightarrow> linked E x y)"

lemma start_stands: "stands_for start {}"
  using start_law by (simp add: stands_for_def linked_def)

lemma connect_stands:
  assumes "stands_for st E"
  shows "\<exists>st'. connect a b st = Inr st' \<and> stands_for st' (insert (net a, net b) E)"
  using connect_law [of st a b] assms unfolding stands_for_def linked_insert by auto

lemma lookup_stands:
  assumes "stands_for st E"
  shows "\<exists>st'. lookup a st = Inr (repr st (net a), st') \<and> stands_for st' E \<and> repr st' = repr st"
  using lookup_law [of st a] assms unfolding stands_for_def by auto

lemma stands_linked: "stands_for st E \<Longrightarrow> repr st x = repr st y \<longleftrightarrow> linked E x y"
  by (simp add: stands_for_def)

lemma stands_wf: "stands_for st E \<Longrightarrow> wf st"
  by (simp add: stands_for_def)

text \<open>A list of connections always succeeds, and adds exactly itself.\<close>

lemma connect_list:
  assumes "stands_for st E"
  shows "\<exists>st'. efold (\<lambda>s (a, b). connect a b s) st es = Inr st' \<and>
    stands_for st' (E \<union> (\<lambda>(a, b). (net a, net b)) ` set es)"
  using assms
proof (induction es arbitrary: st E)
  case (Cons e es)
  obtain a b where e: "e = (a, b)" by force
  from connect_stands [OF Cons.prems, of a b] obtain st1 where
    st1: "connect a b st = Inr st1" "stands_for st1 (insert (net a, net b) E)" by blast
  from Cons.IH [OF st1(2)] st1(1) e show ?case by (auto simp: Un_commute)
qed simp

end

interpretation uf: connector uf_wf uf_init rep "\<lambda>pb. net_key (fst pb) (snd pb)" uf_connect uf_lookup
proof
  fix st a b
  assume "uf_wf st"
  from uf_connect_spec [OF this, of a b] show "\<exists>st'. uf_connect a b st = Inr st' \<and> uf_wf st' \<and>
      (\<forall>x y. rep st' x = rep st' y \<longleftrightarrow> rep st x = rep st y \<or>
        rep st x = rep st (net_key (fst a) (snd a)) \<and> rep st y = rep st (net_key (fst b) (snd b)) \<or>
        rep st x = rep st (net_key (fst b) (snd b)) \<and> rep st y = rep st (net_key (fst a) (snd a)))"
    unfolding joined_def by blast
qed (use uf_init_wf uf_init_rep uf_lookup_spec in auto)

section \<open>Properties\<close>

text \<open>A chain of four keys, for the witnesses.\<close>

definition example_uf :: uf where
  "example_uf = \<lparr>uf_parent = [''a'' \<mapsto> ''b'', ''b'' \<mapsto> ''c'', ''c'' \<mapsto> ''d'', ''d'' \<mapsto> ''d''], uf_const = []\<rparr>"

lemma example_rooted: "rooted (uf_parent example_uf)"
proof -
  let ?p = "uf_parent example_uf"
  have d: "root_of ?p ''d'' ''d''" by (rule root_of_rootI) (simp add: example_uf_def)
  have c: "root_of ?p ''c'' ''d''" by (rule root_of_stepI [OF _ d]) (simp add: example_uf_def)
  have b: "root_of ?p ''b'' ''d''" by (rule root_of_stepI [OF _ c]) (simp add: example_uf_def)
  have a: "root_of ?p ''a'' ''d''" by (rule root_of_stepI [OF _ b]) (simp add: example_uf_def)
  have "dom ?p = {''a'', ''b'', ''c'', ''d''}" by (auto simp: example_uf_def)
  with a b c d show ?thesis by (auto simp: rooted_def)
qed

text \<open>From a well-formed structure find always returns, with the root of the key, noted as the
  parent of the key; no root of any key changes, however the path was halved.\<close>

theorem find_returns_root:
  assumes "rooted (uf_parent st)"
  shows "\<exists>r st'. uf_find k st = Inr (r, st') \<and> rooted (uf_parent st') \<and>
    uf_parent st' k = Some r \<and> uf_parent st' r = Some r \<and>
    (\<forall>a s. root_of (uf_parent st) a s \<longrightarrow> root_of (uf_parent st') a s) \<and> uf_const st' = uf_const st"
proof -
  obtain r par where f: "uf_find k st = Inr (r, st\<lparr>uf_parent := par\<rparr>)" "rooted par"
    "root_of par = root_of (par_default k (uf_parent st))" "root_of par k r"
    by (rule uf_find_spec [OF assms])
  from f(1) obtain par1 where "st\<lparr>uf_parent := par1(k \<mapsto> r)\<rparr> = st\<lparr>uf_parent := par\<rparr>"
    by (auto simp: uf_find_def Let_def split: option.splits sum.splits)
  from arg_cong [OF this, of uf_parent] have "par k = Some r" by (auto simp: fun_upd_def)
  with f default_rel(2) [OF assms, of k] root_of_root [OF f(4)] show ?thesis by auto
qed

theorem find_returns_root_witness:
  "\<exists>r st'. uf_find ''a'' example_uf = Inr (r, st') \<and> rooted (uf_parent st') \<and> uf_parent st' ''a'' = Some r"
  using find_returns_root [OF example_rooted, of "''a''"] by blast

text \<open>C31: union always returns, and merges the classes of its two keys and nothing else, whichever of
  them is linked below the other.\<close>

theorem union_merges_two_classes:
  assumes "rooted (uf_parent st)"
  shows "\<exists>st'. uf_union a b st = Inr st' \<and> rooted (uf_parent st') \<and>
    (\<forall>x y. rep st' x = rep st' y \<longleftrightarrow> rep st x = rep st y \<or>
      rep st x = rep st a \<and> rep st y = rep st b \<or> rep st x = rep st b \<and> rep st y = rep st a)"
  by (rule uf_union_spec [OF assms, of a b]) (unfold joined_def, blast)

theorem union_merges_two_classes_witness:
  "\<exists>st'. uf_union ''a'' ''x'' example_uf = Inr st' \<and> rep st' ''b'' = rep st' ''x''"
proof -
  obtain st' where u: "uf_union ''a'' ''x'' example_uf = Inr st'" and
    m: "\<forall>x y. rep st' x = rep st' y \<longleftrightarrow> rep example_uf x = rep example_uf y \<or>
      rep example_uf x = rep example_uf ''a'' \<and> rep example_uf y = rep example_uf ''x'' \<or>
      rep example_uf x = rep example_uf ''x'' \<and> rep example_uf y = rep example_uf ''a''"
    using union_merges_two_classes [OF example_rooted, of "''a''" "''x''"] by blast
  have "rep example_uf ''b'' = rep example_uf ''a''" by code_simp
  with u m show ?thesis by blast
qed

end
