(* ===== verification/Vnet_Flat.thy ===== *)
theory Vnet_Flat
  imports Vnet_Parse Union_Find
begin

text \<open>
  The class \<open>Flat\<close> of \<open>fpga/tools/vnet.py\<close>: the netlist connected bit by bit across the hierarchy.
  \<open>walk\<close> is \<open>_walk\<close>, with Python's limit on nested calls as its first argument; \<open>flat_new\<close> is
  \<open>__init__\<close>. What the connections of a design are is said without the code, by the step relations
  \<open>hier\<close> (which module stands at which path) and \<open>local_edge\<close> (what is connected inside one).
\<close>

section \<open>\_walk\<close>

type_synonym leaf = "string \<times> inst \<times> string"

definition is_blackbox :: "module \<Rightarrow> bool" where
  "is_blackbox md \<longleftrightarrow> md_insts md = [] \<and> md_assigns md = []"

definition blackbox :: "modules \<Rightarrow> string list" where
  "blackbox mods = map fst (filter (\<lambda>(m, md). is_blackbox md) mods)"

text \<open>The modules an instance can be walked into.\<close>

definition hier_module :: "modules \<Rightarrow> string \<Rightarrow> module option" where
  "hier_module mods cell = (if cell \<in> set (blackbox mods) then None else map_of mods cell)"

definition sub_path :: "string \<Rightarrow> string \<Rightarrow> string" where
  "sub_path path name = (if path = [] then name else path @ CHR ''/'' # name)"

definition connect_bits :: "string \<Rightarrow> string \<Rightarrow> (string \<times> string) list \<Rightarrow> uf \<Rightarrow> uf res" where
  "connect_bits pa pb bs u = efold (\<lambda>u (a, b). uf_connect (pa, a) (pb, b) u) u bs"

definition walk_supply :: "string \<Rightarrow> module \<Rightarrow> uf \<Rightarrow> uf res" where
  "walk_supply path md u = connect_bits path path (md_supply md) u"

definition walk_assign :: "string \<Rightarrow> string \<Rightarrow> module \<Rightarrow> uf \<Rightarrow> string \<times> string \<Rightarrow> uf res" where
  "walk_assign mname path md u a =
     ebind (expr_bits (fst a) (md_width md)) (\<lambda>lb. ebind (expr_bits (snd a) (md_width md)) (\<lambda>rb.
       if length lb \<noteq> length rb
       then Inl (ValueError (mname @ '': width mismatch in assign '' @ fst a @ '' = '' @ snd a))
       else connect_bits path path (zip lb rb) u))"

definition walk_conn :: "string \<Rightarrow> string \<Rightarrow> module \<Rightarrow> module \<Rightarrow> inst \<Rightarrow> uf \<Rightarrow> string \<times> string \<Rightarrow> uf res" where
  "walk_conn mname path md child inst u c =
     ebind (expr_bits (snd c) (md_width md)) (\<lambda>pbits.
       let cbits = port_bits (md_width child) (fst c) in
       if pbits \<noteq> [] \<and> length pbits \<noteq> length cbits
       then Inl (ValueError (mname @ ''/'' @ i_name inst @ ''.'' @ fst c @ '': width mismatch''))
       else connect_bits path (sub_path path (i_name inst)) (zip pbits cbits) u)"

type_synonym walk_state = "uf \<times> leaf list"

definition walk_inst :: "(string \<Rightarrow> string \<Rightarrow> walk_state \<Rightarrow> walk_state res) \<Rightarrow> modules \<Rightarrow> string \<Rightarrow> string \<Rightarrow>
    module \<Rightarrow> walk_state \<Rightarrow> inst \<Rightarrow> walk_state res" where
  "walk_inst rec mods mname path md st inst =
     (case hier_module mods (i_cell inst) of
        Some child \<Rightarrow>
          ebind (efold (walk_conn mname path md child inst) (fst st) (i_conns inst)) (\<lambda>u.
            rec (i_cell inst) (sub_path path (i_name inst)) (u, snd st))
      | None \<Rightarrow> Inr (fst st, snd st @ [(path, inst, mname)]))"

primrec walk :: "nat \<Rightarrow> modules \<Rightarrow> string \<Rightarrow> string \<Rightarrow> walk_state \<Rightarrow> walk_state res" where
  "walk 0 mods mname path st = Inl RecursionError"
| "walk (Suc n) mods mname path st =
     (case map_of mods mname of
        None \<Rightarrow> Inl (KeyError mname)
      | Some md \<Rightarrow>
          ebind (walk_supply path md (fst st)) (\<lambda>u1.
            ebind (efold (walk_assign mname path md) u1 (md_assigns md)) (\<lambda>u2.
              efold (walk_inst (walk n mods) mods mname path md) (u2, snd st) (md_insts md))))"

section \<open>\_\_init\_\_\<close>

type_synonym pin_entry = "nat \<times> string \<times> string"

record flat =
  f_mods :: modules
  f_top :: string
  f_cell_dirs :: cell_dirs
  f_uf :: uf
  f_leaves :: "leaf list"
  f_pins :: "(string \<times> pin_entry list) list"

definition leaf_dirs :: "modules \<Rightarrow> cell_dirs \<Rightarrow> string \<Rightarrow> (string \<times> string) list res" where
  "leaf_dirs mods cds cell =
     (if cell \<in> set (blackbox mods)
      then (case map_of mods cell of None \<Rightarrow> Inl (KeyError cell) | Some md \<Rightarrow> Inr (md_dirs md))
      else (case map_of cds cell of None \<Rightarrow> Inl (KeyError (''no model for cell '' @ cell)) | Some d \<Rightarrow> Inr d))"

definition pin_bits :: "modules \<Rightarrow> string \<Rightarrow> string \<Rightarrow> nat \<Rightarrow> string list" where
  "pin_bits mods cell pin n =
     (let plain = (if n = 1 then [pin] else map (\<lambda>k. bit_name pin (show_nat k)) (rev [0..<n])) in
      if cell \<in> set (blackbox mods)
      then (case map_of mods cell of
              Some md \<Rightarrow> (if map_of (md_width md) pin \<noteq> None then port_bits (md_width md) pin else plain)
            | None \<Rightarrow> plain)
      else plain)"

type_synonym pin_state = "uf \<times> (string \<times> pin_entry list) list"

definition add_pin :: "string \<Rightarrow> pin_entry \<Rightarrow> (string \<times> pin_entry list) list \<Rightarrow> (string \<times> pin_entry list) list" where
  "add_pin r x pins = dict_set r (dict_get pins r [] @ [x]) pins"

definition pin_bit :: "nat \<Rightarrow> string \<Rightarrow> string \<Rightarrow> pin_state \<Rightarrow> string \<times> string \<Rightarrow> pin_state res" where
  "pin_bit li path d st bp =
     ebind (uf_lookup (path, fst bp) (fst st)) (\<lambda>(r, u). Inr (u, add_pin r (li, snd bp, d) (snd st)))"

definition pin_conn :: "modules \<Rightarrow> (string \<times> string) list \<Rightarrow> nat \<Rightarrow> leaf \<Rightarrow> pin_state \<Rightarrow> string \<times> string \<Rightarrow>
    pin_state res" where
  "pin_conn mods dirs li lf st c =
     (case lf of (path, inst, owner) \<Rightarrow>
        case map_of mods owner of
          None \<Rightarrow> Inl (KeyError owner)
        | Some md \<Rightarrow> ebind (expr_bits (snd c) (md_width md)) (\<lambda>bits.
            efold (pin_bit li path (dict_get dirs (fst c) ''?'')) st
              (zip bits (pin_bits mods (i_cell inst) (fst c) (length bits)))))"

definition pin_leaf :: "modules \<Rightarrow> cell_dirs \<Rightarrow> pin_state \<Rightarrow> nat \<times> leaf \<Rightarrow> pin_state res" where
  "pin_leaf mods cds st lil =
     (case lil of (li, lf) \<Rightarrow>
        ebind (leaf_dirs mods cds (i_cell (fst (snd lf)))) (\<lambda>dirs.
          efold (pin_conn mods dirs li lf) st (i_conns (fst (snd lf)))))"

definition flat_new :: "nat \<Rightarrow> modules \<Rightarrow> string \<Rightarrow> cell_dirs \<Rightarrow> flat res" where
  "flat_new limit mods topm cds =
     ebind (walk limit mods topm [] (uf_init, [])) (\<lambda>(u, leaves).
       ebind (efold (pin_leaf mods cds) (u, []) (enumerate 0 leaves)) (\<lambda>(u', pins).
         Inr \<lparr>f_mods = mods, f_top = topm, f_cell_dirs = cds, f_uf = u', f_leaves = leaves, f_pins = pins\<rparr>))"

section \<open>The connections of a design\<close>

text \<open>\<open>hier mods p0 m0 path m\<close>: below the module \<open>m0\<close> at \<open>p0\<close>, an instance of \<open>m\<close> stands at \<open>path\<close>.\<close>

inductive hier :: "modules \<Rightarrow> string \<Rightarrow> string \<Rightarrow> string \<Rightarrow> string \<Rightarrow> bool" for mods where
  here: "map_of mods m0 \<noteq> None \<Longrightarrow> hier mods p0 m0 p0 m0"
| below: "map_of mods m0 = Some md \<Longrightarrow> inst \<in> set (md_insts md) \<Longrightarrow>
    hier_module mods (i_cell inst) \<noteq> None \<Longrightarrow> hier mods (sub_path p0 (i_name inst)) (i_cell inst) path m \<Longrightarrow>
    hier mods p0 m0 path m"

text \<open>\<open>local_edge mods path m a b\<close>: the module \<open>m\<close>, standing at \<open>path\<close>, connects the nets \<open>a\<close> and \<open>b\<close>.\<close>

inductive local_edge :: "modules \<Rightarrow> string \<Rightarrow> string \<Rightarrow> string \<Rightarrow> string \<Rightarrow> bool" for mods where
  supplies: "map_of mods m = Some md \<Longrightarrow> (n, v) \<in> set (md_supply md) \<Longrightarrow>
    local_edge mods path m (net_key path n) (net_key path v)"
| assigns: "map_of mods m = Some md \<Longrightarrow> (lhs, rhs) \<in> set (md_assigns md) \<Longrightarrow>
    expr_bits lhs (md_width md) = Inr lb \<Longrightarrow> expr_bits rhs (md_width md) = Inr rb \<Longrightarrow>
    (a, b) \<in> set (zip lb rb) \<Longrightarrow> local_edge mods path m (net_key path a) (net_key path b)"
| ports: "map_of mods m = Some md \<Longrightarrow> inst \<in> set (md_insts md) \<Longrightarrow>
    hier_module mods (i_cell inst) = Some child \<Longrightarrow> (pin, e) \<in> set (i_conns inst) \<Longrightarrow>
    expr_bits e (md_width md) = Inr pbits \<Longrightarrow> (a, b) \<in> set (zip pbits (port_bits (md_width child) pin)) \<Longrightarrow>
    local_edge mods path m (net_key path a) (net_key (sub_path path (i_name inst)) b)"

definition design_edges :: "modules \<Rightarrow> string \<Rightarrow> string \<Rightarrow> (string \<times> string) set" where
  "design_edges mods p0 m0 = {(a, b). \<exists>path m. hier mods p0 m0 path m \<and> local_edge mods path m a b}"

definition design_leaf :: "modules \<Rightarrow> string \<Rightarrow> string \<Rightarrow> leaf \<Rightarrow> bool" where
  "design_leaf mods p0 m0 lf \<longleftrightarrow> (case lf of (path, inst, m) \<Rightarrow>
     hier mods p0 m0 path m \<and> hier_module mods (i_cell inst) = None \<and>
     (\<exists>md. map_of mods m = Some md \<and> inst \<in> set (md_insts md)))"

section \<open>\_walk adds the connections and the leaves of the design\<close>

text \<open>The connections of the pairs of bits, as a set of pairs of nets.\<close>

definition bit_edges :: "string \<Rightarrow> string \<Rightarrow> (string \<times> string) list \<Rightarrow> (string \<times> string) set" where
  "bit_edges pa pb bs = (\<lambda>(a, b). (net_key pa a, net_key pb b)) ` set bs"

lemma connect_bits_stands:
  assumes "uf.stands_for u E" and "connect_bits pa pb bs u = Inr u'"
  shows "uf.stands_for u' (E \<union> bit_edges pa pb bs)"
proof -
  have "efold (\<lambda>u (a, b). uf_connect (pa, a) (pb, b) u) u bs =
      efold (\<lambda>u (a, b). uf_connect a b u) u (map (\<lambda>(a, b). ((pa, a), (pb, b))) bs)"
    by (induction bs arbitrary: u) (auto cong: ebind_cong)
  with uf.connect_list [OF assms(1), of "map (\<lambda>(a, b). ((pa, a), (pb, b))) bs"] assms(2)
  show ?thesis by (simp add: connect_bits_def bit_edges_def image_image case_prod_beta)
qed

lemma connect_bits_total:
  assumes "uf.stands_for u E"
  shows "\<exists>u'. connect_bits pa pb bs u = Inr u'"
proof -
  have "efold (\<lambda>u (a, b). uf_connect (pa, a) (pb, b) u) u bs =
      efold (\<lambda>u (a, b). uf_connect a b u) u (map (\<lambda>(a, b). ((pa, a), (pb, b))) bs)"
    by (induction bs arbitrary: u) (auto cong: ebind_cong)
  with uf.connect_list [OF assms(1), of "map (\<lambda>(a, b). ((pa, a), (pb, b))) bs"]
  show ?thesis by (auto simp: connect_bits_def)
qed

text \<open>A loop whose body adds the connections \<open>f x\<close> adds all of them.\<close>

lemma efold_stands:
  assumes "efold g u xs = Inr u'" and "uf.stands_for u E"
    and "\<And>u x u' E. x \<in> set xs \<Longrightarrow> uf.stands_for u E \<Longrightarrow> g u x = Inr u' \<Longrightarrow> uf.stands_for u' (E \<union> f x)"
  shows "uf.stands_for u' (E \<union> \<Union> (f ` set xs))"
  using assms
proof (induction xs arbitrary: u E)
  case (Cons x xs)
  from Cons.prems(1) obtain u1 where u1: "g u x = Inr u1" "efold g u1 xs = Inr u'"
    by (auto simp: ebind_eq_Inr)
  have "uf.stands_for u1 (E \<union> f x)" using Cons.prems(2,3) u1(1) by simp
  from Cons.IH [OF u1(2) this] Cons.prems(3) show ?case by (simp add: Un_assoc)
qed simp

definition assign_edges :: "string \<Rightarrow> module \<Rightarrow> string \<times> string \<Rightarrow> (string \<times> string) set" where
  "assign_edges path md a = {e. \<exists>lb rb. expr_bits (fst a) (md_width md) = Inr lb \<and>
     expr_bits (snd a) (md_width md) = Inr rb \<and> e \<in> bit_edges path path (zip lb rb)}"

definition conn_edges :: "string \<Rightarrow> module \<Rightarrow> module \<Rightarrow> inst \<Rightarrow> string \<times> string \<Rightarrow> (string \<times> string) set" where
  "conn_edges path md child inst c = {e. \<exists>pbits. expr_bits (snd c) (md_width md) = Inr pbits \<and>
     e \<in> bit_edges path (sub_path path (i_name inst)) (zip pbits (port_bits (md_width child) (fst c)))}"

lemma walk_assign_stands:
  assumes "uf.stands_for u E" and "walk_assign mname path md u a = Inr u'"
  shows "uf.stands_for u' (E \<union> assign_edges path md a)"
proof -
  from assms(2) obtain lb rb where b: "expr_bits (fst a) (md_width md) = Inr lb"
      "expr_bits (snd a) (md_width md) = Inr rb"
    and "connect_bits path path (zip lb rb) u = Inr u'"
    by (auto simp: walk_assign_def ebind_eq_Inr split: if_splits)
  from connect_bits_stands [OF assms(1) this(3)] b show ?thesis by (simp add: assign_edges_def)
qed

lemma walk_conn_stands:
  assumes "uf.stands_for u E" and "walk_conn mname path md child inst u c = Inr u'"
  shows "uf.stands_for u' (E \<union> conn_edges path md child inst c)"
proof -
  from assms(2) obtain pbits where b: "expr_bits (snd c) (md_width md) = Inr pbits"
    and "connect_bits path (sub_path path (i_name inst)) (zip pbits (port_bits (md_width child) (fst c))) u = Inr u'"
    by (auto simp: walk_conn_def Let_def ebind_eq_Inr split: if_splits)
  from connect_bits_stands [OF assms(1) this(2)] b show ?thesis by (simp add: conn_edges_def)
qed

text \<open>The connections and leaves of a design, module by module.\<close>

definition inst_edges :: "modules \<Rightarrow> string \<Rightarrow> module \<Rightarrow> inst \<Rightarrow> (string \<times> string) set" where
  "inst_edges mods path md inst =
     (case hier_module mods (i_cell inst) of
        None \<Rightarrow> {}
      | Some child \<Rightarrow> \<Union> (conn_edges path md child inst ` set (i_conns inst)) \<union>
          design_edges mods (sub_path path (i_name inst)) (i_cell inst))"

definition inst_leaves :: "modules \<Rightarrow> string \<Rightarrow> string \<Rightarrow> inst \<Rightarrow> leaf set" where
  "inst_leaves mods path mname inst =
     (if hier_module mods (i_cell inst) = None then {(path, inst, mname)}
      else {lf. design_leaf mods (sub_path path (i_name inst)) (i_cell inst) lf})"

lemma hier_unfold:
  assumes "map_of mods m0 = Some md"
  shows "hier mods p0 m0 path m \<longleftrightarrow> path = p0 \<and> m = m0 \<or>
    (\<exists>inst \<in> set (md_insts md). hier_module mods (i_cell inst) \<noteq> None \<and>
       hier mods (sub_path p0 (i_name inst)) (i_cell inst) path m)"
  (is "?L \<longleftrightarrow> ?R")
proof
  assume ?L
  then show ?R by (cases rule: hier.cases) (use assms in auto)
next
  assume ?R
  then show ?L using hier.here [of mods m0] hier.below [OF assms] assms by blast
qed

lemma local_edges:
  assumes "map_of mods m = Some md"
  shows "{(a, b). local_edge mods path m a b} =
    bit_edges path path (md_supply md) \<union> \<Union> (assign_edges path md ` set (md_assigns md)) \<union>
    {e. \<exists>inst \<in> set (md_insts md). \<exists>child. hier_module mods (i_cell inst) = Some child \<and>
        (\<exists>c \<in> set (i_conns inst). e \<in> conn_edges path md child inst c)}"
    (is "?L = ?R")
proof (intro equalityI subsetI)
  fix e
  assume "e \<in> ?L"
  then obtain a b where e: "e = (a, b)" and "local_edge mods path m a b" by blast
  from this(2) show "e \<in> ?R"
  proof (cases rule: local_edge.cases)
    case (supplies md' n v)
    then show ?thesis using assms e by (auto simp: bit_edges_def intro!: image_eqI)
  next
    case (assigns md' lhs rhs lb rb a' b')
    then have "e \<in> assign_edges path md (lhs, rhs)" and "(lhs, rhs) \<in> set (md_assigns md)"
      using assms e by (auto simp: assign_edges_def bit_edges_def intro!: image_eqI)
    then show ?thesis by blast
  next
    case (ports md' inst child pin ex pbits a' b')
    then have "e \<in> conn_edges path md child inst (pin, ex)" and "(pin, ex) \<in> set (i_conns inst)"
      and "inst \<in> set (md_insts md)" and "hier_module mods (i_cell inst) = Some child"
      using assms e by (auto simp: conn_edges_def bit_edges_def intro!: image_eqI)
    then show ?thesis by blast
  qed
next
  fix e
  assume "e \<in> ?R"
  then consider "e \<in> bit_edges path path (md_supply md)"
    | a where "a \<in> set (md_assigns md)" "e \<in> assign_edges path md a"
    | inst child c where "inst \<in> set (md_insts md)" "hier_module mods (i_cell inst) = Some child"
        "c \<in> set (i_conns inst)" "e \<in> conn_edges path md child inst c" by blast
  then show "e \<in> ?L"
  proof cases
    case 1
    then show ?thesis using local_edge.supplies [OF assms] by (auto simp: bit_edges_def)
  next
    case 2
    then show ?thesis using local_edge.assigns [OF assms, of "fst a" "snd a"]
      by (auto simp: assign_edges_def bit_edges_def)
  next
    case 3
    then show ?thesis using local_edge.ports [OF assms, of inst child "fst c" "snd c"]
      by (auto simp: conn_edges_def bit_edges_def)
  qed
qed

lemma inst_edges_iff:
  "e \<in> inst_edges mods path md inst \<longleftrightarrow> (\<exists>child. hier_module mods (i_cell inst) = Some child \<and>
     ((\<exists>c \<in> set (i_conns inst). e \<in> conn_edges path md child inst c) \<or>
      e \<in> design_edges mods (sub_path path (i_name inst)) (i_cell inst)))"
  by (cases "hier_module mods (i_cell inst)") (simp_all add: inst_edges_def)

lemma design_edges_eq:
  assumes "map_of mods m = Some md"
  shows "design_edges mods path m = bit_edges path path (md_supply md) \<union>
    \<Union> (assign_edges path md ` set (md_assigns md)) \<union> \<Union> (inst_edges mods path md ` set (md_insts md))"
proof -
  have "design_edges mods path m = {(a, b). local_edge mods path m a b} \<union>
      {e. \<exists>inst \<in> set (md_insts md). hier_module mods (i_cell inst) \<noteq> None \<and>
        e \<in> design_edges mods (sub_path path (i_name inst)) (i_cell inst)}"
    unfolding design_edges_def hier_unfold [OF assms] by blast
  moreover have "\<Union> (inst_edges mods path md ` set (md_insts md)) =
      {e. \<exists>inst \<in> set (md_insts md). \<exists>child. hier_module mods (i_cell inst) = Some child \<and>
        (\<exists>c \<in> set (i_conns inst). e \<in> conn_edges path md child inst c)} \<union>
      {e. \<exists>inst \<in> set (md_insts md). hier_module mods (i_cell inst) \<noteq> None \<and>
        e \<in> design_edges mods (sub_path path (i_name inst)) (i_cell inst)}"
    by (intro set_eqI) (simp add: inst_edges_iff, blast)
  ultimately show ?thesis unfolding local_edges [OF assms] by (simp only: Un_assoc)
qed

lemma design_leaf_eq:
  assumes "map_of mods m = Some md"
  shows "{lf. design_leaf mods path m lf} = \<Union> (inst_leaves mods path m ` set (md_insts md))"
  unfolding design_leaf_def hier_unfold [OF assms] inst_leaves_def
  using assms by (auto split: if_splits)

lemma walk_inst_stands:
  assumes rec: "\<And>mname path u ls u' ls' E. rec mname path (u, ls) = Inr (u', ls') \<Longrightarrow> uf.stands_for u E \<Longrightarrow>
      uf.stands_for u' (E \<union> design_edges mods path mname) \<and>
      set ls' = set ls \<union> {lf. design_leaf mods path mname lf}"
    and "walk_inst rec mods mname path md (u, ls) inst = Inr (u', ls')" and "uf.stands_for u E"
  shows "uf.stands_for u' (E \<union> inst_edges mods path md inst) \<and>
    set ls' = set ls \<union> inst_leaves mods path mname inst"
proof (cases "hier_module mods (i_cell inst)")
  case None
  with assms(2) have "u' = u" "ls' = ls @ [(path, inst, mname)]" by (simp_all add: walk_inst_def)
  with None assms(3) show ?thesis by (simp add: inst_edges_def inst_leaves_def)
next
  case (Some child)
  with assms(2) obtain u1 where u1: "efold (walk_conn mname path md child inst) u (i_conns inst) = Inr u1"
    and r: "rec (i_cell inst) (sub_path path (i_name inst)) (u1, ls) = Inr (u', ls')"
    by (auto simp: walk_inst_def ebind_eq_Inr)
  have "uf.stands_for u1 (E \<union> \<Union> (conn_edges path md child inst ` set (i_conns inst)))"
    by (rule efold_stands [OF u1 assms(3)]) (rule walk_conn_stands)
  from rec [OF r this] Some show ?thesis by (simp add: inst_edges_def inst_leaves_def Un_assoc)
qed

lemma walk_insts_stands:
  assumes rec: "\<And>mname path u ls u' ls' E. rec mname path (u, ls) = Inr (u', ls') \<Longrightarrow> uf.stands_for u E \<Longrightarrow>
      uf.stands_for u' (E \<union> design_edges mods path mname) \<and>
      set ls' = set ls \<union> {lf. design_leaf mods path mname lf}"
    and "efold (walk_inst rec mods mname path md) (u, ls) is = Inr (u', ls')" and "uf.stands_for u E"
  shows "uf.stands_for u' (E \<union> \<Union> (inst_edges mods path md ` set is)) \<and>
    set ls' = set ls \<union> \<Union> (inst_leaves mods path mname ` set is)"
  using assms(2,3)
proof (induction "is" arbitrary: u ls E)
  case (Cons i "is")
  from Cons.prems(1) obtain u1 ls1 where 1: "walk_inst rec mods mname path md (u, ls) i = Inr (u1, ls1)"
    and 2: "efold (walk_inst rec mods mname path md) (u1, ls1) is = Inr (u', ls')"
    by (auto simp: ebind_eq_Inr)
  from walk_inst_stands [OF rec 1 Cons.prems(2)] Cons.IH [OF 2, of "E \<union> inst_edges mods path md i"]
  show ?case by (auto simp: Un_assoc)
qed simp

lemma walk_stands:
  "walk n mods mname path (u, ls) = Inr (u', ls') \<Longrightarrow> uf.stands_for u E \<Longrightarrow>
    uf.stands_for u' (E \<union> design_edges mods path mname) \<and>
    set ls' = set ls \<union> {lf. design_leaf mods path mname lf}"
proof (induction n arbitrary: mname path u ls u' ls' E)
  case (Suc n)
  from Suc.prems(1) obtain md u1 u2 where md: "map_of mods mname = Some md"
    and u1: "connect_bits path path (md_supply md) u = Inr u1"
    and u2: "efold (walk_assign mname path md) u1 (md_assigns md) = Inr u2"
    and r: "efold (walk_inst (walk n mods) mods mname path md) (u2, ls) (md_insts md) = Inr (u', ls')"
    by (auto simp: ebind_eq_Inr walk_supply_def split: option.splits)
  have 1: "uf.stands_for u1 (E \<union> bit_edges path path (md_supply md))"
    by (rule connect_bits_stands [OF Suc.prems(2) u1])
  have 2: "uf.stands_for u2 (E \<union> bit_edges path path (md_supply md) \<union>
      \<Union> (assign_edges path md ` set (md_assigns md)))"
    by (rule efold_stands [OF u2 1]) (rule walk_assign_stands)
  from walk_insts_stands [OF Suc.IH r 2] show ?case
    by (simp add: design_edges_eq [OF md] design_leaf_eq [OF md] Un_assoc)
qed simp

section \<open>The pins of a net\<close>

text \<open>The pins in the order of the leaves, each with the net it is on: what \<open>pins\<close> is made of.\<close>

definition conn_pins :: "modules \<Rightarrow> (string \<times> string) list \<Rightarrow> nat \<Rightarrow> leaf \<Rightarrow> string \<times> string \<Rightarrow>
    (string \<times> pin_entry) list" where
  "conn_pins mods dirs li lf c =
     (case lf of (path, inst, owner) \<Rightarrow>
        case map_of mods owner of
          None \<Rightarrow> []
        | Some md \<Rightarrow>
            (case expr_bits (snd c) (md_width md) of
               Inl e \<Rightarrow> []
             | Inr bits \<Rightarrow> map (\<lambda>(b, p). (net_key path b, (li, p, dict_get dirs (fst c) ''?'')))
                 (zip bits (pin_bits mods (i_cell inst) (fst c) (length bits)))))"

definition leaf_pins :: "modules \<Rightarrow> cell_dirs \<Rightarrow> nat \<times> leaf \<Rightarrow> (string \<times> pin_entry) list" where
  "leaf_pins mods cds lil =
     (case leaf_dirs mods cds (i_cell (fst (snd (snd lil)))) of
        Inl e \<Rightarrow> []
      | Inr dirs \<Rightarrow> concat (map (conn_pins mods dirs (fst lil) (snd lil)) (i_conns (fst (snd (snd lil))))))"

definition all_pins :: "modules \<Rightarrow> cell_dirs \<Rightarrow> leaf list \<Rightarrow> (string \<times> pin_entry) list" where
  "all_pins mods cds leaves = concat (map (leaf_pins mods cds) (enumerate 0 leaves))"

text \<open>\<open>grows st l st'\<close>: the pins \<open>l\<close> were added, each under the representative of its net.\<close>

definition grows :: "pin_state \<Rightarrow> (string \<times> pin_entry) list \<Rightarrow> pin_state \<Rightarrow> bool" where
  "grows st l st' \<longleftrightarrow> uf_wf (fst st') \<and> rep (fst st') = rep (fst st) \<and>
     (\<forall>r. dict_get (snd st') r [] = dict_get (snd st) r [] @
        map snd (filter (\<lambda>kx. rep (fst st) (fst kx) = r) l))"

lemma grows_refl: "uf_wf (fst st) \<Longrightarrow> grows st [] st"
  by (simp add: grows_def)

lemma grows_trans: "grows st l st1 \<Longrightarrow> grows st1 l' st2 \<Longrightarrow> grows st (l @ l') st2"
  by (simp add: grows_def)

lemma efold_grows:
  assumes "efold g st xs = Inr st'" and "uf_wf (fst st)"
    and "\<And>st x st'. x \<in> set xs \<Longrightarrow> uf_wf (fst st) \<Longrightarrow> g st x = Inr st' \<Longrightarrow> grows st (f x) st'"
  shows "grows st (concat (map f xs)) st'"
  using assms
proof (induction xs arbitrary: st)
  case Nil
  then show ?case by (simp add: grows_refl)
next
  case (Cons x xs)
  from Cons.prems(1) obtain st1 where st1: "g st x = Inr st1" "efold g st1 xs = Inr st'"
    by (auto simp: ebind_eq_Inr)
  have 1: "grows st (f x) st1" using Cons.prems(2,3) st1(1) by simp
  have "grows st1 (concat (map f xs)) st'"
  proof (rule Cons.IH [OF st1(2)])
    show "uf_wf (fst st1)" using 1 by (simp add: grows_def)
    show "grows s (f y) s'" if "y \<in> set xs" "uf_wf (fst s)" "g s y = Inr s'" for s y s'
      using Cons.prems(3) that by simp
  qed
  with 1 show ?case by (simp add: grows_trans)
qed

lemma pin_bit_grows:
  assumes "uf_wf (fst st)" and "pin_bit li path d st bp = Inr st'"
  shows "grows st [(net_key path (fst bp), (li, snd bp, d))] st'"
proof -
  from uf_lookup_spec [OF assms(1), of "(path, fst bp)"] obtain u where
    "uf_lookup (path, fst bp) (fst st) = Inr (rep (fst st) (net_key path (fst bp)), u)"
    "uf_wf u" "rep u = rep (fst st)" by auto
  with assms(2) show ?thesis
    by (auto simp: pin_bit_def grows_def add_pin_def dict_get_def dict_set_lookup)
qed

lemma pin_conn_grows:
  assumes "uf_wf (fst st)" and "pin_conn mods dirs li lf st c = Inr st'"
  shows "grows st (conn_pins mods dirs li lf c) st'"
proof -
  obtain path inst owner where lf: "lf = (path, inst, owner)" by (cases lf)
  from assms(2) obtain md bits where md: "map_of mods owner = Some md"
    and bits: "expr_bits (snd c) (md_width md) = Inr bits"
    and f: "efold (pin_bit li path (dict_get dirs (fst c) ''?'')) st
      (zip bits (pin_bits mods (i_cell inst) (fst c) (length bits))) = Inr st'"
    by (auto simp: pin_conn_def lf ebind_eq_Inr split: option.splits)
  have "concat (map (\<lambda>bp. [(net_key path (fst bp), (li, snd bp, dict_get dirs (fst c) ''?''))])
      (zip bits (pin_bits mods (i_cell inst) (fst c) (length bits)))) = conn_pins mods dirs li lf c"
    by (simp add: conn_pins_def lf md bits case_prod_beta)
  with efold_grows [OF f assms(1), of "\<lambda>bp. [(net_key path (fst bp), (li, snd bp, dict_get dirs (fst c) ''?''))]"]
    pin_bit_grows show ?thesis by simp
qed

lemma pin_leaf_grows:
  assumes "uf_wf (fst st)" and "pin_leaf mods cds st lil = Inr st'"
  shows "grows st (leaf_pins mods cds lil) st'"
proof -
  obtain li lf where lil: "lil = (li, lf)" by (cases lil)
  from assms(2) obtain dirs where d: "leaf_dirs mods cds (i_cell (fst (snd lf))) = Inr dirs"
    and f: "efold (pin_conn mods dirs li lf) st (i_conns (fst (snd lf))) = Inr st'"
    by (auto simp: pin_leaf_def lil ebind_eq_Inr)
  have "grows st (concat (map (conn_pins mods dirs li lf) (i_conns (fst (snd lf))))) st'"
    by (rule efold_grows [OF f assms(1)]) (rule pin_conn_grows)
  with d show ?thesis by (simp add: leaf_pins_def lil)
qed

text \<open>What \<open>__init__\<close> computes.\<close>

lemma flat_new_spec:
  assumes "flat_new limit mods topm cds = Inr f"
  shows "uf.stands_for (f_uf f) (design_edges mods [] topm)"
    and "set (f_leaves f) = {lf. design_leaf mods [] topm lf}"
    and "dict_get (f_pins f) r [] =
      map snd (filter (\<lambda>kx. rep (f_uf f) (fst kx) = r) (all_pins mods cds (f_leaves f)))"
    and "f_mods f = mods" and "f_top f = topm" and "f_cell_dirs f = cds"
proof -
  from assms obtain u where w: "walk limit mods topm [] (uf_init, []) = Inr (u, f_leaves f)"
    and p: "efold (pin_leaf mods cds) (u, []) (enumerate 0 (f_leaves f)) = Inr (f_uf f, f_pins f)"
    and eqs: "f_mods f = mods" "f_top f = topm" "f_cell_dirs f = cds"
    by (auto simp: flat_new_def ebind_eq_Inr)
  from walk_stands [OF w uf.start_stands]
  have u: "uf.stands_for u (design_edges mods [] topm)"
    and l: "set (f_leaves f) = {lf. design_leaf mods [] topm lf}" by simp_all
  have "grows (u, []) (concat (map (leaf_pins mods cds) (enumerate 0 (f_leaves f)))) (f_uf f, f_pins f)"
    using uf.stands_wf [OF u] by (intro efold_grows [OF p]) (auto intro: pin_leaf_grows)
  then have g: "grows (u, []) (all_pins mods cds (f_leaves f)) (f_uf f, f_pins f)"
    by (simp add: all_pins_def)
  then show "uf.stands_for (f_uf f) (design_edges mods [] topm)"
    using u by (simp add: grows_def uf.stands_for_def)
  show "dict_get (f_pins f) r [] =
      map snd (filter (\<lambda>kx. rep (f_uf f) (fst kx) = r) (all_pins mods cds (f_leaves f)))"
    using g by (simp add: grows_def dict_get_def)
  show "set (f_leaves f) = {lf. design_leaf mods [] topm lf}" by (rule l)
  show "f_mods f = mods" "f_top f = topm" "f_cell_dirs f = cds" by (rule eqs)+
qed

text \<open>A dictionary has every key once.\<close>

lemma pins_distinct:
  "distinct (map fst (snd st)) \<Longrightarrow> pin_bit li path d st bp = Inr st' \<Longrightarrow> distinct (map fst (snd st'))"
  "distinct (map fst (snd st)) \<Longrightarrow> pin_conn mods dirs li lf st c = Inr st' \<Longrightarrow> distinct (map fst (snd st'))"
  "distinct (map fst (snd st)) \<Longrightarrow> pin_leaf mods cds st lil = Inr st' \<Longrightarrow> distinct (map fst (snd st'))"
proof -
  let ?P = "\<lambda>st :: pin_state. distinct (map fst (snd st))"
  have 1: "?P st \<Longrightarrow> pin_bit li path d st bp = Inr st' \<Longrightarrow> ?P st'" for li path d st bp st'
    by (auto simp: pin_bit_def ebind_eq_Inr add_pin_def dict_set_distinct)
  have 2: "?P st \<Longrightarrow> pin_conn mods dirs li lf st c = Inr st' \<Longrightarrow> ?P st'" for dirs li lf st c st'
    by (auto simp: pin_conn_def ebind_eq_Inr split: prod.splits option.splits
        elim!: efold_inv [where P = ?P] intro: 1)
  have 3: "?P st \<Longrightarrow> pin_leaf mods cds st lil = Inr st' \<Longrightarrow> ?P st'" for st lil st'
    by (auto simp: pin_leaf_def ebind_eq_Inr split: prod.splits elim!: efold_inv [where P = ?P] intro: 2)
  show "?P st \<Longrightarrow> pin_bit li path d st bp = Inr st' \<Longrightarrow> ?P st'"
    "?P st \<Longrightarrow> pin_conn mods dirs li lf st c = Inr st' \<Longrightarrow> ?P st'"
    "?P st \<Longrightarrow> pin_leaf mods cds st lil = Inr st' \<Longrightarrow> ?P st'" by (fact 1, fact 2, fact 3)
qed

lemma flat_pins_distinct:
  assumes "flat_new limit mods topm cds = Inr f"
  shows "distinct (map fst (f_pins f))"
proof -
  from assms obtain u where p: "efold (pin_leaf mods cds) (u, []) (enumerate 0 (f_leaves f)) = Inr (f_uf f, f_pins f)"
    by (auto simp: flat_new_def ebind_eq_Inr)
  have "distinct (map fst (snd (f_uf f, f_pins f)))"
    by (rule efold_inv [where P = "\<lambda>st :: pin_state. distinct (map fst (snd st))", OF p])
      (simp, rule pins_distinct(3))
  then show ?thesis by simp
qed

lemma flat_pin_entry:
  assumes "flat_new limit mods topm cds = Inr f"
  shows "(\<exists>ps. (r, ps) \<in> set (f_pins f) \<and> x \<in> set ps) \<longleftrightarrow>
    (\<exists>k. (k, x) \<in> set (all_pins mods cds (f_leaves f)) \<and> rep (f_uf f) k = r)"
proof -
  have "(r, ps) \<in> set (f_pins f) \<longleftrightarrow> map_of (f_pins f) r = Some ps" for ps
    using flat_pins_distinct [OF assms] map_of_eq_Some_iff by metis
  then have "(\<exists>ps. (r, ps) \<in> set (f_pins f) \<and> x \<in> set ps) \<longleftrightarrow> x \<in> set (dict_get (f_pins f) r [])"
    by (cases "map_of (f_pins f) r") (auto simp: dict_get_def)
  also have "\<dots> \<longleftrightarrow> (\<exists>k. (k, x) \<in> set (all_pins mods cds (f_leaves f)) \<and> rep (f_uf f) k = r)"
    unfolding flat_new_spec(3) [OF assms] by force
  finally show ?thesis .
qed

section \<open>The limit on nested calls\<close>

text \<open>\<open>sub_module mods m c\<close>: the module \<open>m\<close> has an instance of the module \<open>c\<close>.\<close>

inductive sub_module :: "modules \<Rightarrow> string \<Rightarrow> string \<Rightarrow> bool" for mods where
  "map_of mods m = Some md \<Longrightarrow> inst \<in> set (md_insts md) \<Longrightarrow> hier_module mods (i_cell inst) \<noteq> None \<Longrightarrow>
    sub_module mods m (i_cell inst)"

lemma efold_reaches:
  assumes "efold g st xs = Inr st'" and "x \<in> set xs"
  shows "\<exists>s s'. g s x = Inr s'"
  using assms
proof (induction xs arbitrary: st)
  case (Cons y ys)
  then show ?case by (auto simp: ebind_eq_Inr)
qed simp

lemma walk_sub:
  assumes "walk n mods m path st = Inr st'" and "sub_module mods m c"
  shows "\<exists>n' path' s s'. n' < n \<and> walk n' mods c path' s = Inr s'"
  using assms(2)
proof (cases rule: sub_module.cases)
  case (1 md inst)
  from assms(1) obtain n' where n: "n = Suc n'" by (cases n) auto
  with assms(1) 1(2) obtain u where
    "efold (walk_inst (walk n' mods) mods m path md) (u, snd st) (md_insts md) = Inr st'"
    by (auto simp: ebind_eq_Inr)
  from efold_reaches [OF this 1(3)] obtain s s' where
    "walk_inst (walk n' mods) mods m path md s inst = Inr s'" by blast
  with 1(1,4) obtain p u' where "walk n' mods c p (u', snd s) = Inr s'"
    by (auto simp: walk_inst_def ebind_eq_Inr)
  with n show ?thesis by blast
qed

lemma walk_sub_trancl:
  assumes "(sub_module mods)\<^sup>+\<^sup>+ m c" and "walk n mods m path st = Inr st'"
  shows "\<exists>n' path' s s'. n' < n \<and> walk n' mods c path' s = Inr s'"
  using assms(1)
proof (induction rule: tranclp_induct)
  case (base c)
  then show ?case using walk_sub [OF assms(2)] by blast
next
  case (step c d)
  then obtain n' path' s s' where n': "n' < n" "walk n' mods c path' s = Inr s'" by blast
  from walk_sub [OF n'(2) step.hyps(2)] n'(1) show ?case by (meson less_trans)
qed

lemma walk_no_cycle: "walk n mods m path st = Inr st' \<Longrightarrow> \<not> (sub_module mods)\<^sup>+\<^sup>+ m m"
proof (induction n arbitrary: path st st' rule: less_induct)
  case (less n)
  then show ?case using walk_sub_trancl by blast
qed

lemma hier_sub: "hier mods p0 m0 path m \<Longrightarrow> m = m0 \<or> (sub_module mods)\<^sup>+\<^sup>+ m0 m"
proof (induction rule: hier.induct)
  case (below m0 md inst p0 path m)
  have "sub_module mods m0 (i_cell inst)" by (rule sub_module.intros) (rule below)+
  with below.IH show ?case by (metis tranclp.r_into_trancl tranclp_into_tranclp2)
qed simp

text \<open>When every instance is of a module of lower rank, a limit above the rank is enough.\<close>

definition ranked :: "modules \<Rightarrow> (string \<Rightarrow> nat) \<Rightarrow> bool" where
  "ranked mods rank \<longleftrightarrow> (\<forall>m c. sub_module mods m c \<longrightarrow> rank c < rank m)"

lemma walk_enough:
  assumes "ranked mods rank" and "rank m < n" and "rank m < k"
  shows "walk n mods m path st = walk k mods m path st"
  using assms(2,3)
proof (induction n arbitrary: k m path st)
  case (Suc n)
  then obtain k' where k: "k = Suc k'" by (cases k) auto
  have "walk_inst (walk n mods) mods m path md s inst = walk_inst (walk k' mods) mods m path md s inst"
    if md: "map_of mods m = Some md" "inst \<in> set (md_insts md)" for md s inst
  proof (cases "hier_module mods (i_cell inst)")
    case (Some child)
    then have "sub_module mods m (i_cell inst)" using md by (intro sub_module.intros) auto
    then have "rank (i_cell inst) < rank m" using assms(1) by (simp add: ranked_def)
    then have "rank (i_cell inst) < n" "rank (i_cell inst) < k'" using Suc.prems k by simp_all
    then have "walk n mods (i_cell inst) p s = walk k' mods (i_cell inst) p s" for p s
      by (rule Suc.IH)
    then show ?thesis by (simp add: walk_inst_def Some)
  qed (simp add: walk_inst_def)
  then show ?case by (simp add: k cong: efold_cong split: option.split)
qed simp

text \<open>Which errors a loop and an expression can raise.\<close>

lemma efold_error:
  assumes "efold g st xs = Inl e" and "P st"
    and "\<And>s x s'. x \<in> set xs \<Longrightarrow> P s \<Longrightarrow> g s x = Inr s' \<Longrightarrow> P s'"
  shows "\<exists>s x. x \<in> set xs \<and> P s \<and> g s x = Inl e"
  using assms
proof (induction xs arbitrary: st)
  case (Cons x xs)
  show ?case
  proof (cases "g st x")
    case (Inl e')
    with Cons.prems(1,2) show ?thesis by auto
  next
    case (Inr s1)
    with Cons.prems have "efold g s1 xs = Inl e" "P s1" by auto
    then have "\<exists>s y. y \<in> set xs \<and> P s \<and> g s y = Inl e"
      using Cons.prems(3) by (intro Cons.IH) auto
    then show ?thesis by auto
  qed
qed simp

lemma py_int_error: "py_int s b \<noteq> Inl RecursionError"
  by (simp add: py_int_def Let_def split: option.splits)

lemma value_bits_error:
  "const_value_bits c \<noteq> Inl RecursionError" "range_bits c \<noteq> Inl RecursionError"
  unfolding const_value_bits_def range_bits_def ebind_eq_Inl by (simp_all add: py_int_error)

lemma simple_bits_error: "simple_bits x w \<noteq> Inl RecursionError"
  unfolding simple_bits_def by (simp add: value_bits_error split: option.split)

lemma emap_error: "emap f xs = Inl e \<Longrightarrow> \<exists>x \<in> set xs. f x = Inl e"
  by (induction xs) (auto simp: ebind_eq_Inl)

lemma expr_bits_error: "expr_bits x w \<noteq> Inl RecursionError"
proof (induction x w rule: expr_bits.induct)
  case (1 x w)
  let ?x = "py_strip x"
  show ?case
  proof (cases "?x = [] \<or> hd ?x \<noteq> CHR ''{'' \<or> last ?x \<noteq> CHR ''}''")
    case True
    then show ?thesis by (auto simp: expr_bits.simps [of x w] Let_def simple_bits_error)
  next
    case False
    have "emap (\<lambda>part. expr_bits part w) (split_top (inner ?x)) \<noteq> Inl RecursionError"
    proof
      assume "emap (\<lambda>part. expr_bits part w) (split_top (inner ?x)) = Inl RecursionError"
      from emap_error [OF this] obtain part where
        "part \<in> set (split_top (inner ?x))" "expr_bits part w = Inl RecursionError" by blast
      with "1.IH" [OF refl] False show False by simp
    qed
    with False show ?thesis by (simp add: expr_bits.simps [of x w] Let_def ebind_eq_Inl)
  qed
qed

abbreviation standing :: "uf \<Rightarrow> bool" where
  "standing u \<equiv> \<exists>E. uf.stands_for u E"

lemma connect_bits_standing:
  assumes "standing u"
  shows "\<exists>u'. connect_bits pa pb bs u = Inr u' \<and> standing u'"
  using assms connect_bits_total connect_bits_stands by blast

lemma connect_bits_error: "standing u \<Longrightarrow> connect_bits pa pb bs u \<noteq> Inl RecursionError"
  using connect_bits_standing [of u pa pb bs] by auto

lemma walk_assign_error: "standing u \<Longrightarrow> walk_assign mname path md u a \<noteq> Inl RecursionError"
  unfolding walk_assign_def ebind_eq_Inl by (simp add: expr_bits_error connect_bits_error)

lemma walk_conn_error: "standing u \<Longrightarrow> walk_conn mname path md child inst u c \<noteq> Inl RecursionError"
  unfolding walk_conn_def Let_def ebind_eq_Inl by (simp add: expr_bits_error connect_bits_error)

lemma walk_inst_error:
  assumes "standing (fst st)" and "walk_inst rec mods mname path md st inst = Inl RecursionError"
  obtains child s where "hier_module mods (i_cell inst) = Some child" and "standing (fst s)"
    and "rec (i_cell inst) (sub_path path (i_name inst)) s = Inl RecursionError"
proof -
  obtain child where child: "hier_module mods (i_cell inst) = Some child"
    using assms(2) by (auto simp: walk_inst_def split: option.splits)
  let ?loop = "efold (walk_conn mname path md child inst) (fst st) (i_conns inst)"
  have "?loop \<noteq> Inl RecursionError"
    using efold_error [of _ "fst st" "i_conns inst" RecursionError standing] assms(1)
      walk_conn_stands walk_conn_error by blast
  then obtain u where u: "?loop = Inr u"
    and r: "rec (i_cell inst) (sub_path path (i_name inst)) (u, snd st) = Inl RecursionError"
    using assms(2) child by (auto simp: walk_inst_def ebind_eq_Inl)
  have "standing u"
    using efold_inv [OF u, of standing] assms(1) walk_conn_stands by blast
  with child r show ?thesis by (intro that [of child "(u, snd st)"]) simp_all
qed

lemma walk_depth:
  assumes "ranked mods rank" and "rank m < n" and "standing (fst st)"
  shows "walk n mods m path st \<noteq> Inl RecursionError"
  using assms(2,3)
proof (induction n arbitrary: m path st)
  case (Suc n)
  show ?case
  proof
    assume rec: "walk (Suc n) mods m path st = Inl RecursionError"
    then obtain md where md: "map_of mods m = Some md" by (auto split: option.splits)
    obtain u1 where u1: "walk_supply path md (fst st) = Inr u1" "standing u1"
      using connect_bits_standing [OF Suc.prems(2), of path path "md_supply md"]
      unfolding walk_supply_def by blast
    let ?assigns = "efold (walk_assign m path md) u1 (md_assigns md)"
    have "?assigns \<noteq> Inl RecursionError"
      using efold_error [of _ u1 "md_assigns md" RecursionError standing] u1(2)
        walk_assign_stands walk_assign_error by blast
    then obtain u2 where u2: "?assigns = Inr u2"
      and loop: "efold (walk_inst (walk n mods) mods m path md) (u2, snd st) (md_insts md) = Inl RecursionError"
      using rec md u1 by (auto simp: ebind_eq_Inl)
    have st2: "standing u2" using efold_inv [OF u2, of standing] u1(2) walk_assign_stands by blast
    have keep: "standing (fst s')" if "standing (fst s)"
      and "walk_inst (walk n mods) mods m path md s inst = Inr s'" for s inst s'
      using that walk_inst_stands [of "walk n mods" mods m path md "fst s" "snd s" inst "fst s'" "snd s'"]
        walk_stands by (metis prod.collapse)
    obtain s inst where i: "inst \<in> set (md_insts md)" "standing (fst s)"
      "walk_inst (walk n mods) mods m path md s inst = Inl RecursionError"
    proof -
      have "\<exists>s x. x \<in> set (md_insts md) \<and> standing (fst s) \<and>
          walk_inst (walk n mods) mods m path md s x = Inl RecursionError"
        by (rule efold_error [OF loop]) (use st2 in simp, rule keep)
      then show ?thesis using that by blast
    qed
    from walk_inst_error [OF i(2,3)] obtain child s1 where
      c: "hier_module mods (i_cell inst) = Some child" "standing (fst s1)"
      "walk n mods (i_cell inst) (sub_path path (i_name inst)) s1 = Inl RecursionError" by blast
    have "sub_module mods m (i_cell inst)" using md i(1) c(1) by (intro sub_module.intros) auto
    then have "rank (i_cell inst) < n" using assms(1) Suc.prems(1) unfolding ranked_def by fastforce
    from Suc.IH [OF this c(2)] c(3) show False by blast
  qed
qed simp

section \<open>An example design\<close>

text \<open>
  A top module with an assignment, a tied-off net, an instance of a module with an assignment and a
  leaf cell: the concrete input of the witnesses.
\<close>

definition example_inst :: "string \<Rightarrow> string \<Rightarrow> (string \<times> string) list \<Rightarrow> inst" where
  "example_inst cell name conns = \<lparr>i_cell = cell, i_name = name, i_conns = conns, i_start = 0, i_end = 0\<rparr>"

definition example_mods :: modules where
  "example_mods =
     [(''top'', (module_init ''top'' [''a'', ''b''] [] 0 0)
         \<lparr>md_assigns := [(''b'', ''a'')], md_supply := [(''t'', ''1'')], md_dirs := [(''a'', ''input'')],
          md_insts := [example_inst ''sub'' ''u1'' [(''i'', ''b'')],
                       example_inst ''BUF'' ''g'' [(''I'', ''a''), (''Z'', ''t'')]]\<rparr>),
      (''sub'', (module_init ''sub'' [''i'', ''z''] [] 0 0)\<lparr>md_assigns := [(''z'', ''i'')]\<rparr>)]"

definition example_dirs :: cell_dirs where
  "example_dirs = [(''BUF'', [(''I'', ''input''), (''Z'', ''output'')])]"

definition example_flat :: "flat res" where
  "example_flat = flat_new 2 example_mods ''top'' example_dirs"

lemma example_flat_reps:
  "case example_flat of Inl e \<Rightarrow> False | Inr f \<Rightarrow>
     rep (f_uf f) ''/a'' = rep (f_uf f) ''u1/z'' \<and> rep (f_uf f) ''/a'' \<noteq> rep (f_uf f) ''/t''"
  by code_simp

lemma example_flat_pins:
  "case example_flat of Inl e \<Rightarrow> False | Inr f \<Rightarrow>
     map (\<lambda>(p, i, m). (p, i_name i, m)) (f_leaves f) = [([], ''g'', ''top'')] \<and>
     dict_get (f_pins f) (rep (f_uf f) ''/b'') [] = [(0, ''I'', ''input'')] \<and>
     map_of (uf_const (f_uf f)) (rep (f_uf f) ''/t'') = Some ''1''"
  by code_simp

lemma example_flat_Inr:
  obtains f where "flat_new 2 example_mods ''top'' example_dirs = Inr f"
    and "rep (f_uf f) ''/a'' = rep (f_uf f) ''u1/z''" and "rep (f_uf f) ''/a'' \<noteq> rep (f_uf f) ''/t''"
    and "map (\<lambda>(p, i, m). (p, i_name i, m)) (f_leaves f) = [([], ''g'', ''top'')]"
    and "dict_get (f_pins f) (rep (f_uf f) ''/b'') [] = [(0, ''I'', ''input'')]"
    and "map_of (uf_const (f_uf f)) (rep (f_uf f) ''/t'') = Some ''1''"
proof -
  obtain f where f: "example_flat = Inr f" using example_flat_reps by (auto split: sum.splits)
  have "rep (f_uf f) ''/a'' = rep (f_uf f) ''u1/z''" "rep (f_uf f) ''/a'' \<noteq> rep (f_uf f) ''/t''"
    using example_flat_reps unfolding f sum.case by (rule conjunct1, rule conjunct2)
  moreover have "flat_new 2 example_mods ''top'' example_dirs = Inr f"
    using f by (simp only: example_flat_def)
  moreover note example_flat_pins [unfolded f sum.case]
  ultimately show ?thesis by (elim conjE) (rule that)
qed

section \<open>Properties\<close>

text \<open>C4: Flattening connects two nets exactly when the supplies, assigns and port connections of the
  design, instance by instance, link them; nothing is lost and nothing else is joined.\<close>

theorem flat_connects_exactly:
  assumes "flat_new limit mods topm cds = Inr f"
  shows "rep (f_uf f) a = rep (f_uf f) b \<longleftrightarrow> linked (design_edges mods [] topm) a b"
  using flat_new_spec(1) [OF assms] by (rule uf.stands_linked)

theorem flat_connects_exactly_witness:
  "linked (design_edges example_mods [] ''top'') ''/a'' ''u1/z'' \<and>
   \<not> linked (design_edges example_mods [] ''top'') ''/a'' ''/t''"
proof -
  obtain f where "flat_new 2 example_mods ''top'' example_dirs = Inr f"
    "rep (f_uf f) ''/a'' = rep (f_uf f) ''u1/z''" "rep (f_uf f) ''/a'' \<noteq> rep (f_uf f) ''/t''"
    by (rule example_flat_Inr)
  then show ?thesis by (simp add: flat_connects_exactly)
qed

text \<open>C27: The leaves are exactly the instances of library cells and black boxes, each at every path
  at which its module stands below the top.\<close>

theorem flat_leaves_exactly:
  assumes "flat_new limit mods topm cds = Inr f"
  shows "(path, inst, m) \<in> set (f_leaves f) \<longleftrightarrow>
    hier mods [] topm path m \<and> hier_module mods (i_cell inst) = None \<and>
    (\<exists>md. map_of mods m = Some md \<and> inst \<in> set (md_insts md))"
  using flat_new_spec(2) [OF assms] by (simp add: design_leaf_def)

theorem flat_leaves_exactly_witness: "\<exists>inst :: inst. i_name inst = ''g'' \<and> hier example_mods [] ''top'' [] ''top''"
proof -
  obtain f where f: "flat_new 2 example_mods ''top'' example_dirs = Inr f"
    and l: "map (\<lambda>(p, i, m). (p, i_name i, m)) (f_leaves f) = [([], ''g'', ''top'')]"
    by (rule example_flat_Inr)
  from l obtain inst where "([], inst, ''top'') \<in> set (f_leaves f)" "i_name inst = ''g''"
    by (auto simp: map_eq_Cons_conv)
  with flat_leaves_exactly [OF f] show ?thesis by blast
qed

text \<open>C28: The pins listed under a representative are, in the order of the leaves, exactly the leaf
  pin bits connected to it, each with its direction.\<close>

theorem flat_pins_exactly:
  assumes "flat_new limit mods topm cds = Inr f"
  shows "dict_get (f_pins f) r [] =
    map snd (filter (\<lambda>kx. rep (f_uf f) (fst kx) = r) (all_pins mods cds (f_leaves f)))"
  by (rule flat_new_spec(3) [OF assms])

theorem flat_pins_exactly_witness:
  "\<exists>(f :: flat) r. (0, ''I'', ''input'') \<in> snd ` set (all_pins example_mods example_dirs (f_leaves f)) \<and>
    dict_get (f_pins f) r [] = [(0, ''I'', ''input'')]"
proof -
  obtain f where f: "flat_new 2 example_mods ''top'' example_dirs = Inr f"
    and p: "dict_get (f_pins f) (rep (f_uf f) ''/b'') [] = [(0, ''I'', ''input'')]"
    by (rule example_flat_Inr)
  have "(0, ''I'', ''input'') \<in> snd ` set (all_pins example_mods example_dirs (f_leaves f))"
    using p unfolding flat_pins_exactly [OF f] by (force simp: map_eq_Cons_conv filter_eq_Cons_iff)
  with p show ?thesis by blast
qed

text \<open>Whatever constant is noted for a net is 0 or 1 and the design really connects that net to
  it.\<close>

theorem flat_constants_connected:
  assumes "flat_new limit mods topm cds = Inr f" and "map_of (uf_const (f_uf f)) r = Some v"
  shows "(v = ''0'' \<or> v = ''1'') \<and> linked (design_edges mods [] topm) r (''const/'' @ v)"
proof -
  have st: "uf.stands_for (f_uf f) (design_edges mods [] topm)" by (rule flat_new_spec(1) [OF assms(1)])
  then have "const_ok (f_uf f)" using uf.stands_wf by (simp add: uf_wf_def)
  with map_of_SomeD [OF assms(2)] have "is_const_bit v" "joined (f_uf f) r (const_key v)"
    by (auto simp: const_ok_def)
  with uf.stands_linked [OF st] show ?thesis by (simp add: joined_def is_const_bit_def const_key_def)
qed

theorem flat_constants_connected_witness:
  "\<exists>r. linked (design_edges example_mods [] ''top'') r ''const/1''"
proof -
  obtain f where f: "flat_new 2 example_mods ''top'' example_dirs = Inr f"
    and c: "map_of (uf_const (f_uf f)) (rep (f_uf f) ''/t'') = Some ''1''"
    by (rule example_flat_Inr)
  from flat_constants_connected [OF f c] show ?thesis by auto
qed

text \<open>C29: A design in which a module below the top contains itself is never flattened, whatever the
  limit on nested calls: the walk ends in an error.\<close>

theorem recursive_design_never_flattens:
  assumes "hier mods [] topm path m" and "(sub_module mods)\<^sup>+\<^sup>+ m m"
  shows "\<exists>e. flat_new limit mods topm cds = Inl e"
proof (cases "flat_new limit mods topm cds")
  case (Inr f)
  then obtain st where w: "walk limit mods topm [] (uf_init, []) = Inr st"
    by (auto simp: flat_new_def ebind_eq_Inr)
  from hier_sub [OF assms(1)] have False
  proof
    assume "m = topm"
    with walk_no_cycle [OF w] assms(2) show False by simp
  next
    assume "(sub_module mods)\<^sup>+\<^sup>+ topm m"
    from walk_sub_trancl [OF this w] walk_no_cycle assms(2) show False by blast
  qed
  then show ?thesis ..
qed simp

theorem recursive_design_never_flattens_witness:
  "\<exists>e. flat_new 1000 [(''m'', (module_init ''m'' [] [] 0 0)\<lparr>md_insts := [example_inst ''m'' ''u'' []]\<rparr>)]
     ''m'' [] = Inl e"
proof (rule recursive_design_never_flattens)
  let ?md = "(module_init ''m'' [] [] 0 0)\<lparr>md_insts := [example_inst ''m'' ''u'' []]\<rparr>"
  let ?mods = "[(''m'', ?md)]"
  have "hier_module ?mods (i_cell (example_inst ''m'' ''u'' [])) \<noteq> None"
    by (simp add: hier_module_def blackbox_def is_blackbox_def example_inst_def)
  then have "sub_module ?mods ''m'' (i_cell (example_inst ''m'' ''u'' []))"
    by (intro sub_module.intros [of _ _ ?md]) simp_all
  then show "(sub_module ?mods)\<^sup>+\<^sup>+ ''m'' ''m''" by (simp add: example_inst_def)
  show "hier ?mods [] ''m'' [] ''m''" by (rule hier.here) simp
qed

text \<open>C30: When every instance is of a module of lower rank, a limit on nested calls above the rank of
  the top is enough: no RecursionError, and any larger limit gives the same flat netlist.\<close>

theorem recursion_limit_irrelevant:
  assumes "ranked mods rank" and "rank topm < limit" and "rank topm < limit'"
  shows "walk limit mods topm [] (uf_init, []) \<noteq> Inl RecursionError \<and>
    flat_new limit mods topm cds = flat_new limit' mods topm cds"
  using walk_depth [OF assms(1,2), of "(uf_init, [])" "[]"] uf.start_stands walk_enough [OF assms]
  by (auto simp: flat_new_def)

theorem recursion_limit_irrelevant_witness:
  "flat_new 2 example_mods ''top'' example_dirs = flat_new 1000 example_mods ''top'' example_dirs"
proof -
  have "ranked example_mods (\<lambda>m. if m = ''top'' then 1 else 0)"
    unfolding ranked_def by (auto elim!: sub_module.cases simp: example_mods_def example_inst_def
      hier_module_def blackbox_def is_blackbox_def module_init_def split: if_splits)
  from recursion_limit_irrelevant [OF this, of "''top''" 2 1000] show ?thesis by simp
qed

end
