(* ===== verification/Clock_Trace.thy ===== *)
theory Clock_Trace
  imports Cells Vnet_Flat
begin

text \<open>
  The class \<open>Trace\<close> of \<open>fpga/tools/clocktrace.py\<close>: what each leaf is, what drives each net, and
  \<open>clock_of\<close>, which traces a net back to a clock port. Every call of \<open>find\<close> moves parents, so the
  union-find structure is part of the state next to the memo; the limit on nested calls of
  \<open>clock_of\<close> is an argument.
\<close>

section \<open>\_\_init\_\_\<close>

datatype driver = DLeaf nat string | DPort string | DConst string

type_synonym net = "string option"

record trace =
  t_cells :: cells
  t_flat :: flat
  t_role :: "role list"
  t_driver :: "(string \<times> driver) list"

definition leaf_role :: "flat \<Rightarrow> cells \<Rightarrow> leaf \<Rightarrow> role res" where
  "leaf_role f cs lf =
     (case lf of (path, inst, owner) \<Rightarrow>
        if i_cell inst \<in> set (blackbox (f_mods f))
        then (case map_of (f_mods f) (i_cell inst) of
                None \<Rightarrow> Inl (KeyError (i_cell inst)) | Some md \<Rightarrow> Inr Blackbox)
        else (case map_of (f_cell_dirs f) (i_cell inst) of
                None \<Rightarrow> Inl (KeyError (i_cell inst)) | Some d \<Rightarrow> Inr (cell_role (i_cell inst) d cs)))"

type_synonym drivers = "(string \<times> driver) list"

text \<open>The loop over the pins of one net, and the loop over the nets.\<close>

definition pin_driver :: "string \<Rightarrow> drivers \<Rightarrow> pin_entry \<Rightarrow> drivers res" where
  "pin_driver r ds x =
     (case x of (li, pin, d) \<Rightarrow>
        if d = ''output''
        then (if map_of ds r \<noteq> None then Inl (ValueError (''two drivers on '' @ r))
              else Inr (dict_set r (DLeaf li pin) ds))
        else Inr ds)"

definition net_drivers :: "drivers \<Rightarrow> string \<times> pin_entry list \<Rightarrow> drivers res" where
  "net_drivers ds rp = efold (pin_driver (fst rp)) ds (snd rp)"

text \<open>The bits of the top's input ports.\<close>

definition input_bits :: "module \<Rightarrow> string list" where
  "input_bits md = concat (map (\<lambda>(p, d). if d = ''input'' then port_bits (md_width md) p else []) (md_dirs md))"

definition port_driver :: "uf \<times> drivers \<Rightarrow> string \<Rightarrow> (uf \<times> drivers) res" where
  "port_driver st b =
     ebind (uf_lookup ([], b) (fst st)) (\<lambda>(r, u). Inr (u, dict_setdefault r (DPort b) (snd st)))"

definition const_driver :: "uf \<times> drivers \<Rightarrow> string \<times> string \<Rightarrow> (uf \<times> drivers) res" where
  "const_driver st rv =
     ebind (uf_find (fst rv) (fst st)) (\<lambda>(r, u). Inr (u, dict_setdefault r (DConst (snd rv)) (snd st)))"

definition trace_drivers :: "flat \<Rightarrow> (uf \<times> drivers) res" where
  "trace_drivers f =
     ebind (efold net_drivers [] (f_pins f)) (\<lambda>ds1.
       case map_of (f_mods f) (f_top f) of
         None \<Rightarrow> Inl (KeyError (f_top f))
       | Some md \<Rightarrow>
           ebind (efold port_driver (f_uf f, ds1) (input_bits md)) (\<lambda>(u2, ds2).
             efold const_driver (u2, ds2) (uf_const u2)))"

definition trace_of :: "flat \<Rightarrow> cells \<Rightarrow> trace res" where
  "trace_of f cs =
     ebind (emap (leaf_role f cs) (f_leaves f)) (\<lambda>roles.
       ebind (trace_drivers f) (\<lambda>(u, ds).
         Inr \<lparr>t_cells = cs, t_flat = f\<lparr>f_uf := u\<rparr>, t_role = roles, t_driver = ds\<rparr>))"

definition trace_new :: "nat \<Rightarrow> string \<Rightarrow> string \<Rightarrow> string list \<Rightarrow> cells \<Rightarrow> trace res" where
  "trace_new limit netlist topm models cs =
     ebind (parse netlist) (\<lambda>(mods, text).
       ebind (flat_new limit mods topm (read_cell_dirs models)) (\<lambda>f. trace_of f cs))"

section \<open>leaf\_name and pin\_net\<close>

definition leaf_name :: "trace \<Rightarrow> nat \<Rightarrow> string" where
  "leaf_name t li = (case f_leaves (t_flat t) ! li of (path, inst, owner) \<Rightarrow> sub_path path (i_name inst))"

text \<open>The single bit a pin is connected to, and the net of that bit.\<close>

definition pin_bit_of :: "trace \<Rightarrow> nat \<Rightarrow> string \<Rightarrow> (string \<times> string) option res" where
  "pin_bit_of t li pin =
     ebind (py_nth (f_leaves (t_flat t)) li) (\<lambda>(path, inst, owner).
       case map_of (f_mods (t_flat t)) owner of
         None \<Rightarrow> Inl (KeyError owner)
       | Some md \<Rightarrow>
           ebind (expr_bits (dict_get (i_conns inst) pin []) (md_width md)) (\<lambda>bits.
             Inr (case bits of [b] \<Rightarrow> Some (path, b) | _ \<Rightarrow> None)))"

definition pin_net :: "trace \<Rightarrow> nat \<Rightarrow> string \<Rightarrow> uf \<Rightarrow> (net \<times> uf) res" where
  "pin_net t li pin u =
     ebind (pin_bit_of t li pin) (\<lambda>pb.
       case pb of
         None \<Rightarrow> Inr (None, u)
       | Some k \<Rightarrow> ebind (uf_lookup k u) (\<lambda>(r, u'). Inr (Some r, u')))"

section \<open>clock\_of\<close>

text \<open>A gate: an ICG, or a gate with its latch, whether the gate inverts the latch, and its clock pin.\<close>

datatype gate = GIcg nat | GLatch nat nat bool string

primrec gate_leaf :: "gate \<Rightarrow> nat" where
  "gate_leaf (GIcg li) = li"
| "gate_leaf (GLatch li lat inv_x pin) = li"

primrec gate_kind :: "gate \<Rightarrow> string" where
  "gate_kind (GIcg li) = ''icg''"
| "gate_kind (GLatch li lat inv_x pin) = ''latch''"

text \<open>What \<open>clock_of\<close> returns: the root, inverted or not, the gates; or the reason why not.\<close>

datatype clk = Clock string bool "gate list" | NoClock string

type_synonym clk_state = "uf \<times> (net \<times> clk) list"

type_synonym tracer = "net \<Rightarrow> clk_state \<Rightarrow> (clk \<times> clk_state) res"

definition driver_of :: "trace \<Rightarrow> net \<Rightarrow> driver option" where
  "driver_of t r = (case r of None \<Rightarrow> None | Some k \<Rightarrow> map_of (t_driver t) k)"

definition leaf_cell :: "trace \<Rightarrow> nat \<Rightarrow> string res" where
  "leaf_cell t li = ebind (py_nth (f_leaves (t_flat t)) li) (\<lambda>(path, inst, owner). Inr (i_cell inst))"

definition pin_clock :: "tracer \<Rightarrow> trace \<Rightarrow> nat \<Rightarrow> string \<Rightarrow> clk_state \<Rightarrow> (clk \<times> clk_state) res" where
  "pin_clock rec t li pin st =
     ebind (pin_net t li pin (fst st)) (\<lambda>(r, u). rec r (u, snd st))"

text \<open>The verdict on a gate once its clock and its latch's clock are known: the rest of the loop body.\<close>

definition gate_verdict :: "trace \<Rightarrow> nat \<Rightarrow> string \<Rightarrow> nat \<Rightarrow> bool \<Rightarrow> string \<Rightarrow> (int \<Rightarrow> int \<Rightarrow> int) \<Rightarrow>
    string \<Rightarrow> bool \<Rightarrow> gate list \<Rightarrow> bool \<Rightarrow> clk" where
  "gate_verdict t li cell lat active_low clk_pin f rt iv gs liv =
     (if ((liv = iv) = active_low) = False
      then NoClock (''latch '' @ leaf_name t lat @ '' open while the clock is high'')
      else if f 0 0 = f 0 1 \<and> f 0 1 = 0 \<and> ((f 1 0, f 1 1) = (0, 1) \<or> (f 1 0, f 1 1) = (1, 0))
      then Clock rt iv (gs @ [GLatch li lat (f 1 1 = 0) clk_pin])
      else if f 0 0 = f 0 1 \<and> f 0 1 = 1 \<and> ((f 1 0, f 1 1) = (0, 1) \<or> (f 1 0, f 1 1) = (1, 0))
      then Clock rt (\<not> iv) (gs @ [GLatch li lat (f 1 0 = 0) clk_pin])
      else NoClock (''gate '' @ cell @ '' '' @ leaf_name t li @ '' is not an AND-type gate''))"

text \<open>
  One round of the loop of \<open>_gate2\<close>; None is \<open>continue\<close>. \<open>gate_latch\<close> is its part once the
  latch \<open>lat\<close> and its enable pin are known.
\<close>

definition gate_latch :: "tracer \<Rightarrow> trace \<Rightarrow> nat \<Rightarrow> string \<Rightarrow> nat \<Rightarrow> bool \<Rightarrow> string \<Rightarrow> string \<Rightarrow> net \<Rightarrow>
    (int \<Rightarrow> int \<Rightarrow> int) \<Rightarrow> clk_state \<Rightarrow> (clk option \<times> clk_state) res" where
  "gate_latch rec t li cell lat active_low en_pin clk_pin clk_net f st =
     ebind (rec clk_net st) (\<lambda>(up, st1).
       case up of
         NoClock why \<Rightarrow> Inr (None, st1)
       | Clock rt iv gs \<Rightarrow>
           ebind (pin_clock rec t lat en_pin st1) (\<lambda>(lup, st2).
             case lup of
               NoClock why \<Rightarrow> Inr (None, st2)
             | Clock lrt liv lgs \<Rightarrow>
                 if lrt \<noteq> rt then Inr (None, st2)
                 else Inr (Some (gate_verdict t li cell lat active_low clk_pin f rt iv gs liv), st2)))"

definition gate_side :: "tracer \<Rightarrow> trace \<Rightarrow> nat \<Rightarrow> string \<Rightarrow> string \<Rightarrow> net \<Rightarrow> net \<Rightarrow> (int \<Rightarrow> int \<Rightarrow> int) \<Rightarrow>
    clk_state \<Rightarrow> (clk option \<times> clk_state) res" where
  "gate_side rec t li cell clk_pin clk_net oth_net f st =
     (case driver_of t oth_net of
        Some (DLeaf lat pin) \<Rightarrow>
          ebind (py_nth (t_role t) lat) (\<lambda>ro.
            if ro \<noteq> Latch then Inr (None, st)
            else ebind (leaf_cell t lat) (\<lambda>lcell.
              case map_of (f_cell_dirs (t_flat t)) lcell of
                None \<Rightarrow> Inl (KeyError lcell)
              | Some ldirs \<Rightarrow>
                  ebind (first_pin (c_latch_enables (t_cells t)) ldirs) (\<lambda>en_pin.
                    gate_latch rec t li cell lat
                      (re_match (c_latch_low (t_cells t)) (c_base (t_cells t) lcell) \<noteq> None)
                      en_pin clk_pin clk_net f st)))
      | _ \<Rightarrow> Inr (None, st))"

definition trace_gate2 :: "tracer \<Rightarrow> trace \<Rightarrow> nat \<Rightarrow> string \<Rightarrow> clk_state \<Rightarrow> (clk \<times> clk_state) res" where
  "trace_gate2 rec t li cell st =
     (case map_of (c_gate2 (t_cells t)) (c_base (t_cells t) cell) of
        None \<Rightarrow> Inl (KeyError cell)
      | Some ((pa, pb), fn) \<Rightarrow>
          ebind (pin_net t li pa (fst st)) (\<lambda>(na, u1). ebind (pin_net t li pb u1) (\<lambda>(nb, u2).
            ebind (gate_side rec t li cell pa na nb (\<lambda>c x. fn c x) (u2, snd st)) (\<lambda>(res1, st1).
              case res1 of
                Some c \<Rightarrow> Inr (c, st1)
              | None \<Rightarrow>
                  ebind (gate_side rec t li cell pb nb na (\<lambda>c x. fn x c) st1) (\<lambda>(res2, st2).
                    case res2 of
                      Some c \<Rightarrow> Inr (c, st2)
                    | None \<Rightarrow> Inr (NoClock (''2-input cell '' @ cell @ '' '' @ leaf_name t li @
                        '' on a clock path without a gating latch''), st2))))))"

text \<open>The result of a net behind a leaf, by the leaf's role.\<close>

definition invert_clk :: "clk \<Rightarrow> clk" where
  "invert_clk c = (case c of Clock rt iv gs \<Rightarrow> Clock rt (\<not> iv) gs | NoClock why \<Rightarrow> NoClock why)"

definition icg_clk :: "nat \<Rightarrow> clk \<Rightarrow> clk" where
  "icg_clk li c = (case c of Clock rt iv gs \<Rightarrow> Clock rt iv (gs @ [GIcg li]) | NoClock why \<Rightarrow> NoClock why)"

definition trace_leaf :: "tracer \<Rightarrow> trace \<Rightarrow> nat \<Rightarrow> string \<Rightarrow> clk_state \<Rightarrow> (clk \<times> clk_state) res" where
  "trace_leaf rec t li pin st =
     ebind (py_nth (t_role t) li) (\<lambda>ro. ebind (leaf_cell t li) (\<lambda>cell.
       if ro = Buf \<or> ro = Inv
       then ebind (py_nth (fst ((if ro = Buf then c_buf else c_inv) (t_cells t))) 0) (\<lambda>ip.
         ebind (pin_clock rec t li ip st) (\<lambda>(up, st1).
           Inr (if ro = Inv then invert_clk up else up, st1)))
       else if ro = Icg
       then ebind (pin_clock rec t li (c_icg_clock (t_cells t)) st) (\<lambda>(up, st1). Inr (icg_clk li up, st1))
       else if ro = Gate2 then trace_gate2 rec t li cell st
       else Inr (NoClock (''driven by '' @ role_name ro @ '' '' @ cell @ '' '' @ leaf_name t li @ ''.'' @ pin), st)))"

definition trace_net :: "tracer \<Rightarrow> trace \<Rightarrow> tracer" where
  "trace_net rec t r st =
     (case driver_of t r of
        None \<Rightarrow> Inr (NoClock ''undriven'', st)
      | Some (DPort b) \<Rightarrow> Inr (Clock b False [], st)
      | Some (DConst v) \<Rightarrow> Inr (NoClock (''constant '' @ v), st)
      | Some (DLeaf li pin) \<Rightarrow> trace_leaf rec t li pin st)"

primrec clock_of :: "nat \<Rightarrow> trace \<Rightarrow> tracer" where
  "clock_of 0 t r st = Inl RecursionError"
| "clock_of (Suc n) t r st =
     (case map_of (snd st) r of
        Some c \<Rightarrow> Inr (c, st)
      | None \<Rightarrow>
          ebind (trace_net (clock_of n t) t r (fst st, dict_set r (NoClock ''loop'') (snd st))) (\<lambda>(c, st1).
            Inr (c, (fst st1, dict_set r c (snd st1)))))"

section \<open>sinks\<close>

definition clk_name_re :: re where
  "clk_name_re = (let ci = (\<lambda>l u. RCls (\<lambda>x. x = l \<or> x = u)) in
     RAlt (rseq [ci (CHR ''c'') (CHR ''C''), ci (CHR ''l'') (CHR ''L''), ci (CHR ''k'') (CHR ''K'')])
       (rseq [ci (CHR ''c'') (CHR ''C''), ci (CHR ''l'') (CHR ''L''), ci (CHR ''o'') (CHR ''O''),
              ci (CHR ''c'') (CHR ''C''), ci (CHR ''k'') (CHR ''K'')]))"

type_synonym sink = "nat \<times> string \<times> role"

definition leaf_sinks :: "trace \<Rightarrow> nat \<times> leaf \<Rightarrow> sink list res" where
  "leaf_sinks t lil =
     (case lil of (li, path, inst, owner) \<Rightarrow>
        ebind (py_nth (t_role t) li) (\<lambda>ro.
          let d = dict_get (f_cell_dirs (t_flat t)) (i_cell inst) [] in
          if ro = Flop then ebind (first_pin (c_flop_clocks (t_cells t)) d) (\<lambda>p. Inr [(li, p, ro)])
          else if ro = Latch then ebind (first_pin (c_latch_enables (t_cells t)) d) (\<lambda>p. Inr [(li, p, ro)])
          else if ro = Macro then Inr [(li, c_macro_clock (t_cells t), ro)]
          else if ro = Blackbox
          then Inr (map (\<lambda>pin. (li, pin, ro)) (filter (\<lambda>pin. re_search clk_name_re pin \<noteq> None \<and>
            (case map_of (f_mods (t_flat t)) (i_cell inst) of
               None \<Rightarrow> False | Some md \<Rightarrow> map_of (md_dirs md) pin = Some ''input'')) (map fst (i_conns inst))))
          else Inr []))"

definition sinks :: "trace \<Rightarrow> sink list res" where
  "sinks t = ebind (emap (leaf_sinks t) (enumerate 0 (f_leaves (t_flat t)))) (\<lambda>sss. Inr (concat sss))"

end
