(* ===== verification/Clock_Sound.thy ===== *)
theory Clock_Sound
  imports Clock_Trace
begin

text \<open>
  What \<open>clock_of\<close> computes. \<open>clocked\<close> says, rule by rule and without memo or order, which clocks a
  net can be traced to; the first half shows that the tracer only returns such clocks, that the memo
  only grows, and that a limit above the number of driven nets is enough. The second half is about
  the circuit: an edge of the root passes to the net exactly when all the gates are open.
\<close>

section \<open>Clocks of nets, rule by rule\<close>

text \<open>The net a pin is on, when it is on a single one.\<close>

definition pin_on :: "trace \<Rightarrow> nat \<Rightarrow> string \<Rightarrow> net \<Rightarrow> bool" where
  "pin_on t li pin r \<longleftrightarrow> (\<exists>pb. pin_bit_of t li pin = Inr pb \<and>
     r = map_option (\<lambda>(p, b). rep (f_uf (t_flat t)) (net_key p b)) pb)"

definition pin_rep :: "trace \<Rightarrow> nat \<Rightarrow> string \<Rightarrow> net option" where
  "pin_rep t li pin = (case pin_bit_of t li pin of Inl e \<Rightarrow> None
     | Inr pb \<Rightarrow> Some (map_option (\<lambda>(p, b). rep (f_uf (t_flat t)) (net_key p b)) pb))"

lemma pin_on_rep: "pin_on t li pin r \<longleftrightarrow> pin_rep t li pin = Some r"
  by (auto simp: pin_on_def pin_rep_def split: sum.splits)

definition has_role :: "trace \<Rightarrow> nat \<Rightarrow> role \<Rightarrow> bool" where
  "has_role t li ro \<longleftrightarrow> li < length (t_role t) \<and> t_role t ! li = ro"

definition gate_fn :: "trace \<Rightarrow> nat \<Rightarrow> gate2_cell \<Rightarrow> bool" where
  "gate_fn t li g \<longleftrightarrow> (\<exists>cell. leaf_cell t li = Inr cell \<and>
     map_of (c_gate2 (t_cells t)) (c_base (t_cells t) cell) = Some g)"

text \<open>The enable pin of a latch, and whether it is active low.\<close>

definition latch_enable :: "trace \<Rightarrow> nat \<Rightarrow> string \<Rightarrow> bool \<Rightarrow> bool" where
  "latch_enable t lat en low \<longleftrightarrow> (\<exists>cell dirs. leaf_cell t lat = Inr cell \<and>
     map_of (f_cell_dirs (t_flat t)) cell = Some dirs \<and>
     first_pin (c_latch_enables (t_cells t)) dirs = Inr en \<and>
     low = (re_match (c_latch_low (t_cells t)) (c_base (t_cells t) cell) \<noteq> None))"

text \<open>The clock pin, the other pin and the function of (clock, other) of a two-input gate.\<close>

definition gate_sides :: "gate2_cell \<Rightarrow> (string \<times> string \<times> (int \<Rightarrow> int \<Rightarrow> int)) set" where
  "gate_sides g = (case g of ((pa, pb), fn) \<Rightarrow> {(pa, pb, fn), (pb, pa, \<lambda>c x. fn x c)})"

inductive clocked :: "trace \<Rightarrow> net \<Rightarrow> string \<Rightarrow> bool \<Rightarrow> gate list \<Rightarrow> bool" for t where
  at_port: "driver_of t r = Some (DPort b) \<Longrightarrow> clocked t r b False []"
| through_buf: "driver_of t r = Some (DLeaf li pin) \<Longrightarrow> has_role t li Buf \<Longrightarrow>
    fst (c_buf (t_cells t)) = ip # ips \<Longrightarrow> pin_on t li ip r' \<Longrightarrow> clocked t r' rt iv gs \<Longrightarrow>
    clocked t r rt iv gs"
| through_inv: "driver_of t r = Some (DLeaf li pin) \<Longrightarrow> has_role t li Inv \<Longrightarrow>
    fst (c_inv (t_cells t)) = ip # ips \<Longrightarrow> pin_on t li ip r' \<Longrightarrow> clocked t r' rt iv gs \<Longrightarrow>
    clocked t r rt (\<not> iv) gs"
| through_icg: "driver_of t r = Some (DLeaf li pin) \<Longrightarrow> has_role t li Icg \<Longrightarrow>
    pin_on t li (c_icg_clock (t_cells t)) r' \<Longrightarrow> clocked t r' rt iv gs \<Longrightarrow>
    clocked t r rt iv (gs @ [GIcg li])"
| through_gate: "driver_of t r = Some (DLeaf li pin) \<Longrightarrow> has_role t li Gate2 \<Longrightarrow> gate_fn t li g \<Longrightarrow>
    (cp, xp, f) \<in> gate_sides g \<Longrightarrow> pin_on t li cp nc \<Longrightarrow> pin_on t li xp nx \<Longrightarrow>
    driver_of t nx = Some (DLeaf lat q) \<Longrightarrow> has_role t lat Latch \<Longrightarrow> latch_enable t lat en low \<Longrightarrow>
    clocked t nc rt iv gs \<Longrightarrow> pin_on t lat en ne \<Longrightarrow> clocked t ne rt liv lgs \<Longrightarrow>
    gate_verdict t li cell lat low cp f rt iv gs liv = Clock rt iv' gs' \<Longrightarrow>
    clocked t r rt iv' gs'"

definition clk_ok :: "trace \<Rightarrow> net \<Rightarrow> clk \<Rightarrow> bool" where
  "clk_ok t r c \<longleftrightarrow> (\<forall>rt iv gs. c = Clock rt iv gs \<longrightarrow> clocked t r rt iv gs)"

lemma clk_ok_simps [simp]:
  "clk_ok t r (NoClock why)"
  "clk_ok t r (Clock rt iv gs) \<longleftrightarrow> clocked t r rt iv gs"
  by (simp_all add: clk_ok_def)

section \<open>The invariant of the tracer\<close>

definition trace_inv :: "trace \<Rightarrow> clk_state \<Rightarrow> bool" where
  "trace_inv t st \<longleftrightarrow> uf_wf (fst st) \<and> rep (fst st) = rep (f_uf (t_flat t)) \<and>
     (\<forall>r c. map_of (snd st) r = Some c \<longrightarrow> clk_ok t r c)"

text \<open>
  \<open>sat E t M m Q\<close>: if \<open>m\<close> returns, the invariant holds, the memo has kept \<open>M\<close> and the result
  satisfies \<open>Q\<close>; if it raises, the error satisfies \<open>E\<close>. \<open>E\<close> accepts every error except, where a
  limit is known to be enough, \<open>RecursionError\<close>.
\<close>

definition sat :: "(pyerr \<Rightarrow> bool) \<Rightarrow> trace \<Rightarrow> (net \<rightharpoonup> clk) \<Rightarrow> ('a \<times> clk_state) res \<Rightarrow> ('a \<Rightarrow> bool) \<Rightarrow> bool" where
  "sat E t M m Q \<longleftrightarrow> (case m of Inl e \<Rightarrow> E e
     | Inr (x, st) \<Rightarrow> trace_inv t st \<and> M \<subseteq>\<^sub>m map_of (snd st) \<and> Q x)"

definition mild :: "(pyerr \<Rightarrow> bool) \<Rightarrow> bool" where
  "mild E \<longleftrightarrow> (\<forall>e. e \<noteq> RecursionError \<longrightarrow> E e)"

definition tracer_sat :: "(pyerr \<Rightarrow> bool) \<Rightarrow> trace \<Rightarrow> (net \<rightharpoonup> clk) \<Rightarrow> tracer \<Rightarrow> bool" where
  "tracer_sat E t M rec \<longleftrightarrow> (\<forall>r st. trace_inv t st \<longrightarrow> M \<subseteq>\<^sub>m map_of (snd st) \<longrightarrow>
     sat E t M (rec r st) (clk_ok t r))"

lemma tracer_satD:
  "tracer_sat E t M rec \<Longrightarrow> trace_inv t st \<Longrightarrow> M \<subseteq>\<^sub>m map_of (snd st) \<Longrightarrow> sat E t M (rec r st) (clk_ok t r)"
  unfolding tracer_sat_def by blast

lemma sat_Inr [simp]: "sat E t M (Inr (x, st)) Q \<longleftrightarrow> trace_inv t st \<and> M \<subseteq>\<^sub>m map_of (snd st) \<and> Q x"
  by (simp add: sat_def)

lemma sat_Inl [simp]: "sat E t M (Inl e) Q \<longleftrightarrow> E e"
  by (simp add: sat_def)

lemma sat_bind:
  assumes "sat E t M m Q"
    and "\<And>x st. trace_inv t st \<Longrightarrow> M \<subseteq>\<^sub>m map_of (snd st) \<Longrightarrow> Q x \<Longrightarrow> sat E t M (f (x, st)) Q'"
  shows "sat E t M (ebind m f) Q'"
proof (cases m)
  case (Inl e)
  with assms(1) show ?thesis by simp
next
  case (Inr y)
  obtain x st where "y = (x, st)" by (cases y)
  with Inr assms show ?thesis by simp
qed

text \<open>Calls that do not touch the state.\<close>

lemma sat_pure:
  assumes "mild E" and "m \<noteq> Inl RecursionError" and "\<And>x. m = Inr x \<Longrightarrow> sat E t M (f x) Q"
  shows "sat E t M (ebind m f) Q"
  using assms by (cases m) (auto simp: mild_def)

lemma py_nth_error [simp]: "py_nth xs i \<noteq> Inl RecursionError"
  by (simp add: py_nth_def)

lemma py_nth_Inr: "py_nth xs i = Inr x \<longleftrightarrow> i < length xs \<and> x = xs ! i"
  by (auto simp: py_nth_def)

lemma leaf_cell_error [simp]: "leaf_cell t li \<noteq> Inl RecursionError"
  by (auto simp: leaf_cell_def ebind_eq_Inl)

lemma first_pin_error [simp]: "first_pin names dirs \<noteq> Inl RecursionError"
  by (simp add: first_pin_def)

lemma pin_bit_of_error: "pin_bit_of t li pin \<noteq> Inl RecursionError"
  by (auto simp: pin_bit_of_def ebind_eq_Inl expr_bits_error split: option.splits)

lemma trace_inv_uf: "trace_inv t (u, m) \<Longrightarrow> uf_wf u' \<Longrightarrow> rep u' = rep u \<Longrightarrow> trace_inv t (u', m)"
  by (simp add: trace_inv_def)

lemma sat_pin_net:
  assumes "mild E" and "trace_inv t st" and "M \<subseteq>\<^sub>m map_of (snd st)"
    and "\<And>r u. trace_inv t (u, snd st) \<Longrightarrow> pin_on t li pin r \<Longrightarrow> sat E t M (f (r, u)) Q"
  shows "sat E t M (ebind (pin_net t li pin (fst st)) f) Q"
proof (cases "pin_bit_of t li pin")
  case (Inl e)
  then have "e \<noteq> RecursionError" using pin_bit_of_error by metis
  with Inl assms(1) show ?thesis by (simp add: pin_net_def mild_def)
next
  case (Inr pb)
  have st: "trace_inv t (fst st, snd st)" using assms(2) by simp
  show ?thesis
  proof (cases pb)
    case None
    with Inr st assms(4) show ?thesis by (simp add: pin_net_def pin_on_def)
  next
    case (Some k)
    have "uf_wf (fst st)" and r: "rep (fst st) = rep (f_uf (t_flat t))"
      using assms(2) by (simp_all add: trace_inv_def)
    from uf_lookup_spec [OF this(1), of k] obtain u where
      u: "uf_lookup k (fst st) = Inr (rep (fst st) (net_key (fst k) (snd k)), u)" "uf_wf u" "rep u = rep (fst st)"
      by blast
    have "pin_on t li pin (Some (rep (fst st) (net_key (fst k) (snd k))))"
      using Inr Some r by (simp add: pin_on_def case_prod_beta)
    with assms(4) [OF trace_inv_uf [OF st u(2,3)]] u(1) Inr Some show ?thesis by (simp add: pin_net_def)
  qed
qed

lemma sat_pin_clock:
  assumes "mild E" and "tracer_sat E t M rec" and "trace_inv t st" and "M \<subseteq>\<^sub>m map_of (snd st)"
  shows "sat E t M (pin_clock rec t li pin st) (\<lambda>c. \<exists>r. pin_on t li pin r \<and> clk_ok t r c)"
  unfolding pin_clock_def
proof (rule sat_pin_net [OF assms(1,3,4)])
  fix r u
  assume inv: "trace_inv t (u, snd st)" and p: "pin_on t li pin r"
  have "sat E t M (rec r (u, snd st)) (clk_ok t r)"
    using assms(2,4) inv by (simp add: tracer_sat_def)
  with p show "sat E t M (case (r, u) of (r, u) \<Rightarrow> rec r (u, snd st)) (\<lambda>c. \<exists>r. pin_on t li pin r \<and> clk_ok t r c)"
    by (auto simp: sat_def split: sum.splits)
qed

lemma gate_verdict_root: "gate_verdict t li cell lat low cp f rt iv gs liv = Clock rt' iv' gs' \<Longrightarrow> rt' = rt"
  by (auto simp: gate_verdict_def split: if_splits)

lemma gate_verdict_cell: "gate_verdict t li cell lat low cp f rt iv gs liv = Clock rt' iv' gs' \<Longrightarrow>
    gate_verdict t li cell' lat low cp f rt iv gs liv = Clock rt' iv' gs'"
  by (auto simp: gate_verdict_def split: if_splits)

lemma sat_gate_latch:
  assumes E: "mild E" and rec: "tracer_sat E t M rec" and st: "trace_inv t st" "M \<subseteq>\<^sub>m map_of (snd st)"
    and leaf: "driver_of t r = Some (DLeaf li pin)" "has_role t li Gate2" "gate_fn t li g"
    and side: "(cp, xp, f) \<in> gate_sides g" "pin_on t li cp nc" "pin_on t li xp nx"
    and lat: "driver_of t nx = Some (DLeaf lat q)" "has_role t lat Latch" "latch_enable t lat en low"
  shows "sat E t M (gate_latch rec t li cell lat low en cp nc f st) (\<lambda>co. \<forall>c. co = Some c \<longrightarrow> clk_ok t r c)"
proof -
  have "sat E t M (rec nc st) (clk_ok t nc)" using rec st unfolding tracer_sat_def by blast
  then show ?thesis
    unfolding gate_latch_def
  proof (rule sat_bind)
    fix up st1
    assume st1: "trace_inv t st1" "M \<subseteq>\<^sub>m map_of (snd st1)" and up: "clk_ok t nc up"
    show "sat E t M (case (up, st1) of (up, st1) \<Rightarrow> (case up of NoClock why \<Rightarrow> Inr (None, st1)
        | Clock rt iv gs \<Rightarrow> ebind (pin_clock rec t lat en st1) (\<lambda>(lup, st2). case lup of
            NoClock why \<Rightarrow> Inr (None, st2)
          | Clock lrt liv lgs \<Rightarrow> if lrt \<noteq> rt then Inr (None, st2)
              else Inr (Some (gate_verdict t li cell lat low cp f rt iv gs liv), st2))))
        (\<lambda>co. \<forall>c. co = Some c \<longrightarrow> clk_ok t r c)"
    proof (cases up)
      case c: (Clock rt iv gs)
      show ?thesis
        unfolding c prod.case clk.case
      proof (rule sat_bind [OF sat_pin_clock [OF E rec st1, of lat en]])
        fix lup st2
        assume st2: "trace_inv t st2" "M \<subseteq>\<^sub>m map_of (snd st2)" "\<exists>r. pin_on t lat en r \<and> clk_ok t r lup"
        have "clk_ok t r (gate_verdict t li cell lat low cp f rt iv gs liv)" if "lup = Clock rt liv lgs" for liv lgs
        proof -
          from st2(3) that obtain ne where "pin_on t lat en ne" "clocked t ne rt liv lgs" by auto
          with leaf side lat up c show ?thesis
            by (auto simp: clk_ok_def dest: gate_verdict_root intro: clocked.through_gate)
        qed
        with st2(1,2) show "sat E t M (case (lup, st2) of (lup, st2) \<Rightarrow> (case lup of NoClock why \<Rightarrow> Inr (None, st2)
          | Clock lrt liv lgs \<Rightarrow> if lrt \<noteq> rt then Inr (None, st2)
              else Inr (Some (gate_verdict t li cell lat low cp f rt iv gs liv), st2)))
          (\<lambda>co. \<forall>c. co = Some c \<longrightarrow> clk_ok t r c)" by (auto split: clk.splits)
      qed
    qed (use st1 in simp)
  qed
qed

lemma sat_gate_side:
  assumes E: "mild E" and rec: "tracer_sat E t M rec" and st: "trace_inv t st" "M \<subseteq>\<^sub>m map_of (snd st)"
    and leaf: "driver_of t r = Some (DLeaf li pin)" "has_role t li Gate2" "gate_fn t li g"
    and side: "(cp, xp, f) \<in> gate_sides g" "pin_on t li cp nc" "pin_on t li xp nx"
  shows "sat E t M (gate_side rec t li cell cp nc nx f st) (\<lambda>co. \<forall>c. co = Some c \<longrightarrow> clk_ok t r c)"
proof (cases "\<exists>lat q. driver_of t nx = Some (DLeaf lat q)")
  case False
  then show ?thesis using st by (auto simp: gate_side_def split: option.splits driver.splits)
next
  case True
  then obtain lat q where d: "driver_of t nx = Some (DLeaf lat q)" by blast
  have "sat E t M (if t_role t ! lat \<noteq> Latch then Inr (None, st)
      else ebind (leaf_cell t lat) (\<lambda>lcell. case map_of (f_cell_dirs (t_flat t)) lcell of
          None \<Rightarrow> Inl (KeyError lcell)
        | Some ldirs \<Rightarrow> ebind (first_pin (c_latch_enables (t_cells t)) ldirs) (\<lambda>en.
            gate_latch rec t li cell lat (re_match (c_latch_low (t_cells t)) (c_base (t_cells t) lcell) \<noteq> None)
              en cp nc f st))) (\<lambda>co. \<forall>c. co = Some c \<longrightarrow> clk_ok t r c)" if lt: "lat < length (t_role t)"
  proof (cases "t_role t ! lat = Latch")
    case True
    with lt have role: "has_role t lat Latch" by (simp add: has_role_def)
    have "sat E t M (ebind (leaf_cell t lat) (\<lambda>lcell. case map_of (f_cell_dirs (t_flat t)) lcell of
          None \<Rightarrow> Inl (KeyError lcell)
        | Some ldirs \<Rightarrow> ebind (first_pin (c_latch_enables (t_cells t)) ldirs) (\<lambda>en.
            gate_latch rec t li cell lat (re_match (c_latch_low (t_cells t)) (c_base (t_cells t) lcell) \<noteq> None)
              en cp nc f st))) (\<lambda>co. \<forall>c. co = Some c \<longrightarrow> clk_ok t r c)"
    proof (rule sat_pure [OF E leaf_cell_error])
      fix lcell
      assume l: "leaf_cell t lat = Inr lcell"
      show "sat E t M (case map_of (f_cell_dirs (t_flat t)) lcell of
          None \<Rightarrow> Inl (KeyError lcell)
        | Some ldirs \<Rightarrow> ebind (first_pin (c_latch_enables (t_cells t)) ldirs) (\<lambda>en.
            gate_latch rec t li cell lat (re_match (c_latch_low (t_cells t)) (c_base (t_cells t) lcell) \<noteq> None)
              en cp nc f st)) (\<lambda>co. \<forall>c. co = Some c \<longrightarrow> clk_ok t r c)"
        using E l
        by (auto simp: mild_def latch_enable_def split: option.split
            intro!: sat_pure [OF E first_pin_error] sat_gate_latch [OF E rec st leaf side d role])
    qed
    with True show ?thesis by simp
  qed (use st in simp)
  then show ?thesis
    unfolding gate_side_def d option.case driver.case
    by (intro sat_pure [OF E py_nth_error]) (auto simp: py_nth_Inr)
qed

lemma sat_gate2:
  assumes E: "mild E" and rec: "tracer_sat E t M rec" and st: "trace_inv t st" "M \<subseteq>\<^sub>m map_of (snd st)"
    and leaf: "driver_of t r = Some (DLeaf li pin)" "has_role t li Gate2" "leaf_cell t li = Inr cell"
  shows "sat E t M (trace_gate2 rec t li cell st) (clk_ok t r)"
proof (cases "map_of (c_gate2 (t_cells t)) (c_base (t_cells t) cell)")
  case None
  with E show ?thesis by (simp add: trace_gate2_def mild_def)
next
  case (Some g)
  obtain pa pb fn where g: "g = ((pa, pb), fn)" by (metis surj_pair)
  have fn: "gate_fn t li g" using Some leaf(3) by (simp add: gate_fn_def)
  have s1: "(pa, pb, \<lambda>c x. fn c x) \<in> gate_sides g" and s2: "(pb, pa, \<lambda>c x. fn x c) \<in> gate_sides g"
    by (simp_all add: g gate_sides_def)
  note side = sat_gate_side [OF E rec _ _ leaf(1,2) fn]
  show ?thesis
    unfolding trace_gate2_def Some g option.case prod.case
    apply (rule sat_pin_net [OF E st], unfold prod.case)
    subgoal premises a for na u1
      apply (rule sat_pin_net [OF E, of t "(u1, snd st)", unfolded fst_conv snd_conv, OF a(1) st(2)], unfold prod.case)
      subgoal premises b for nb u2
        apply (rule sat_bind [OF side [OF _ _ s1 a(2) b(2)]])
        using b(1) st(2)
          apply (simp_all split: option.split)
        apply (intro allI impI)
        apply (rule sat_bind [OF side [OF _ _ s2 b(2) a(2)]])
          apply (simp_all split: option.split)
        done
      done
    done
qed

lemma invert_icg_ok:
  assumes "driver_of t r = Some (DLeaf li pin)"
  shows "has_role t li Inv \<Longrightarrow> fst (c_inv (t_cells t)) = ip # ips \<Longrightarrow> pin_on t li ip r' \<Longrightarrow> clk_ok t r' c \<Longrightarrow>
      clk_ok t r (invert_clk c)"
    and "has_role t li Icg \<Longrightarrow> pin_on t li (c_icg_clock (t_cells t)) r' \<Longrightarrow> clk_ok t r' c \<Longrightarrow> clk_ok t r (icg_clk li c)"
    and "has_role t li Buf \<Longrightarrow> fst (c_buf (t_cells t)) = ip # ips \<Longrightarrow> pin_on t li ip r' \<Longrightarrow> clk_ok t r' c \<Longrightarrow>
      clk_ok t r c"
  using assms by (auto simp: clk_ok_def invert_clk_def icg_clk_def split: clk.splits
      intro: clocked.through_inv clocked.through_icg clocked.through_buf)

lemma py_nth_0: "py_nth xs 0 = Inr x \<Longrightarrow> \<exists>ys. xs = x # ys"
  by (cases xs) (auto simp: py_nth_def)

lemma sat_leaf:
  assumes E: "mild E" and rec: "tracer_sat E t M rec" and st: "trace_inv t st" "M \<subseteq>\<^sub>m map_of (snd st)"
    and d: "driver_of t r = Some (DLeaf li pin)"
  shows "sat E t M (trace_leaf rec t li pin st) (clk_ok t r)"
  unfolding trace_leaf_def
proof (intro sat_pure [OF E py_nth_error] sat_pure [OF E leaf_cell_error])
  fix ro cell
  assume ro: "py_nth (t_role t) li = Inr ro" and cell: "leaf_cell t li = Inr cell"
  then have role: "has_role t li ro" by (auto simp: has_role_def py_nth_Inr)
  note pin = sat_pin_clock [OF E rec st, of li]
  consider "ro = Buf" | "ro = Inv" | "ro = Icg" | "ro = Gate2" | "ro \<notin> {Buf, Inv, Icg, Gate2}" by blast
  then show "sat E t M (if ro = Buf \<or> ro = Inv
       then ebind (py_nth (fst ((if ro = Buf then c_buf else c_inv) (t_cells t))) 0) (\<lambda>ip.
         ebind (pin_clock rec t li ip st) (\<lambda>(up, st1).
           Inr (if ro = Inv then invert_clk up else up, st1)))
       else if ro = Icg
       then ebind (pin_clock rec t li (c_icg_clock (t_cells t)) st) (\<lambda>(up, st1). Inr (icg_clk li up, st1))
       else if ro = Gate2 then trace_gate2 rec t li cell st
       else Inr (NoClock (''driven by '' @ role_name ro @ '' '' @ cell @ '' '' @ leaf_name t li @ ''.'' @ pin), st))
      (clk_ok t r)"
  proof cases
    case 1
    have "sat E t M (ebind (py_nth (fst (c_buf (t_cells t))) 0) (\<lambda>ip.
        ebind (pin_clock rec t li ip st) (\<lambda>(up, st1). Inr (up, st1)))) (clk_ok t r)"
      using invert_icg_ok(3) [OF d] role 1
      by (intro sat_pure [OF E py_nth_error] sat_bind [OF pin]) (auto dest!: py_nth_0)
    with 1 show ?thesis by simp
  next
    case 2
    have "sat E t M (ebind (py_nth (fst (c_inv (t_cells t))) 0) (\<lambda>ip.
        ebind (pin_clock rec t li ip st) (\<lambda>(up, st1). Inr (invert_clk up, st1)))) (clk_ok t r)"
      using invert_icg_ok(1) [OF d] role 2
      by (intro sat_pure [OF E py_nth_error] sat_bind [OF pin]) (auto dest!: py_nth_0)
    with 2 show ?thesis by simp
  next
    case 3
    have "sat E t M (ebind (pin_clock rec t li (c_icg_clock (t_cells t)) st)
        (\<lambda>(up, st1). Inr (icg_clk li up, st1))) (clk_ok t r)"
      using invert_icg_ok(2) [OF d] role 3 by (intro sat_bind [OF pin]) auto
    with 3 show ?thesis by simp
  next
    case 4
    with sat_gate2 [OF E rec st d _ cell] role show ?thesis by simp
  qed (use st in simp)
qed

lemma sat_net:
  assumes "mild E" and "tracer_sat E t M rec" and "trace_inv t st" and "M \<subseteq>\<^sub>m map_of (snd st)"
  shows "sat E t M (trace_net rec t r st) (clk_ok t r)"
  unfolding trace_net_def using sat_leaf [OF assms] assms(3,4)
  by (auto simp: clocked.at_port split: option.split driver.split)

section \<open>clock\_of keeps the invariant, and when its limit is enough\<close>

text \<open>The nets a leaf drives, and those among them that are not in the memo: each can be entered once.\<close>

definition leaf_driven :: "trace \<Rightarrow> net set" where
  "leaf_driven t = Some ` fst ` set (t_driver t)"

lemma driver_of_driven: "driver_of t r = Some d \<Longrightarrow> r \<in> leaf_driven t"
  by (force simp: driver_of_def leaf_driven_def dest: map_of_SomeD split: option.splits)

lemma finite_driven: "finite (leaf_driven t)"
  by (simp add: leaf_driven_def)

lemma trace_inv_mark: "trace_inv t st \<Longrightarrow> trace_inv t (fst st, dict_set r (NoClock why) (snd st))"
  by (simp add: trace_inv_def dict_set_lookup)

lemma trace_inv_store: "trace_inv t st \<Longrightarrow> clk_ok t r c \<Longrightarrow> trace_inv t (fst st, dict_set r c (snd st))"
  by (simp add: trace_inv_def dict_set_lookup)

lemma map_le_mark: "M \<subseteq>\<^sub>m map_of m \<Longrightarrow> r \<notin> dom M \<Longrightarrow> M \<subseteq>\<^sub>m map_of (dict_set r c m)"
  by (auto simp: map_le_def dict_set_lookup)

lemma clock_of_sat:
  assumes "mild E" and "E RecursionError \<or> card (leaf_driven t - dom M) < n"
  shows "tracer_sat E t M (clock_of n t)"
  using assms(2)
proof (induction n arbitrary: M)
  case 0
  then show ?case by (simp add: tracer_sat_def)
next
  case (Suc n)
  show ?case
    unfolding tracer_sat_def
  proof (intro allI impI)
    fix r st
    assume st: "trace_inv t st" and M: "M \<subseteq>\<^sub>m map_of (snd st)"
    show "sat E t M (clock_of (Suc n) t r st) (clk_ok t r)"
    proof (cases "map_of (snd st) r")
      case (Some c)
      with st M show ?thesis by (simp add: trace_inv_def)
    next
      case None
      let ?st1 = "(fst st, dict_set r (NoClock ''loop'') (snd st))"
      let ?M1 = "map_of (snd ?st1)"
      have r: "r \<notin> dom M" using M None unfolding map_le_def by (metis domIff)
      have st1: "trace_inv t ?st1" by (rule trace_inv_mark [OF st])
      have M1: "M \<subseteq>\<^sub>m ?M1" using map_le_mark [OF M r] by simp
      have "sat E t ?M1 (trace_net (clock_of n t) t r ?st1) (clk_ok t r)"
      proof (cases "r \<in> leaf_driven t")
        case False
        then show ?thesis
          using st1 driver_of_driven [of t r] by (cases "driver_of t r") (auto simp: trace_net_def)
      next
        case True
        have "leaf_driven t - dom ?M1 \<subset> leaf_driven t - dom M"
          using True r map_le_implies_dom_le [OF M1] by (auto simp: dict_set_lookup)
        then have "card (leaf_driven t - dom ?M1) < card (leaf_driven t - dom M)"
          using finite_driven by (intro psubset_card_mono) auto
        with Suc.prems have "tracer_sat E t ?M1 (clock_of n t)" by (intro Suc.IH) auto
        then show ?thesis by (intro sat_net [OF assms(1)] st1) simp_all
      qed
      then have "sat E t M (ebind (trace_net (clock_of n t) t r ?st1)
          (\<lambda>(c, st1). Inr (c, (fst st1, dict_set r c (snd st1))))) (clk_ok t r)"
      proof (cases "trace_net (clock_of n t) t r ?st1")
        case (Inr y)
        obtain c st2 where y: "y = (c, st2)" by (cases y)
        assume "sat E t ?M1 (trace_net (clock_of n t) t r ?st1) (clk_ok t r)"
        then have 2: "trace_inv t st2" "?M1 \<subseteq>\<^sub>m map_of (snd st2)" "clk_ok t r c" by (simp_all add: Inr y)
        have "M \<subseteq>\<^sub>m map_of (snd st2)" by (rule map_le_trans [OF M1 2(2)])
        with 2 r show ?thesis by (simp add: Inr y trace_inv_store map_le_mark)
      qed simp
      with None show ?thesis by simp
    qed
  qed
qed

lemma clock_of_inv:
  assumes "trace_inv t st" and "clock_of n t r st = Inr (c, st')"
  shows "trace_inv t st'" and "map_of (snd st) \<subseteq>\<^sub>m map_of (snd st')" and "clk_ok t r c"
proof -
  have "tracer_sat (\<lambda>e. True) t (map_of (snd st)) (clock_of n t)"
    by (rule clock_of_sat) (simp_all add: mild_def)
  from tracer_satD [OF this assms(1)]
  have "sat (\<lambda>e. True) t (map_of (snd st)) (clock_of n t r st) (clk_ok t r)" by simp
  then have "sat (\<lambda>e. True) t (map_of (snd st)) (Inr (c, st')) (clk_ok t r)" by (simp only: assms(2))
  then show "trace_inv t st'" "map_of (snd st) \<subseteq>\<^sub>m map_of (snd st')" "clk_ok t r c" by simp_all
qed

lemma clock_of_limit:
  assumes "trace_inv t st" and "length (t_driver t) < n"
  shows "clock_of n t r st \<noteq> Inl RecursionError"
proof -
  have "card (leaf_driven t - dom Map.empty) \<le> length (t_driver t)"
    unfolding leaf_driven_def using card_length [of "map (Some \<circ> fst) (t_driver t)"]
    by (simp add: image_image comp_def)
  with assms(2) have "tracer_sat (\<lambda>e. e \<noteq> RecursionError) t Map.empty (clock_of n t)"
    by (intro clock_of_sat) (simp_all add: mild_def)
  from tracer_satD [OF this assms(1)]
  have "sat (\<lambda>e. e \<noteq> RecursionError) t Map.empty (clock_of n t r st) (clk_ok t r)" by simp
  then show ?thesis by (auto simp: sat_def)
qed

text \<open>A result, once in the memo, is what every later call returns.\<close>

lemma clock_of_memo:
  assumes "clock_of n t r st = Inr (c, st')"
  shows "map_of (snd st') r = Some c"
proof (cases n)
  case (Suc m)
  with assms show ?thesis by (auto simp: ebind_eq_Inr dict_set_lookup split: option.splits)
qed (use assms in simp)

text \<open>The queries of a run: the memo and the parents are handed on from call to call.\<close>

definition clock_queries :: "nat \<Rightarrow> trace \<Rightarrow> net list \<Rightarrow> clk_state \<Rightarrow> clk_state res" where
  "clock_queries n t rs st = efold (\<lambda>st r. ebind (clock_of n t r st) (\<lambda>(c, st'). Inr st')) st rs"

definition clk_start :: "trace \<Rightarrow> clk_state" where
  "clk_start t = (f_uf (t_flat t), [])"

lemma clock_queries_inv:
  assumes "clock_queries n t rs st = Inr st'" and "trace_inv t st"
  shows "trace_inv t st' \<and> map_of (snd st) \<subseteq>\<^sub>m map_of (snd st')"
  using assms unfolding clock_queries_def
proof (induction rs arbitrary: st)
  case (Cons r rs)
  from Cons.prems(1) obtain c st1 where 1: "clock_of n t r st = Inr (c, st1)"
    and 2: "efold (\<lambda>st r. ebind (clock_of n t r st) (\<lambda>(c, st'). Inr st')) st1 rs = Inr st'"
    by (auto simp: ebind_eq_Inr)
  note inv = clock_of_inv [OF Cons.prems(2) 1]
  from Cons.IH [OF 2 inv(1)] inv(2) show ?case by (meson map_le_trans)
qed simp

section \<open>The circuit\<close>

text \<open>
  \<open>settled t port icg v\<close>: in the valuation \<open>v\<close> of the nets, the clock ports have the values \<open>port\<close>
  and every buffer, inverter, clock gate and two-input gate has settled; \<open>icg li\<close> is the enable held
  by the latch inside the ICG \<open>li\<close>. What the latches of the netlist hold is what \<open>v\<close> says of their outputs.
\<close>

definition follows :: "trace \<Rightarrow> nat \<Rightarrow> string list \<Rightarrow> (net \<Rightarrow> bool) \<Rightarrow> bool" where
  "follows t li pins P \<longleftrightarrow> (case pins of [] \<Rightarrow> True | ip # ips \<Rightarrow>
     (case pin_rep t li ip of None \<Rightarrow> True | Some r' \<Rightarrow> P r'))"

definition gate_settled :: "trace \<Rightarrow> nat \<Rightarrow> (net \<Rightarrow> bool) \<Rightarrow> bool \<Rightarrow> bool" where
  "gate_settled t li v y \<longleftrightarrow>
     (case leaf_cell t li of Inl e \<Rightarrow> True | Inr cell \<Rightarrow>
        (case map_of (c_gate2 (t_cells t)) (c_base (t_cells t) cell) of None \<Rightarrow> True
         | Some ((pa, pb), fn) \<Rightarrow>
             (case pin_rep t li pa of None \<Rightarrow> True | Some na \<Rightarrow>
                (case pin_rep t li pb of None \<Rightarrow> True | Some nb \<Rightarrow>
                   of_bool y = fn (of_bool (v na)) (of_bool (v nb))))))"

definition leaf_settled :: "trace \<Rightarrow> (nat \<Rightarrow> bool) \<Rightarrow> (net \<Rightarrow> bool) \<Rightarrow> bool \<Rightarrow> nat \<Rightarrow> bool" where
  "leaf_settled t icg v y li \<longleftrightarrow>
     (case t_role t ! li of
        Buf \<Rightarrow> follows t li (fst (c_buf (t_cells t))) (\<lambda>r'. y = v r')
      | Inv \<Rightarrow> follows t li (fst (c_inv (t_cells t))) (\<lambda>r'. y = (\<not> v r'))
      | Icg \<Rightarrow> follows t li [c_icg_clock (t_cells t)] (\<lambda>r'. y = (v r' \<and> icg li))
      | Gate2 \<Rightarrow> gate_settled t li v y
      | _ \<Rightarrow> True)"

definition settled :: "trace \<Rightarrow> (string \<Rightarrow> bool) \<Rightarrow> (nat \<Rightarrow> bool) \<Rightarrow> (net \<Rightarrow> bool) \<Rightarrow> bool" where
  "settled t port icg v \<longleftrightarrow> list_all (\<lambda>(r, d).
     case d of
       DPort b \<Rightarrow> v (Some r) = port b
     | DConst c \<Rightarrow> True
     | DLeaf li pin \<Rightarrow> li < length (t_role t) \<longrightarrow> leaf_settled t icg v (v (Some r)) li) (t_driver t)"

text \<open>A gate is open when its enable is on: the ICG's latch, or the latch output as the gate reads it.\<close>

definition gate_open :: "trace \<Rightarrow> (nat \<Rightarrow> bool) \<Rightarrow> (net \<Rightarrow> bool) \<Rightarrow> gate \<Rightarrow> bool" where
  "gate_open t icg v g =
     (case g of
        GIcg li \<Rightarrow> icg li
      | GLatch li lat inv_x cp \<Rightarrow>
          (case leaf_cell t li of Inl e \<Rightarrow> False | Inr cell \<Rightarrow>
             (case map_of (c_gate2 (t_cells t)) (c_base (t_cells t) cell) of None \<Rightarrow> False
              | Some ((pa, pb), fn) \<Rightarrow>
                  (case pin_rep t li (if cp = pa then pb else pa) of
                     None \<Rightarrow> False | Some nx \<Rightarrow> v nx \<noteq> inv_x))))"

lemma pin_on_det: "pin_on t li p r \<Longrightarrow> pin_on t li p r' \<Longrightarrow> r = r'"
  by (auto simp: pin_on_def)

lemma gate_fn_det: "gate_fn t li g \<Longrightarrow> gate_fn t li g' \<Longrightarrow> g = g'"
  by (auto simp: gate_fn_def)

lemma settled_leaf:
  assumes "settled t port icg v" and "driver_of t r = Some (DLeaf li pin)" and "has_role t li ro"
  shows "leaf_settled t icg v (v r) li" and "t_role t ! li = ro"
  using assms by (auto simp: settled_def has_role_def driver_of_def list_all_iff
      dest!: map_of_SomeD split: option.splits)

lemma settled_port: "settled t port icg v \<Longrightarrow> driver_of t r = Some (DPort b) \<Longrightarrow> v r = port b"
  by (force simp: settled_def driver_of_def list_all_iff dest!: map_of_SomeD split: option.splits)

lemma settled_simps:
  assumes "settled t port icg v" and "driver_of t r = Some (DLeaf li pin)"
  shows "has_role t li Buf \<Longrightarrow> fst (c_buf (t_cells t)) = ip # ips \<Longrightarrow> pin_on t li ip r' \<Longrightarrow> v r = v r'"
    and "has_role t li Inv \<Longrightarrow> fst (c_inv (t_cells t)) = ip # ips \<Longrightarrow> pin_on t li ip r' \<Longrightarrow> v r = (\<not> v r')"
    and "has_role t li Icg \<Longrightarrow> pin_on t li (c_icg_clock (t_cells t)) r' \<Longrightarrow> v r = (v r' \<and> icg li)"
    and "has_role t li Gate2 \<Longrightarrow> gate_fn t li ((pa, pb), fn) \<Longrightarrow> pin_on t li pa na \<Longrightarrow> pin_on t li pb nb \<Longrightarrow>
      of_bool (v r) = fn (of_bool (v na)) (of_bool (v nb))"
  using settled_leaf [OF assms, where ro = Buf] settled_leaf [OF assms, where ro = Inv]
    settled_leaf [OF assms, where ro = Icg] settled_leaf [OF assms, where ro = Gate2]
  by (auto simp: leaf_settled_def follows_def gate_settled_def gate_fn_def pin_on_rep)

lemma settled_gate:
  assumes "settled t port icg v" and "driver_of t r = Some (DLeaf li pin)" and "has_role t li Gate2"
    and "gate_fn t li g" and "(cp, xp, f) \<in> gate_sides g" and "pin_on t li cp nc" and "pin_on t li xp nx"
  shows "of_bool (v r) = f (of_bool (v nc)) (of_bool (v nx))"
proof -
  obtain pa pb fn where g: "g = ((pa, pb), fn)" by (metis surj_pair)
  from assms(5) consider "cp = pa" "xp = pb" "f = fn" | "cp = pb" "xp = pa" "f = (\<lambda>c x. fn x c)"
    by (auto simp: g gate_sides_def)
  then show ?thesis
    using settled_simps(4) [OF assms(1-3), of pa pb fn] assms(4,6,7) by cases (simp_all add: g)
qed

text \<open>
  What the verdict on a gate promises: open, the gate is a buffer or an inverter for its clock;
  closed, its output does not move.
\<close>

lemma verdict_gate:
  assumes "gate_verdict t li cell lat low cp f rt iv gs liv = Clock rt iv' gs'"
    and "of_bool y = f (of_bool c) (of_bool x)"
  shows "\<exists>inv_x. gs' = gs @ [GLatch li lat inv_x cp] \<and>
    (x \<noteq> inv_x \<longrightarrow> y = (c \<noteq> (iv \<noteq> iv'))) \<and> (x = inv_x \<longrightarrow> y = (iv \<noteq> iv'))"
proof -
  from assms(1) consider
    "f 0 0 = 0" "f 0 1 = 0" "f 1 0 = 0 \<and> f 1 1 = 1 \<or> f 1 0 = 1 \<and> f 1 1 = 0" "iv' = iv"
      "gs' = gs @ [GLatch li lat (f 1 1 = 0) cp]"
  | "f 0 0 = 1" "f 0 1 = 1" "f 1 0 = 0 \<and> f 1 1 = 1 \<or> f 1 0 = 1 \<and> f 1 1 = 0" "iv' = (\<not> iv)"
      "gs' = gs @ [GLatch li lat (f 1 0 = 0) cp]"
    by (auto simp: gate_verdict_def split: if_splits)
  then show ?thesis
  proof cases
    case 1
    with assms(2) show ?thesis by (intro exI [of _ "f 1 1 = 0"]) (cases c; cases x; cases y; auto)
  next
    case 2
    with assms(2) show ?thesis by (intro exI [of _ "f 1 0 = 0"]) (cases c; cases x; cases y; auto)
  qed
qed

lemma gate_open_latch:
  assumes "gate_fn t li g" and "(cp, xp, f) \<in> gate_sides g" and "pin_on t li xp nx"
  shows "gate_open t icg v (GLatch li lat inv_x cp) \<longleftrightarrow> v nx \<noteq> inv_x"
proof -
  obtain pa pb fn where g: "g = ((pa, pb), fn)" by (metis surj_pair)
  have "xp = (if cp = pa then pb else pa)" using assms(2) by (auto simp: g gate_sides_def)
  with assms(1,3) show ?thesis
    by (cases "cp = pa") (auto simp: gate_open_def gate_fn_def pin_on_rep g)
qed

text \<open>With all the gates open, the net follows the root.\<close>

lemma clocked_open:
  "clocked t r rt iv gs \<Longrightarrow> settled t port icg v \<Longrightarrow> \<forall>g \<in> set gs. gate_open t icg v g \<Longrightarrow> v r = (port rt \<noteq> iv)"
proof (induction rule: clocked.induct)
  case (at_port r b)
  then show ?case by (simp add: settled_port)
next
  case (through_buf r li pin ip ips r' rt iv gs)
  have "v r = v r'" by (rule settled_simps(1) [OF through_buf.prems(1) through_buf.hyps(1-4)])
  with through_buf.IH [OF through_buf.prems] show ?case by blast
next
  case (through_inv r li pin ip ips r' rt iv gs)
  have "v r = (\<not> v r')" by (rule settled_simps(2) [OF through_inv.prems(1) through_inv.hyps(1-4)])
  with through_inv.IH [OF through_inv.prems] show ?case by blast
next
  case (through_icg r li pin r' rt iv gs)
  have v: "v r = (v r' \<and> icg li)" by (rule settled_simps(3) [OF through_icg.prems(1) through_icg.hyps(1-3)])
  have "icg li" and g: "\<forall>g \<in> set gs. gate_open t icg v g"
    using through_icg.prems(2) by (simp_all add: gate_open_def)
  with v through_icg.IH [OF through_icg.prems(1) g] show ?case by blast
next
  case (through_gate r li pin g cp xp f nc nx lat q en low rt iv gs ne liv lgs cell iv' gs')
  have f: "of_bool (v r) = f (of_bool (v nc)) (of_bool (v nx))"
    by (rule settled_gate [OF through_gate.prems(1) through_gate.hyps(1-6)])
  from verdict_gate [OF through_gate.hyps(13) f] obtain inv_x where
    gs': "gs' = gs @ [GLatch li lat inv_x cp]" and o: "v nx \<noteq> inv_x \<longrightarrow> v r = (v nc \<noteq> (iv \<noteq> iv'))" by blast
  have "v nx \<noteq> inv_x"
    using through_gate.prems(2) gate_open_latch [OF through_gate.hyps(3,4,6)] by (simp add: gs')
  moreover have "v nc = (port rt \<noteq> iv)" using through_gate.IH(1) through_gate.prems by (simp add: gs')
  ultimately show ?case using o by auto
qed

text \<open>With a gate closed, the net does not see the root: same enables, same value.\<close>

lemma clocked_closed:
  "clocked t r rt iv gs \<Longrightarrow> settled t port icg v \<Longrightarrow> settled t port' icg v' \<Longrightarrow>
    \<forall>g \<in> set gs. gate_open t icg v g = gate_open t icg v' g \<Longrightarrow> \<exists>g \<in> set gs. \<not> gate_open t icg v g \<Longrightarrow> v r = v' r"
proof (induction rule: clocked.induct)
  case (at_port r b)
  then show ?case by simp
next
  case (through_buf r li pin ip ips r' rt iv gs)
  have "v r = v r'" "v' r = v' r'"
    by (rule settled_simps(1) [OF _ through_buf.hyps(1-4)], rule through_buf.prems)+
  with through_buf.IH [OF through_buf.prems] show ?case by blast
next
  case (through_inv r li pin ip ips r' rt iv gs)
  have "v r = (\<not> v r')" "v' r = (\<not> v' r')"
    by (rule settled_simps(2) [OF _ through_inv.hyps(1-4)], rule through_inv.prems)+
  with through_inv.IH [OF through_inv.prems] show ?case by blast
next
  case (through_icg r li pin r' rt iv gs)
  have "v r = (v r' \<and> icg li)" "v' r = (v' r' \<and> icg li)"
    by (rule settled_simps(3) [OF _ through_icg.hyps(1-3)], rule through_icg.prems)+
  then show ?case using through_icg.IH through_icg.prems by (auto simp: gate_open_def)
next
  case (through_gate r li pin g cp xp f nc nx lat q en low rt iv gs ne liv lgs cell iv' gs')
  have f: "of_bool (v r) = f (of_bool (v nc)) (of_bool (v nx))"
    "of_bool (v' r) = f (of_bool (v' nc)) (of_bool (v' nx))"
    by (rule settled_gate [OF _ through_gate.hyps(1-6)], rule through_gate.prems)+
  from verdict_gate [OF through_gate.hyps(13) f(1)] obtain x where
    gs': "gs' = gs @ [GLatch li lat x cp]" and v: "v nx \<noteq> x \<longrightarrow> v r = (v nc \<noteq> (iv \<noteq> iv'))"
      "v nx = x \<longrightarrow> v r = (iv \<noteq> iv')" by blast
  from verdict_gate [OF through_gate.hyps(13) f(2)] gs' have
    v': "v' nx \<noteq> x \<longrightarrow> v' r = (v' nc \<noteq> (iv \<noteq> iv'))" "v' nx = x \<longrightarrow> v' r = (iv \<noteq> iv')" by auto
  note op = gate_open_latch [OF through_gate.hyps(3,4,6)]
  have same: "(v nx \<noteq> x) = (v' nx \<noteq> x)" using through_gate.prems(3) by (simp add: gs' op)
  show ?case
  proof (cases "v nx = x")
    case True
    with same v(2) v'(2) show ?thesis by simp
  next
    case False
    then have "v nc = v' nc"
      using through_gate.IH(1) through_gate.prems by (auto simp: gs' op)
    with False same v(1) v'(1) show ?thesis by simp
  qed
qed

end
