(* ===== verification/Clock_Props.thy ===== *)
theory Clock_Props
  imports Clock_Sound
begin

text \<open>
  What \<open>Trace.__init__\<close> makes of a flattened netlist (what drives each net), and the properties of
  the clock tracer, with the example circuits of their witnesses.
\<close>

section \<open>The drivers\<close>

lemma net_drivers_spec:
  assumes "efold (pin_driver r) ds ps = Inr ds'"
  shows "map_of ds' k = Some d \<longleftrightarrow> map_of ds k = Some d \<or>
    (k = r \<and> (\<exists>li pin. d = DLeaf li pin \<and> (li, pin, ''output'') \<in> set ps))"
  using assms
proof (induction ps arbitrary: ds)
  case (Cons x ps)
  obtain li pin dir where x: "x = (li, pin, dir)" by (cases x)
  from Cons.prems obtain ds1 where 1: "pin_driver r ds x = Inr ds1" and 2: "efold (pin_driver r) ds1 ps = Inr ds'"
    by (auto simp: ebind_eq_Inr)
  show ?case
  proof (cases "dir = ''output''")
    case True
    with 1 x have new: "map_of ds r = None" and ds1: "ds1 = dict_set r (DLeaf li pin) ds"
      by (auto simp: pin_driver_def split: if_splits)
    have "map_of ds1 k = Some d \<longleftrightarrow> map_of ds k = Some d \<or> k = r \<and> d = DLeaf li pin"
      using new by (auto simp: ds1 dict_set_lookup)
    with Cons.IH [OF 2] x True show ?thesis by auto
  next
    case False
    with 1 x have "ds1 = ds" by (simp add: pin_driver_def)
    with Cons.IH [OF 2] x False show ?thesis by auto
  qed
qed simp

lemma all_drivers_spec:
  assumes "efold net_drivers ds rps = Inr ds'"
  shows "map_of ds' k = Some d \<longleftrightarrow> map_of ds k = Some d \<or>
    (\<exists>ps li pin. (k, ps) \<in> set rps \<and> d = DLeaf li pin \<and> (li, pin, ''output'') \<in> set ps)"
  using assms
proof (induction rps arbitrary: ds)
  case (Cons rp rps)
  obtain r ps where rp: "rp = (r, ps)" by force
  from Cons.prems obtain ds1 where 0: "net_drivers ds rp = Inr ds1" and 2: "efold net_drivers ds1 rps = Inr ds'"
    by (auto simp: ebind_eq_Inr)
  from 0 have 1: "efold (pin_driver r) ds ps = Inr ds1" by (simp add: net_drivers_def rp)
  from Cons.IH [OF 2] net_drivers_spec [OF 1] show ?case by (auto simp: rp)
qed simp

text \<open>Ports and constants are noted only where no leaf drives the net; the nets do not change.\<close>

definition port_or_const :: "flat \<Rightarrow> module \<Rightarrow> string \<Rightarrow> driver \<Rightarrow> bool" where
  "port_or_const f md r d \<longleftrightarrow> (case d of
     DLeaf li pin \<Rightarrow> False
   | DPort b \<Rightarrow> b \<in> set (input_bits md) \<and> r = rep (f_uf f) (net_key [] b)
   | DConst v \<Rightarrow> is_const_bit v \<and> r = rep (f_uf f) (const_key v))"

definition drv_inv :: "flat \<Rightarrow> module \<Rightarrow> drivers \<Rightarrow> uf \<times> drivers \<Rightarrow> bool" where
  "drv_inv f md ds1 st \<longleftrightarrow> uf_wf (fst st) \<and> rep (fst st) = rep (f_uf f) \<and>
     map_of ds1 \<subseteq>\<^sub>m map_of (snd st) \<and>
     (\<forall>r d. map_of (snd st) r = Some d \<longrightarrow> map_of ds1 r = Some d \<or> port_or_const f md r d)"

lemma map_le_setdefault:
  assumes "M \<subseteq>\<^sub>m map_of ds"
  shows "M \<subseteq>\<^sub>m map_of (dict_setdefault r d ds)"
proof (cases "map_of ds r")
  case None
  with assms have "r \<notin> dom M" unfolding map_le_def by (metis domIff)
  with assms show ?thesis by (auto simp: dict_setdefault_lookup map_le_def)
qed (use assms in \<open>simp add: dict_setdefault_lookup\<close>)

lemma drv_inv_setdefault:
  assumes "drv_inv f md ds1 (u, ds)" and "port_or_const f md r d" and "uf_wf u'" and "rep u' = rep u"
  shows "drv_inv f md ds1 (u', dict_setdefault r d ds)"
proof -
  have "map_of ds1 \<subseteq>\<^sub>m map_of (dict_setdefault r d ds)"
    using assms(1) by (intro map_le_setdefault) (simp add: drv_inv_def)
  then show ?thesis using assms by (auto simp: drv_inv_def dict_setdefault_lookup split: if_splits)
qed

lemma port_driver_inv:
  assumes "drv_inv f md ds1 st" and "port_driver st b = Inr st'" and "b \<in> set (input_bits md)"
  shows "drv_inv f md ds1 st'"
proof -
  have wf: "uf_wf (fst st)" and rp: "rep (fst st) = rep (f_uf f)" using assms(1) by (simp_all add: drv_inv_def)
  from uf_lookup_spec [OF wf, of "([], b)"] obtain u where
    u: "uf_lookup ([], b) (fst st) = Inr (rep (fst st) (net_key [] b), u)" "uf_wf u" "rep u = rep (fst st)" by auto
  have "st' = (u, dict_setdefault (rep (fst st) (net_key [] b)) (DPort b) (snd st))"
    using assms(2) u(1) by (simp add: port_driver_def)
  with drv_inv_setdefault [of f md ds1 "fst st" "snd st"] assms(1,3) u(2,3) rp
  show ?thesis by (simp add: port_or_const_def)
qed

lemma const_driver_inv:
  assumes "drv_inv f md ds1 st" and "const_driver st rv = Inr st'"
    and "is_const_bit (snd rv) \<and> rep (f_uf f) (fst rv) = rep (f_uf f) (const_key (snd rv))"
  shows "drv_inv f md ds1 st'"
proof -
  have wf: "uf_wf (fst st)" and rp: "rep (fst st) = rep (f_uf f)" using assms(1) by (simp_all add: drv_inv_def)
  from uf_find_wf [OF wf, of "fst rv"] obtain u where
    u: "uf_find (fst rv) (fst st) = Inr (rep (fst st) (fst rv), u)" "uf_wf u" "rep u = rep (fst st)" by auto
  have "st' = (u, dict_setdefault (rep (fst st) (fst rv)) (DConst (snd rv)) (snd st))"
    using assms(2) u(1) by (simp add: const_driver_def)
  with drv_inv_setdefault [of f md ds1 "fst st" "snd st"] assms(1,3) u(2,3) rp
  show ?thesis by (simp add: port_or_const_def)
qed

lemma trace_of_spec:
  assumes "trace_of f cs = Inr t" and "uf_wf (f_uf f)"
  obtains md where "map_of (f_mods f) (f_top f) = Some md" and "t_cells t = cs"
    and "uf_wf (f_uf (t_flat t))" and "rep (f_uf (t_flat t)) = rep (f_uf f)"
    and "\<And>r li pin. map_of (t_driver t) r = Some (DLeaf li pin) \<longleftrightarrow>
      (\<exists>ps. (r, ps) \<in> set (f_pins f) \<and> (li, pin, ''output'') \<in> set ps)"
    and "\<And>r d. map_of (t_driver t) r = Some d \<Longrightarrow> (\<exists>li pin. d = DLeaf li pin) \<or> port_or_const f md r d"
proof -
  from assms(1) obtain u ds roles ds1 md u2 ds2 where
    1: "efold net_drivers [] (f_pins f) = Inr ds1" and md: "map_of (f_mods f) (f_top f) = Some md"
    and 2: "efold port_driver (f_uf f, ds1) (input_bits md) = Inr (u2, ds2)"
    and 3: "efold const_driver (u2, ds2) (uf_const u2) = Inr (u, ds)"
    and t: "t = \<lparr>t_cells = cs, t_flat = f\<lparr>f_uf := u\<rparr>, t_role = roles, t_driver = ds\<rparr>"
    by (auto simp: trace_of_def trace_drivers_def ebind_eq_Inr split: option.splits)
  have "drv_inv f md ds1 (f_uf f, ds1)" using assms(2) by (simp add: drv_inv_def)
  then have i2: "drv_inv f md ds1 (u2, ds2)"
    by (rule efold_inv [where P = "drv_inv f md ds1", OF 2]) (rule port_driver_inv)
  have cs_ok: "is_const_bit (snd rv) \<and> rep (f_uf f) (fst rv) = rep (f_uf f) (const_key (snd rv))"
    if "rv \<in> set (uf_const u2)" for rv
    using i2 that by (auto simp: drv_inv_def uf_wf_def const_ok_def joined_def)
  have "drv_inv f md ds1 (u, ds)"
    by (rule efold_inv [where P = "drv_inv f md ds1", OF 3 i2]) (rule const_driver_inv, auto dest: cs_ok)
  then have wf: "uf_wf u" and rp: "rep u = rep (f_uf f)" and le: "map_of ds1 \<subseteq>\<^sub>m map_of ds"
    and d: "\<And>r d. map_of ds r = Some d \<Longrightarrow> map_of ds1 r = Some d \<or> port_or_const f md r d"
    by (simp_all add: drv_inv_def)
  note s1 = all_drivers_spec [OF 1]
  have leaf: "map_of ds r = Some (DLeaf li pin) \<longleftrightarrow>
      (\<exists>ps. (r, ps) \<in> set (f_pins f) \<and> (li, pin, ''output'') \<in> set ps)" for r li pin
    using d [of r "DLeaf li pin"] s1 [of r "DLeaf li pin"] le
    by (auto simp: port_or_const_def map_le_def dom_def)
  have other: "(\<exists>li pin. d = DLeaf li pin) \<or> port_or_const f md r d" if "map_of ds r = Some d" for r d
    using \<open>\<And>r d. map_of ds r = Some d \<Longrightarrow> map_of ds1 r = Some d \<or> port_or_const f md r d\<close> [OF that] s1 [of r d]
    by auto
  show thesis by (rule that [OF md]) (simp_all add: t wf rp leaf other)
qed

text \<open>The start of a run satisfies the invariant of the tracer.\<close>

lemma clk_start_inv:
  assumes "flat_new limit mods topm cds = Inr f" and "trace_of f cs = Inr t"
  shows "trace_inv t (clk_start t)"
proof -
  have "uf_wf (f_uf f)" using flat_new_spec(1) [OF assms(1)] by (rule uf.stands_wf)
  from trace_of_spec [OF assms(2) this] have "uf_wf (f_uf (t_flat t))" by blast
  then show ?thesis by (simp add: clk_start_def trace_inv_def)
qed

section \<open>Example circuits\<close>

text \<open>
  A latch gate: an active-low latch, whose output pin \<open>q\<close> is the second input of an AND gate. And two
  latch gates in series with an inverter between them; the second latch is active high.
\<close>

definition latch_dirs :: cell_dirs where
  "latch_dirs =
     [(''LATN_X1'', [(''EN'', ''input''), (''D'', ''input''), (''Q'', ''output''), (''QN'', ''output'')]),
      (''LAT_X1'', [(''EN'', ''input''), (''D'', ''input''), (''Q'', ''output'')]),
      (''AND2_X1'', [(''A1'', ''input''), (''A2'', ''input''), (''Z'', ''output'')]),
      (''INV_X1'', [(''I'', ''input''), (''ZN'', ''output'')])]"

definition top_with :: "inst list \<Rightarrow> modules" where
  "top_with is = [(''top'', (module_init ''top'' [] [] 0 0)
     \<lparr>md_dirs := [(''clk'', ''input''), (''d'', ''input''), (''e'', ''input'')], md_insts := is\<rparr>)]"

definition latch_gate :: "string \<Rightarrow> inst list" where
  "latch_gate q =
     [example_inst ''LATN_X1'' ''l1'' [(''EN'', ''clk''), (''D'', ''d''), (q, ''x'')],
      example_inst ''AND2_X1'' ''g1'' [(''A1'', ''clk''), (''A2'', ''x''), (''Z'', ''c1'')]]"

definition inverted_chain :: "inst list" where
  "inverted_chain = latch_gate ''Q'' @
     [example_inst ''INV_X1'' ''i'' [(''I'', ''c1''), (''ZN'', ''c2'')],
      example_inst ''LAT_X1'' ''l2'' [(''EN'', ''clk''), (''D'', ''e''), (''Q'', ''y'')],
      example_inst ''AND2_X1'' ''g2'' [(''A1'', ''c2''), (''A2'', ''y''), (''Z'', ''c3'')]]"

definition trace_with :: "inst list \<Rightarrow> trace res" where
  "trace_with is = ebind (flat_new 3 (top_with is) ''top'' latch_dirs) (\<lambda>f. trace_of f cells_py)"

definition clock_with :: "inst list \<Rightarrow> net \<Rightarrow> clk res" where
  "clock_with is r = ebind (trace_with is) (\<lambda>t. ebind (clock_of 20 t r (clk_start t)) (\<lambda>(c, st). Inr c))"

text \<open>What the code computes on the example circuits, and two settled valuations of each.\<close>

definition high :: "string list \<Rightarrow> net \<Rightarrow> bool" where
  "high ns r = (case r of None \<Rightarrow> False | Some n \<Rightarrow> n \<in> set ns)"

lemma latch_gate_run:
  "case trace_with (latch_gate ''Q'') of Inl e \<Rightarrow> False | Inr t \<Rightarrow>
     (case clock_of 20 t (Some ''/c1'') (clk_start t) of Inl e \<Rightarrow> False | Inr (c, st) \<Rightarrow>
        c = Clock ''clk'' False [GLatch 1 0 False ''A1'']) \<and>
     length (t_driver t) < 20 \<and> map_of (t_driver t) ''/c1'' = Some (DLeaf 1 ''Z'') \<and>
     settled t (\<lambda>p. p = ''clk'') (\<lambda>li. False) (high [''/clk'', ''/x'', ''/c1'']) \<and>
     settled t (\<lambda>p. False) (\<lambda>li. False) (high [''/x'']) \<and>
     gate_open t (\<lambda>li. False) (high [''/clk'', ''/x'', ''/c1'']) (GLatch 1 0 False ''A1'') \<and>
     gate_open t (\<lambda>li. False) (high [''/x'']) (GLatch 1 0 False ''A1'')"
  by code_simp

lemma latch_gate_trace:
  obtains f t st where "flat_new 3 (top_with (latch_gate ''Q'')) ''top'' latch_dirs = Inr f"
    and "trace_of f cells_py = Inr t"
    and "clock_of 20 t (Some ''/c1'') (clk_start t) = Inr (Clock ''clk'' False [GLatch 1 0 False ''A1''], st)"
    and "length (t_driver t) < 20" and "map_of (t_driver t) ''/c1'' = Some (DLeaf 1 ''Z'')"
    and "settled t (\<lambda>p. p = ''clk'') (\<lambda>li. False) (high [''/clk'', ''/x'', ''/c1''])"
    and "settled t (\<lambda>p. False) (\<lambda>li. False) (high [''/x''])"
    and "gate_open t (\<lambda>li. False) (high [''/clk'', ''/x'', ''/c1'']) (GLatch 1 0 False ''A1'')"
    and "gate_open t (\<lambda>li. False) (high [''/x'']) (GLatch 1 0 False ''A1'')"
proof -
  obtain t where t: "trace_with (latch_gate ''Q'') = Inr t"
    using latch_gate_run by (cases "trace_with (latch_gate ''Q'')") (simp_all only: sum.case)
  note run = latch_gate_run [unfolded t sum.case]
  from t obtain f where f: "flat_new 3 (top_with (latch_gate ''Q'')) ''top'' latch_dirs = Inr f"
    "trace_of f cells_py = Inr t" by (auto simp: trace_with_def ebind_eq_Inr)
  from run have "case clock_of 20 t (Some ''/c1'') (clk_start t) of Inl e \<Rightarrow> False | Inr (c, st) \<Rightarrow>
        c = Clock ''clk'' False [GLatch 1 0 False ''A1'']" by (rule conjunct1)
  then obtain st where c: "clock_of 20 t (Some ''/c1'') (clk_start t) =
      Inr (Clock ''clk'' False [GLatch 1 0 False ''A1''], st)"
    by (cases "clock_of 20 t (Some ''/c1'') (clk_start t)") (simp_all only: sum.case, blast)
  from run have "length (t_driver t) < 20 \<and> map_of (t_driver t) ''/c1'' = Some (DLeaf 1 ''Z'') \<and>
     settled t (\<lambda>p. p = ''clk'') (\<lambda>li. False) (high [''/clk'', ''/x'', ''/c1'']) \<and>
     settled t (\<lambda>p. False) (\<lambda>li. False) (high [''/x'']) \<and>
     gate_open t (\<lambda>li. False) (high [''/clk'', ''/x'', ''/c1'']) (GLatch 1 0 False ''A1'') \<and>
     gate_open t (\<lambda>li. False) (high [''/x'']) (GLatch 1 0 False ''A1'')" by (rule conjunct2)
  with f c show thesis by (elim conjE) (rule that)
qed

section \<open>Properties\<close>

text \<open>C1: After any run of queries, a clock that clock_of returns is right about the circuit: with all
  its gates open the net follows the root port with the polarity it says, and with one of them
  closed the net has the same value whatever the root does.\<close>

theorem clock_edge_passes_iff_open:
  assumes "flat_new limit mods topm cds = Inr f" and "trace_of f cs = Inr t"
    and "clock_queries n t rs (clk_start t) = Inr st" and "clock_of n t r st = Inr (Clock rt iv gs, st')"
    and "settled t port icg v" and "settled t port' icg v'"
    and "\<forall>g \<in> set gs. gate_open t icg v g = gate_open t icg v' g"
  shows "if \<forall>g \<in> set gs. gate_open t icg v g
    then v r = (port rt \<noteq> iv) \<and> v' r = (port' rt \<noteq> iv) else v r = v' r"
proof -
  have "trace_inv t st" using clock_queries_inv [OF assms(3) clk_start_inv [OF assms(1,2)]] by simp
  from clock_of_inv(3) [OF this assms(4)] have c: "clocked t r rt iv gs" by simp
  show ?thesis
    using clocked_open [OF c assms(5)] clocked_open [OF c assms(6)] clocked_closed [OF c assms(5-7)] assms(7)
    by auto
qed

theorem clock_edge_passes_iff_open_witness:
  "high [''/clk'', ''/x'', ''/c1''] (Some ''/c1'') \<and> \<not> high [''/x''] (Some ''/c1'')"
proof (rule latch_gate_trace)
  fix f t st
  assume f: "flat_new 3 (top_with (latch_gate ''Q'')) ''top'' latch_dirs = Inr f" "trace_of f cells_py = Inr t"
    and c: "clock_of 20 t (Some ''/c1'') (clk_start t) = Inr (Clock ''clk'' False [GLatch 1 0 False ''A1''], st)"
    and s: "settled t (\<lambda>p. p = ''clk'') (\<lambda>li. False) (high [''/clk'', ''/x'', ''/c1''])"
      "settled t (\<lambda>p. False) (\<lambda>li. False) (high [''/x''])"
    and g: "gate_open t (\<lambda>li. False) (high [''/clk'', ''/x'', ''/c1'']) (GLatch 1 0 False ''A1'')"
      "gate_open t (\<lambda>li. False) (high [''/x'']) (GLatch 1 0 False ''A1'')"
  have "clock_queries 20 t [] (clk_start t) = Inr (clk_start t)" by (simp add: clock_queries_def)
  from clock_edge_passes_iff_open [OF f this c s] g show ?thesis by simp
qed

text \<open>C33: clock_of always returns, on combinational loops too: a limit on nested calls above the
  number of driven nets is never reached, after any run of queries.\<close>

theorem clock_of_returns:
  assumes "flat_new limit mods topm cds = Inr f" and "trace_of f cs = Inr t"
    and "clock_queries n t rs (clk_start t) = Inr st" and "length (t_driver t) < k"
  shows "clock_of k t r st \<noteq> Inl RecursionError"
  using clock_queries_inv [OF assms(3) clk_start_inv [OF assms(1,2)]] assms(4) by (intro clock_of_limit) auto

theorem clock_of_returns_witness:
  "\<exists>t. trace_with (latch_gate ''Q'') = Inr t \<and> clock_of 20 t (Some ''/x'') (clk_start t) \<noteq> Inl RecursionError"
proof (rule latch_gate_trace)
  fix f t
  assume f: "flat_new 3 (top_with (latch_gate ''Q'')) ''top'' latch_dirs = Inr f" "trace_of f cells_py = Inr t"
    and l: "length (t_driver t) < 20"
  have "clock_queries 20 t [] (clk_start t) = Inr (clk_start t)" by (simp add: clock_queries_def)
  from clock_of_returns [OF f this l] f show ?thesis by (auto simp: trace_with_def)
qed

text \<open>The clock of a net never changes: whatever is queried in between, asking again gives the
  same answer and leaves the state as it is.\<close>

theorem clock_of_stable:
  assumes "flat_new limit mods topm cds = Inr f" and "trace_of f cs = Inr t"
    and "clock_queries n t rs (clk_start t) = Inr st" and "clock_of n t r st = Inr (c, st1)"
    and "clock_queries n t rs' st1 = Inr st2" and "0 < k"
  shows "clock_of k t r st2 = Inr (c, st2)"
proof -
  have i: "trace_inv t st" using clock_queries_inv [OF assms(3) clk_start_inv [OF assms(1,2)]] by simp
  have "map_of (snd st1) \<subseteq>\<^sub>m map_of (snd st2)"
    using clock_queries_inv [OF assms(5) clock_of_inv(1) [OF i assms(4)]] by simp
  with clock_of_memo [OF assms(4)] have "map_of (snd st2) r = Some c"
    by (metis domI map_le_def)
  with assms(6) show ?thesis by (cases k) simp_all
qed

theorem clock_of_stable_witness:
  "\<exists>t st. clock_of 1 t (Some ''/c1'') st = Inr (Clock ''clk'' False [GLatch 1 0 False ''A1''], st)"
proof (rule latch_gate_trace)
  fix f t st
  assume f: "flat_new 3 (top_with (latch_gate ''Q'')) ''top'' latch_dirs = Inr f" "trace_of f cells_py = Inr t"
    and c: "clock_of 20 t (Some ''/c1'') (clk_start t) = Inr (Clock ''clk'' False [GLatch 1 0 False ''A1''], st)"
  have q: "clock_queries 20 t [] s = Inr s" for s by (simp add: clock_queries_def)
  from clock_of_stable [OF f q c q zero_less_one] show ?thesis by blast
qed

text \<open>C32: A leaf pin is noted as the driver of a net exactly when it is an output pin connected to
  that net.\<close>

theorem driver_is_connected_output:
  assumes "flat_new limit mods topm cds = Inr f" and "trace_of f cs = Inr t"
  shows "map_of (t_driver t) r = Some (DLeaf li pin) \<longleftrightarrow>
    (\<exists>k. (k, (li, pin, ''output'')) \<in> set (all_pins mods cds (f_leaves f)) \<and> rep (f_uf f) k = r)"
proof -
  have wf: "uf_wf (f_uf f)" using flat_new_spec(1) [OF assms(1)] by (rule uf.stands_wf)
  show ?thesis
    by (rule trace_of_spec [OF assms(2) wf]) (simp add: flat_pin_entry [OF assms(1)])
qed

theorem driver_is_connected_output_witness:
  "\<exists>(f :: flat) k. (k, (1, ''Z'', ''output'')) \<in> set (all_pins (top_with (latch_gate ''Q'')) latch_dirs (f_leaves f))"
proof (rule latch_gate_trace)
  fix f t
  assume f: "flat_new 3 (top_with (latch_gate ''Q'')) ''top'' latch_dirs = Inr f" "trace_of f cells_py = Inr t"
    and d: "map_of (t_driver t) ''/c1'' = Some (DLeaf 1 ''Z'')"
  from d show ?thesis unfolding driver_is_connected_output [OF f] by blast
qed



text \<open>The latch of a traced gate, with the two clocks the tracer compared.\<close>

lemma clocked_latch:
  "clocked t r rt iv gs \<Longrightarrow> GLatch li lat x cp \<in> set gs \<Longrightarrow>
    \<exists>nc ne en low iv0 gs0 liv lgs. pin_on t li cp nc \<and> latch_enable t lat en low \<and> pin_on t lat en ne \<and>
      clocked t nc rt iv0 gs0 \<and> clocked t ne rt liv lgs \<and> (liv = iv0) = low"
proof (induction rule: clocked.induct)
  case (through_gate r li' pin g cp' xp f nc nx lat' q en low rt iv gs ne liv lgs cell iv' gs')
  from through_gate.hyps(13) have low: "(liv = iv) = low"
    and gs': "\<exists>y. gs' = gs @ [GLatch li' lat' y cp']"
    by (auto simp: gate_verdict_def split: if_splits)
  show ?case
  proof (cases "GLatch li lat x cp \<in> set gs")
    case True
    then show ?thesis by (rule through_gate.IH(1))
  next
    case False
    with gs' through_gate.prems have "li' = li" "lat' = lat" "cp' = cp" by auto
    with through_gate.hyps low show ?thesis by blast
  qed
qed auto

text \<open>C37: For every latch gate on a traced clock, the enable of its latch is traced to the same root,
  and while the gates before both are open the latch is transparent exactly when the clock input
  of the gate is low.\<close>

theorem gate_latch_open_while_low:
  assumes "flat_new limit mods topm cds = Inr f" and "trace_of f cs = Inr t"
    and "clock_queries n t rs (clk_start t) = Inr st" and "clock_of n t r st = Inr (Clock rt iv gs, st')"
    and "GLatch li lat x cp \<in> set gs"
  shows "\<exists>nc ne en low iv0 gs0 liv lgs. pin_on t li cp nc \<and> latch_enable t lat en low \<and> pin_on t lat en ne \<and>
    clocked t nc rt iv0 gs0 \<and> clocked t ne rt liv lgs \<and>
    (\<forall>port icg v. settled t port icg v \<and> (\<forall>g \<in> set gs0 \<union> set lgs. gate_open t icg v g) \<longrightarrow>
      (\<not> v nc \<longrightarrow> v ne \<noteq> low) \<and> (v nc \<longrightarrow> v ne = low))"
proof -
  have "trace_inv t st" using clock_queries_inv [OF assms(3) clk_start_inv [OF assms(1,2)]] by simp
  from clock_of_inv(3) [OF this assms(4)] have c: "clocked t r rt iv gs" by simp
  from clocked_latch [OF c assms(5)] obtain nc ne en low iv0 gs0 liv lgs where
    o: "pin_on t li cp nc" "latch_enable t lat en low" "pin_on t lat en ne"
      "clocked t nc rt iv0 gs0" "clocked t ne rt liv lgs" and low: "(liv = iv0) = low" by blast
  have "(\<not> v nc \<longrightarrow> v ne \<noteq> low) \<and> (v nc \<longrightarrow> v ne = low)"
    if "settled t port icg v" "\<forall>g \<in> set gs0 \<union> set lgs. gate_open t icg v g" for port icg v
    using clocked_open [OF o(4) that(1)] clocked_open [OF o(5) that(1)] that(2) low by auto
  with o show ?thesis by blast
qed

theorem gate_latch_open_while_low_witness:
  "\<exists>t nc ne en low. trace_with (latch_gate ''Q'') = Inr t \<and> pin_on t 1 ''A1'' nc \<and> latch_enable t 0 en low \<and>
    pin_on t 0 en ne"
proof (rule latch_gate_trace)
  fix f t st
  assume f: "flat_new 3 (top_with (latch_gate ''Q'')) ''top'' latch_dirs = Inr f" "trace_of f cells_py = Inr t"
    and c: "clock_of 20 t (Some ''/c1'') (clk_start t) = Inr (Clock ''clk'' False [GLatch 1 0 False ''A1''], st)"
  have q: "clock_queries 20 t [] s = Inr s" for s by (simp add: clock_queries_def)
  have m: "GLatch 1 0 False ''A1'' \<in> set [GLatch 1 0 False ''A1'']" by simp
  have "trace_with (latch_gate ''Q'') = Inr t" using f by (simp add: trace_with_def)
  moreover obtain nc ne en low where "pin_on t 1 ''A1'' nc" "latch_enable t 0 en low" "pin_on t 0 en ne"
    using gate_latch_open_while_low [OF f q c m] by (elim exE conjE) (rule that)
  ultimately show ?thesis by (intro exI conjI)
qed

end
