(* ===== verification/Clock_Report.thy ===== *)
theory Clock_Report
  imports Clock_Props "HOL-Library.Product_Lexorder"
begin

text \<open>
  The report of \<open>fpga/tools/clocktrace.py\<close> (\<open>main\<close>): every clock sink is counted by root, polarity,
  kind, pin and the gates in series, or listed under the reason why it was not traced.
\<close>

section \<open>Counting\<close>

type_synonym sink_kind = "string \<times> string \<times> string \<times> string \<times> string"

record report =
  rp_by :: "(sink_kind \<times> nat) list"
  rp_bad :: "(string \<times> string list) list"
  rp_gate_regs :: "((string \<times> string) \<times> nat) list"

definition report_init :: report where
  "report_init = \<lparr>rp_by = [], rp_bad = [], rp_gate_regs = []\<rparr>"

definition gates_word :: "gate list \<Rightarrow> string" where
  "gates_word gs = (let s = join_sep ''+'' (map gate_kind gs) in if s = [] then ''none'' else s)"

definition count_gate :: "trace \<Rightarrow> ((string \<times> string) \<times> nat) list \<Rightarrow> gate \<Rightarrow> ((string \<times> string) \<times> nat) list" where
  "count_gate t d g = counter_inc (gate_kind g, leaf_name t (gate_leaf g)) d"

definition count_sink :: "trace \<Rightarrow> nat \<Rightarrow> string \<Rightarrow> role \<Rightarrow> string \<Rightarrow> report \<Rightarrow> clk \<Rightarrow> report" where
  "count_sink t li pin ro cell rp c =
     (case c of
        NoClock why \<Rightarrow> rp\<lparr>rp_bad := dict_set why
          (dict_get (rp_bad rp) why [] @ [role_name ro @ '' '' @ cell @ '' '' @ leaf_name t li @ ''.'' @ pin]) (rp_bad rp)\<rparr>
      | Clock rt iv gs \<Rightarrow>
          rp\<lparr>rp_by := counter_inc (rt, (if iv then ''inv'' else ''pos''), role_name ro, pin, gates_word gs) (rp_by rp),
             rp_gate_regs := foldl (count_gate t) (rp_gate_regs rp) gs\<rparr>)"

definition report_sink :: "nat \<Rightarrow> trace \<Rightarrow> report \<times> clk_state \<Rightarrow> sink \<Rightarrow> (report \<times> clk_state) res" where
  "report_sink limit t st s =
     (case s of (li, pin, ro) \<Rightarrow>
        ebind (pin_net t li pin (fst (snd st))) (\<lambda>(r, u).
        ebind (case r of
            None \<Rightarrow> Inr (NoClock ''unconnected'', (u, snd (snd st)))
          | Some k \<Rightarrow> if k = [] then Inr (NoClock ''unconnected'', (u, snd (snd st)))
                      else clock_of limit t r (u, snd (snd st))) (\<lambda>(c, st1).
        ebind (leaf_cell t li) (\<lambda>cell. Inr (count_sink t li pin ro cell (fst st) c, st1)))))"

definition report_of :: "nat \<Rightarrow> trace \<Rightarrow> report res" where
  "report_of limit t =
     ebind (sinks t) (\<lambda>ss.
       ebind (efold (report_sink limit t) (report_init, (f_uf (t_flat t), [])) ss) (\<lambda>st. Inr (fst st)))"

section \<open>Printing\<close>

definition kind_words :: "sink_kind \<Rightarrow> string" where
  "kind_words k = (case k of (rt, pol, ro, pin, gates) \<Rightarrow> rt @ ''  '' @ pol @ ''  '' @ ro @ ''  '' @ pin @ ''  '' @ gates)"

text \<open>\<open>Counter(k for k, _ in gate_regs)\<close> and how it prints: the most frequent first.\<close>

definition gate_counts :: "report \<Rightarrow> (string \<times> nat) list" where
  "gate_counts rp = sort_key (\<lambda>kn. - int (snd kn)) (foldl (\<lambda>d kn. counter_inc (fst (fst kn)) d) [] (rp_gate_regs rp))"

definition counter_text :: "(string \<times> nat) list \<Rightarrow> string" where
  "counter_text d =
     (if d = [] then ''Counter()''
      else ''Counter('' @ repr_counts d @ '')'')"

definition report_lines :: "report \<Rightarrow> string list" where
  "report_lines rp =
     [''== clock sinks by root, polarity, kind, pin, gates in series''] @
     map (\<lambda>(k, n). pad_left 7 (show_nat n) @ ''  '' @ kind_words k)
       (sort_key (\<lambda>(k, n). (- int n, k)) (rp_by rp)) @
     [''== gates: '' @ counter_text (gate_counts rp),
      ''== sinks not traced to a port ('' @ show_nat (length (rp_bad rp)) @ '' kinds)''] @
     concat (map (\<lambda>(reason, items). (pad_left 6 (show_nat (length items)) @ ''  '' @ reason) #
         map (\<lambda>s. ''           '' @ s) (take 4 items))
       (sort_key (\<lambda>(reason, items). - int (length items)) (rp_bad rp)))"

definition clocktrace_main :: "nat \<Rightarrow> string \<Rightarrow> string \<Rightarrow> string list \<Rightarrow> cells \<Rightarrow> string list res" where
  "clocktrace_main limit netlist topm models cs =
     ebind (trace_new limit netlist topm models cs) (\<lambda>t.
       ebind (report_of limit t) (\<lambda>rp. Inr (report_lines rp)))"

end
