(* ===== verification/Report_Props.thy ===== *)
theory Report_Props
  imports Clock_Report
begin

text \<open>What the clock report promises: no clock sink is lost or counted twice.\<close>

lemma sum_dict_set:
  "sum_list (map f (dict_set k v d)) + (case map_of d k of None \<Rightarrow> 0 | Some w \<Rightarrow> f (k, w)) =
    sum_list (map f d) + (f (k, v) :: nat)"
  by (induction d) (auto simp: split: option.splits)

lemma sum_counter_inc: "sum_list (map snd (counter_inc k d)) = Suc (sum_list (map snd d))"
  using sum_dict_set [of snd k "Suc (dict_get d k 0)" d]
  by (simp add: counter_inc_def dict_get_def split: option.splits)

definition counted :: "report \<Rightarrow> nat" where
  "counted rp = sum_list (map snd (rp_by rp)) + sum_list (map (\<lambda>x. length (snd x)) (rp_bad rp))"

lemma count_sink_counted: "counted (count_sink t li pin ro cell rp c) = Suc (counted rp)"
proof (cases c)
  case (Clock rt iv gs)
  then show ?thesis by (simp add: count_sink_def counted_def sum_counter_inc)
next
  case (NoClock why)
  have "sum_list (map (\<lambda>x. length (snd x)) (dict_set why (dict_get d why [] @ [x]) d)) =
      Suc (sum_list (map (\<lambda>x. length (snd x)) d))" for x and d :: "(string \<times> string list) list"
    using sum_dict_set [of "\<lambda>x. length (snd x)" why "dict_get d why [] @ [x]" d]
    by (simp add: dict_get_def split: option.splits)
  then show ?thesis by (simp add: count_sink_def counted_def NoClock)
qed

lemma report_sink_one:
  assumes "report_sink limit t st s = Inr st1"
  shows "\<exists>li pin ro cell c. fst st1 = count_sink t li pin ro cell (fst st) c"
proof -
  obtain li pin ro where s: "s = (li, pin, ro)" by (metis surj_pair)
  show ?thesis
    using assms unfolding report_sink_def s prod.case ebind_eq_Inr by (auto simp: ebind_eq_Inr) blast
qed

lemma report_sinks_counted:
  "efold (report_sink limit t) st ss = Inr st' \<Longrightarrow> counted (fst st') = counted (fst st) + length ss"
proof (induction ss arbitrary: st)
  case (Cons s ss)
  then obtain st1 where 1: "report_sink limit t st s = Inr st1" and 2: "efold (report_sink limit t) st1 ss = Inr st'"
    by (auto simp: ebind_eq_Inr)
  from report_sink_one [OF 1] obtain li pin ro cell c where "fst st1 = count_sink t li pin ro cell (fst st) c" by blast
  with Cons.IH [OF 2] show ?case by (simp add: count_sink_counted)
qed simp


lemma latch_report_run:
  "case trace_with (latch_gate ''Q'') of Inl e \<Rightarrow> False | Inr t \<Rightarrow> (case sinks t of Inl e \<Rightarrow> False | Inr ss \<Rightarrow> length ss = 1 \<and>
     (case report_of 20 t of Inl e \<Rightarrow> False
      | Inr rp \<Rightarrow> rp_by rp = [((''clk'', ''pos'', ''latch'', ''EN'', ''none''), 1)] \<and> rp_bad rp = []))"
  by code_simp


end
