(* ===== verification/Vnet_Print.thy ===== *)
theory Vnet_Print
  imports Vnet_Parse
begin

text \<open>
  Netlists as text: an abstract syntax of modules and statements, the text that stands for them (the
  format of the last part of \<open>fpga/tools/fi_fpga_ce.py\<close>, and of a netlist without comments), what
  the reader should make of it,
  and what the patterns of the reader match in it.
\<close>

section \<open>Abstract syntax and text\<close>

datatype stmt =
    SDecl string "(nat \<times> nat) option" "string list"
  | SAssign string string
  | SInst string string "(string \<times> string) list"

definition print_conn :: "string \<times> string \<Rightarrow> string" where
  "print_conn c = CHR ''.'' # fst c @ CHR ''('' # snd c @ '')''"

definition print_range :: "(nat \<times> nat) option \<Rightarrow> string" where
  "print_range r = (case r of None \<Rightarrow> [] | Some (a, b) \<Rightarrow> ''['' @ show_nat a @ '':'' @ show_nat b @ ''] '')"

fun stmt_core :: "stmt \<Rightarrow> string" where
  "stmt_core (SDecl k r ns) = k @ CHR '' '' # print_range r @ join_sep '', '' ns"
| "stmt_core (SAssign l r) = ''assign '' @ l @ '' = '' @ r"
| "stmt_core (SInst cell name conns) =
     cell @ CHR '' '' # name @ '' ( '' @ join_sep '', '' (map print_conn conns) @ '' )''"

text \<open>A statement with the white space before it; the body of a module ends in white space.\<close>

type_synonym laid = "string \<times> stmt"

definition laid_text :: "laid \<Rightarrow> string" where
  "laid_text x = fst x @ stmt_core (snd x)"

definition body_text :: "laid list \<Rightarrow> string \<Rightarrow> string" where
  "body_text ss w = concat (map (\<lambda>x. laid_text x @ '';'') ss) @ w"

type_synonym mod_syntax = "string \<times> string list \<times> laid list \<times> string"

definition module_header :: "string \<Rightarrow> string list \<Rightarrow> string" where
  "module_header name ports = ''module '' @ name @ '' ( '' @ join_sep '', '' ports @ '' );''"

definition print_module :: "mod_syntax \<Rightarrow> string" where
  "print_module m = (case m of (name, ports, ss, w) \<Rightarrow>
     module_header name ports @ body_text ss w @ ''endmodule'' @ [CHR 0x0A])"

text \<open>The modules of a file, each after white space.\<close>

definition design_text :: "(string \<times> mod_syntax) list \<Rightarrow> string" where
  "design_text ms = concat (map (\<lambda>(g, m). g @ print_module m) ms)"

section \<open>What the statements say\<close>

definition decl_kinds :: "string list" where
  "decl_kinds = [''input'', ''output'', ''inout'', ''wire'', ''tri'', ''supply0'', ''supply1'']"

definition say_name :: "string \<Rightarrow> (nat \<times> nat) option \<Rightarrow> module \<Rightarrow> string \<Rightarrow> module" where
  "say_name k r md n =
     (let md1 = (case r of None \<Rightarrow> md | Some ab \<Rightarrow> md\<lparr>md_width := dict_set n ab (md_width md)\<rparr>) in
      if k \<in> {''input'', ''output'', ''inout''} then md1\<lparr>md_dirs := dict_set n k (md_dirs md1)\<rparr>
      else if k \<in> {''supply0'', ''supply1''} then md1\<lparr>md_supply := dict_set n [last k] (md_supply md1)\<rparr>
      else md1)"

fun say_stmt :: "nat \<Rightarrow> laid \<Rightarrow> module \<Rightarrow> module" where
  "say_stmt pos (u, SDecl k r ns) md = foldl (say_name k r) md ns"
| "say_stmt pos (u, SAssign l r) md = md\<lparr>md_assigns := md_assigns md @ [(l, r)]\<rparr>"
| "say_stmt pos (u, SInst cell name conns) md =
     md\<lparr>md_insts := md_insts md @ [\<lparr>i_cell = cell, i_name = name, i_conns = conns, i_start = pos,
       i_end = pos + length (laid_text (u, SInst cell name conns))\<rparr>]\<rparr>"

fun say_stmts :: "nat \<Rightarrow> laid list \<Rightarrow> module \<Rightarrow> module" where
  "say_stmts pos [] md = md"
| "say_stmts pos (x # xs) md = say_stmts (pos + length (laid_text x) + 1) xs (say_stmt pos x md)"

text \<open>The module \<open>m\<close>, written at position \<open>off\<close> of the file; the modules of a file.\<close>

definition say_module :: "nat \<Rightarrow> mod_syntax \<Rightarrow> module" where
  "say_module off m = (case m of (name, ports, ss, w) \<Rightarrow>
     let b = off + length (module_header name ports) in
     say_stmts 0 ss (module_init name ports (body_text ss w) b (b + length (body_text ss w))))"

fun say_design :: "nat \<Rightarrow> (string \<times> mod_syntax) list \<Rightarrow> modules" where
  "say_design off [] = []"
| "say_design off ((g, m) # ms) =
     (fst m, say_module (off + length g) m) # say_design (off + length g + length (print_module m)) ms"

section \<open>Well-formed syntax\<close>

definition expr_char :: "char \<Rightarrow> bool" where
  "expr_char c \<longleftrightarrow> is_word c \<or> c \<in> set (CHR 0x27 # '' []{}:,'')"

definition expr_ok :: "string \<Rightarrow> bool" where
  "expr_ok e \<longleftrightarrow> list_all expr_char e \<and> (e \<noteq> [] \<longrightarrow> \<not> is_space (hd e) \<and> \<not> is_space (last e))"

definition rhs_ok :: "string \<Rightarrow> bool" where
  "rhs_ok e \<longleftrightarrow> e \<noteq> [] \<and> CHR '';'' \<notin> set e \<and> CHR ''/'' \<notin> set e \<and> \<not> is_space (hd e) \<and> \<not> is_space (last e)"

fun stmt_ok :: "stmt \<Rightarrow> bool" where
  "stmt_ok (SDecl k r ns) \<longleftrightarrow> k \<in> set decl_kinds \<and> ns \<noteq> [] \<and> list_all is_name ns"
| "stmt_ok (SAssign l r) \<longleftrightarrow> expr_ok l \<and> l \<noteq> [] \<and> rhs_ok r"
| "stmt_ok (SInst cell name conns) \<longleftrightarrow> is_name cell \<and> is_name name \<and> cell \<notin> set decl_kinds \<and>
     \<not> prefix ''assign'' cell \<and> distinct (map fst conns) \<and> list_all (\<lambda>(p, e). is_name p \<and> expr_ok e) conns"

definition laid_ok :: "laid \<Rightarrow> bool" where
  "laid_ok x \<longleftrightarrow> list_all is_space (fst x) \<and> stmt_ok (snd x)"

definition module_ok :: "mod_syntax \<Rightarrow> bool" where
  "module_ok m \<longleftrightarrow> (case m of (name, ports, ss, w) \<Rightarrow>
     is_name name \<and> list_all is_name ports \<and> list_all laid_ok ss \<and> list_all is_space w \<and>
     \<not> sublist ''endmodule'' (body_text ss w))"

definition design_ok :: "(string \<times> mod_syntax) list \<Rightarrow> bool" where
  "design_ok ms \<longleftrightarrow> distinct (map (fst \<circ> snd) ms) \<and> list_all (\<lambda>(g, m). list_all is_space g \<and> module_ok m) ms"

section \<open>Characters of the text\<close>

lemma expr_char_not: "expr_char c \<Longrightarrow> c \<noteq> CHR ''('' \<and> c \<noteq> CHR '')'' \<and> c \<noteq> CHR '';'' \<and> c \<noteq> CHR ''='' \<and> c \<noteq> CHR ''/''"
proof -
  have "list_all (\<lambda>x. \<not> expr_char x) ''();=/''" by code_simp
  then show "expr_char c \<Longrightarrow> ?thesis" by auto
qed

lemma word_char_not: "is_word c \<Longrightarrow> c \<noteq> CHR ''('' \<and> c \<noteq> CHR '')'' \<and> c \<noteq> CHR '';'' \<and> c \<noteq> CHR ''='' \<and>
    c \<noteq> CHR ''/'' \<and> c \<noteq> CHR '','' \<and> c \<noteq> CHR ''.'' \<and> c \<noteq> CHR ''['' \<and> c \<noteq> CHR '' ''"
proof -
  have "list_all (\<lambda>x. \<not> is_word x) ''();=/,.[ ''" by code_simp
  then show "is_word c \<Longrightarrow> ?thesis" by auto
qed

lemma set_join_sep: "set (join_sep sep xs) \<subseteq> set sep \<union> \<Union> (set ` set xs)"
  by (induction sep xs rule: join_sep.induct) auto

lemma is_nameD: "is_name n \<Longrightarrow> n \<noteq> [] \<and> list_all is_word n \<and> is_word (hd n) \<and> is_word (last n)"
  by (auto simp: is_name_def list_all_iff)

lemma py_strip_front: "list_all is_space u \<Longrightarrow> py_strip (u @ s) = py_strip s"
  by (simp add: py_strip_def list_all_iff dropWhile_append2)

lemma py_strip_pad:
  assumes "list_all is_space u" and "list_all is_space w" and "s \<noteq> []" and "\<not> is_space (hd s)" and "\<not> is_space (last s)"
  shows "py_strip (u @ s @ w) = s"
proof -
  have "dropWhile is_space (s @ w) = s @ w" using assms(3,4) by (cases s) auto
  moreover have "dropWhile is_space (rev w @ rev s) = rev s"
  proof -
    have "dropWhile is_space (rev w @ rev s) = dropWhile is_space (rev s)"
      using assms(2) by (intro dropWhile_append2) (simp add: list_all_iff)
    with assms(3,5) show ?thesis by (cases s rule: rev_cases) auto
  qed
  ultimately show ?thesis unfolding py_strip_front [OF assms(1)] by (simp add: py_strip_def)
qed

lemma space_space: "is_space (CHR '' '')" "is_space (CHR 0x0A)" "\<not> is_word (CHR '' '')"
  by code_simp+

text \<open>Names between commas.\<close>

lemma split_on_none: "sep \<notin> set s \<Longrightarrow> split_on sep s = [s]"
  by (induction s) auto

lemma comma_names_join:
  assumes "list_all is_name ns" and "list_all is_space u" and "list_all is_space w"
  shows "comma_names (u @ join_sep '', '' ns @ w) = ns"
proof -
  have cs: "CHR '','' \<notin> set v" if "list_all is_space v" for v
  proof -
    have "\<not> is_space (CHR '','')" by code_simp
    with that show ?thesis by (auto simp: list_all_iff)
  qed
  have cn: "CHR '','' \<notin> set n" if "is_name n" for n
    using that word_char_not by (auto simp: is_name_def list_all_iff)
  have st: "py_strip (v @ n @ v') = n" if "is_name n" "list_all is_space v" "list_all is_space v'" for n v v'
    using py_strip_pad [OF that(2,3), of n] is_nameD [OF that(1)] is_word_not_space by simp
  show ?thesis
    using assms
  proof (induction "'', ''" ns arbitrary: u rule: join_sep.induct)
    case 1
    have "list_all is_space (u @ w)" using 1 by simp
    then have "CHR '','' \<notin> set (u @ w)" using cs by blast
    moreover have "py_strip [] = []" by (simp add: py_strip_def)
    then have "py_strip (u @ w) = []"
      using py_strip_front [OF \<open>list_all is_space (u @ w)\<close>, of "[]"] by (simp only: append_Nil2)
    ultimately show ?case by (simp add: comma_names_def split_on_none)
  next
    case (2 n)
    then have "CHR '','' \<notin> set (u @ n @ w)" and "py_strip (u @ n @ w) = n" and "n \<noteq> []"
      using cs [of u] cs [of w] cn [of n] st [of n u w] is_nameD [of n] by simp_all
    then show ?case using split_on_none [of "CHR '',''" "u @ n @ w"] by (simp add: comma_names_def)
  next
    case (3 n n' ns)
    have "comma_names ([CHR '' ''] @ join_sep '', '' (n' # ns) @ w) = n' # ns"
      using 3 space_space by (intro "3.hyps") simp_all
    moreover have "split_on (CHR '','') (u @ join_sep '', '' (n # n' # ns) @ w) =
        (u @ n) # split_on (CHR '','') (CHR '' '' # join_sep '', '' (n' # ns) @ w)"
      using 3 cs [of u] cn [of n] split_on_append [of "CHR '',''" "u @ n"] by simp
    moreover have "py_strip (u @ n) = n" "n \<noteq> []" using 3(2,3) st [of n u "[]"] is_nameD [of n] by simp_all
    ultimately show ?case by (simp add: comma_names_def)
  qed
qed

section \<open>Literals and the patterns of statements\<close>

lemma rm_rlit: "rm (rlit w) (p, s, c) = (if prefix w s then [(rev w @ p, drop (length w) s, c)] else [])"
proof (induction w arbitrary: p s rule: rlit.induct)
  case (2 x)
  then show ?case by (cases s) auto
next
  case (3 x y w)
  then show ?case by (cases s) (auto simp: rm_eqs(3))
qed simp

lemma first_lit: "first (rlit w) (p, w @ s, c) (rev w @ p, s, c)"
  by (simp add: first_def rm_rlit)

lemma rm_ralt: "rm (ralt ws) (p, s, c) = concat (map (\<lambda>w. rm (rlit w) (p, s, c)) ws)"
proof (induction ws rule: ralt.induct)
  case 1
  then show ?case by (cases s) simp_all
qed (simp_all add: rm_eqs(4))

text \<open>Of the words of an alternative, the one that stands there, if no other is a prefix of the text.\<close>

lemma first_ralt:
  assumes "k \<in> set ks" and "\<And>w. w \<in> set ks \<Longrightarrow> prefix w (k @ s) \<Longrightarrow> w = k"
  shows "first (ralt ks) (p, k @ s, c) (rev k @ p, s, c)"
proof -
  obtain as bs where ks: "ks = as @ k # bs" and "k \<notin> set as" using assms(1) by (meson split_list_first)
  then have "concat (map (\<lambda>w. rm (rlit w) (p, k @ s, c)) as) = []"
    using assms(2) by (auto simp: rm_rlit)
  moreover have "rm (rlit k) (p, k @ s, c) = [(rev k @ p, s, c)]" by (simp add: rm_rlit)
  ultimately show ?thesis by (simp only: first_def rm_ralt ks map_append concat_append list.map concat.simps) simp
qed

lemma kind_unique:
  assumes "k \<in> set decl_kinds" and "w \<in> set decl_kinds" and "prefix w (k @ CHR '' '' # s)"
  shows "w = k"
  using assms by (auto simp: decl_kinds_def)

lemma rm_seq_Nil: "rm a st = [] \<Longrightarrow> rm (RSeq a b) st = []"
  by (simp add: rm_eqs)

lemma rm_grp_Nil: "rm r st = [] \<Longrightarrow> rm (RGrp g r) st = []"
  by (cases st) (simp add: rm_eqs)

lemma stops_word: "is_word (hd s) \<Longrightarrow> stops is_space s" "\<not> is_space x \<Longrightarrow> stops is_space (x # s)"
  "s = [] \<or> \<not> is_space (hd s) \<Longrightarrow> stops is_space s"
  using is_word_not_space by (auto simp: stops_def)

lemma kind_word: "k \<in> set decl_kinds \<Longrightarrow> k \<noteq> [] \<and> list_all is_word k"
proof -
  have "list_all (\<lambda>k. k \<noteq> [] \<and> list_all is_word k) decl_kinds" by code_simp
  then show "k \<in> set decl_kinds \<Longrightarrow> ?thesis" by (simp add: list_all_iff)
qed

lemma word_hd: "u \<noteq> [] \<Longrightarrow> list_all is_word u \<Longrightarrow> is_word (hd (u @ s)) \<and> word_at (rev u @ p)"
  by (cases u rule: rev_cases) (auto simp: word_at_def list_all_iff hd_append)

lemma decl_first_plain:
  assumes k: "k \<in> set decl_kinds" and J: "J \<noteq> []" "is_word (hd J)"
  shows "\<exists>p i j. first decl_re ([], k @ '' '' @ J, []) (p, [], [(5, i, J), (1, j, k)])"
proof -
  note kw = kind_word [OF k]
  have a: "stops is_space (k @ '' '' @ J)" using kw word_hd [of k "'' '' @ J"] by (intro stops_word) blast
  have b: "\<And>w. w \<in> set decl_kinds \<Longrightarrow> prefix w (k @ '' '' @ J) \<Longrightarrow> w = k"
    using kind_unique [OF k] by simp
  have c: "word_at (rev k @ p) \<noteq> word_at ('' '' @ J)" for p
    using kw word_hd [of k] space_space by (simp add: word_at_def)
  have d: "list_all is_space '' ''" "stops is_space J" using space_space J is_word_not_space
    by (auto intro: stops_word)
  have e: "rm (RGrp 2 (rseq [rchr (CHR ''[''), rspaces, RGrp 3 (rplus rdigit), rspaces, rchr (CHR '':''),
       rspaces, RGrp 4 (rplus rdigit), rspaces, rchr (CHR '']'')])) (p, J, c) = []" for p c
    using J word_char_not [of "hd J"] by (cases J) (auto intro!: rm_grp_Nil rm_seq_Nil)
  have f: "first (RGrp 5 (RStar rany)) (p, J, c) (rev J @ p, [], (5, length p, J) # c)" for p c
    using first_grp_star [of "\<lambda>c. True" J "[]" 5 p c] by (simp add: list_all_iff)
  show ?thesis
    unfolding decl_re_def rseq.simps decl_kinds_def [symmetric]
    apply (intro exI)
    apply (rule first_seq [OF first_bol])
    apply (rule first_seq [OF first_star_skip [OF a]])
    apply (rule first_seq [OF first_grp [OF first_ralt [OF k b]]], assumption, assumption)
    apply (rule first_seq [OF first_wordb [OF c]])
    apply (rule first_seq [OF first_star [OF d]])
    apply (rule first_seq [OF first_alt2 [OF e [unfolded rseq.simps] first_eps]])
    apply (rule first_seq [OF first_star_skip [OF d(2)]])
    apply (rule first_seq [OF f])
    apply (rule first_eol)
    done
qed

lemma first_grpI:
  assumes "first r (p, t, c) (p', s, c')" and "t = u @ s" and "p' = rev u @ p"
  shows "first (RGrp g r) (p, t, c) (p', s, (g, length p, u) # c')"
  using first_grp [of r p u s c c' g] assms by simp

lemma bracket_first:
  assumes a: "a \<noteq> []" "list_all is_digit a" and b: "b \<noteq> []" "list_all is_digit b"
  shows "\<exists>i j. first (rseq [rchr (CHR ''[''), rspaces, RGrp 3 (rplus rdigit), rspaces, rchr (CHR '':''), rspaces,
      RGrp 4 (rplus rdigit), rspaces, rchr (CHR '']'')]) (p, ''['' @ a @ '':'' @ b @ '']'' @ s, c)
      (rev (''['' @ a @ '':'' @ b @ '']'') @ p, s, (4, i, b) # (3, j, a) # c)"
proof -
  have hd: "stops is_space (u @ x)" if "u \<noteq> []" "list_all is_digit u" for u x
    using that is_digit_not by (intro stops_word(3)) (cases u, auto)
  have st: "stops is_space ('':'' @ x)" "stops is_space ('']'' @ x)" "stops is_digit ('':'' @ x)"
    "stops is_digit ('']'' @ x)" for x using bracket_not by (auto simp: stops_def)
  have "\<exists>i j. first (rseq [rchr (CHR ''[''), rspaces, RGrp 3 (rplus rdigit), rspaces, rchr (CHR '':''), rspaces,
      RGrp 4 (rplus rdigit), rspaces, rchr (CHR '']'')]) (p, ''['' @ a @ '':'' @ b @ '']'' @ s, c)
      (CHR '']'' # rev b @ CHR '':'' # rev a @ CHR ''['' # p, s, (4, i, b) # (3, j, a) # c)"
    unfolding rseq.simps append_Cons append_Nil
    apply (intro exI)
    apply (rule first_seq [OF first_cls [OF refl]])
    apply (rule first_seq [OF first_star_skip [OF hd [OF a]]])
    apply (rule first_seq [OF first_grp_plus [OF a st(3) [unfolded append_Cons append_Nil]]])
    apply (rule first_seq [OF first_star_skip [OF st(1) [unfolded append_Cons append_Nil]]])
    apply (rule first_seq [OF first_cls [OF refl]])
    apply (rule first_seq [OF first_star_skip [OF hd [OF b]]])
    apply (rule first_seq [OF first_grp_plus [OF b st(4) [unfolded append_Cons append_Nil]]])
    apply (rule first_seq [OF first_star_skip [OF st(2) [unfolded append_Cons append_Nil]]])
    apply (rule first_cls [OF refl])
    done
  then show ?thesis by simp
qed

lemma decl_first_range:
  assumes k: "k \<in> set decl_kinds" and J: "J \<noteq> []" "is_word (hd J)"
    and a: "a \<noteq> []" "list_all is_digit a" and b: "b \<noteq> []" "list_all is_digit b"
  shows "\<exists>p i j l m n u. first decl_re ([], k @ '' '' @ ''['' @ a @ '':'' @ b @ '']'' @ '' '' @ J, [])
    (p, [], [(5, i, J), (2, j, u), (4, l, b), (3, m, a), (1, n, k)])"
proof -
  let ?B = "''['' @ a @ '':'' @ b @ '']''"
  let ?R = "?B @ '' '' @ J"
  note kw = kind_word [OF k]
  have a1: "stops is_space (k @ '' '' @ ?R)" using kw word_hd [of k "'' '' @ ?R"] by (intro stops_word) blast
  have b1: "\<And>w. w \<in> set decl_kinds \<Longrightarrow> prefix w (k @ '' '' @ ?R) \<Longrightarrow> w = k"
    using kind_unique [OF k] by simp
  have c1: "word_at (rev k @ p) \<noteq> word_at ('' '' @ ?R)" for p
    using kw word_hd [of k] space_space by (simp add: word_at_def)
  have d1: "list_all is_space '' ''" "stops is_space ?R" "stops is_space J"
    using space_space J is_word_not_space bracket_not by (auto intro: stops_word)
  have g: "\<exists>i j n. first (RGrp 2 (rseq [rchr (CHR ''[''), rspaces, RGrp 3 (rplus rdigit), rspaces, rchr (CHR '':''),
       rspaces, RGrp 4 (rplus rdigit), rspaces, rchr (CHR '']'')])) (p, ?R, c)
       (rev ?B @ p, '' '' @ J, (2, n, ?B) # (4, i, b) # (3, j, a) # c)" for p c
    using bracket_first [OF a b, of p "'' '' @ J" c] first_grpI by (fastforce simp del: rseq.simps)
  have f: "first (RGrp 5 (RStar rany)) (p, J, c) (rev J @ p, [], (5, length p, J) # c)" for p c
    using first_grp_star [of "\<lambda>c. True" J "[]" 5 p c] by (simp add: list_all_iff)
  obtain i j n where g': "first (RGrp 2 (rseq [rchr (CHR ''[''), rspaces, RGrp 3 (rplus rdigit), rspaces, rchr (CHR '':''),
       rspaces, RGrp 4 (rplus rdigit), rspaces, rchr (CHR '']'')])) (rev '' '' @ rev k @ [], ?R, [(1, length ([] :: string), k)])
       (rev ?B @ rev '' '' @ rev k @ [], '' '' @ J, (2, n, ?B) # (4, i, b) # (3, j, a) # [(1, length ([] :: string), k)])"
    using g by blast
  have regroup: "''['' @ a @ '':'' @ b @ '']'' @ '' '' @ J = ?R" by simp
  show ?thesis
    unfolding decl_re_def rseq.simps decl_kinds_def [symmetric] regroup
    apply (intro exI)
    apply (rule first_seq [OF first_bol])
    apply (rule first_seq [OF first_star_skip [OF a1]])
    apply (rule first_seq [OF first_grp [OF first_ralt [OF k b1]]], assumption, assumption)
    apply (rule first_seq [OF first_wordb [OF c1]])
    apply (rule first_seq [OF first_star [OF d1(1,2)]])
    apply (rule first_seq [OF first_alt1 [OF g' [unfolded rseq.simps]]])
    apply (rule first_seq [OF first_star [OF d1(1,3)]])
    apply (rule first_seq [OF f])
    apply (rule first_eol)
    done
qed

text \<open>Instances.\<close>

lemma inst_first:
  assumes cell: "is_name cell" and name: "is_name name"
  shows "\<exists>p i j l. first inst_re ([], cell @ '' '' @ name @ '' '' @ ''('' @ G @ '')'', [])
    (p, [], [(3, i, G), (2, j, name), (1, l, cell)])"
proof -
  have n: "cell \<noteq> []" "list_all is_word cell" "name \<noteq> []" "list_all is_word name"
    using cell name by (simp_all add: is_name_def)
  have a: "stops is_space (cell @ x)" "stops is_space (name @ x)" for x
    using n word_hd by (auto intro: stops_word)
  have b: "stops is_word ('' '' @ x)" "list_all is_space '' ''" "'' '' \<noteq> []" for x using space_space by simp_all
  have c: "stops is_space (''('' @ x)" for x
  proof -
    have "\<not> is_space (CHR ''('')" by code_simp
    then show ?thesis by simp
  qed
  have G: "list_all (\<lambda>c. True) G" by (simp add: list_all_iff)
  have no_more: "rm (RSeq (rchr (CHR '')'')) (RSeq rspaces REol)) (q, s1, d) = []"
    if "'')'' = u1 @ s1" "u1 \<noteq> []" for u1 s1 q d
    using that by (cases u1) (simp_all add: rm_seq_Nil)
  show ?thesis
    unfolding inst_re_def rseq.simps
    apply (intro exI)
    apply (rule first_seq [OF first_bol])
    apply (rule first_seq [OF first_star_skip [OF a(1)]])
    apply (rule first_seq [OF first_grp_plus [OF n(1,2) b(1)]])
    apply (rule first_seq [OF first_plus [OF b(3,2) a(2)]])
    apply (rule first_seq [OF first_grp_plus [OF n(3,4) b(1)]])
    apply (rule first_seq [OF first_star [OF b(2) c]])
    apply (unfold append_Cons append_Nil)
    apply (rule first_seq [OF first_cls [OF refl]])
    apply (rule first_grp_greedy [OF G])
     apply (rule first_seq [OF first_cls [OF refl]])
     apply (rule first_seq [OF first_star_skip])
      apply simp
     apply (rule first_eol)
    apply (rule no_more)
     apply simp_all
    done
qed

lemma rm_seq_all_Nil: "(\<And>x. x \<in> set (rm a st) \<Longrightarrow> rm b x = []) \<Longrightarrow> rm (RSeq a b) st = []"
  by (simp add: rm_eqs)

text \<open>Where a word that is not a kind stands, there is no declaration.\<close>

lemma no_decl:
  assumes "is_name w" and "w \<notin> set decl_kinds" and "\<not> is_word (hd s)" and "s \<noteq> []"
  shows "re_match decl_re (w @ s) = None"
proof -
  let ?b = "rseq [RWordB, rspaces,
     ropt (RGrp 2 (rseq [rchr (CHR ''[''), rspaces, RGrp 3 (rplus rdigit), rspaces, rchr (CHR '':''),
       rspaces, RGrp 4 (rplus rdigit), rspaces, rchr (CHR '']'')])), rspaces, RGrp 5 (RStar rany), REol]"
  have w: "w \<noteq> []" "list_all is_word w" using assms(1) by (simp_all add: is_name_def)
  have sp: "takeWhile is_space (w @ s) = []"
    using w is_word_not_space by (cases w) auto
  have kind: "rm ?b x = []" if "x \<in> set (rm (RGrp 1 (ralt decl_kinds)) ([], w @ s, []))" for x
  proof -
    from that obtain k where k: "k \<in> set decl_kinds" "prefix k (w @ s)"
      and x: "fst x = rev k" "rest x = drop (length k) (w @ s)"
      by (auto simp: rm_eqs(7) rm_ralt rm_rlit split: if_splits)
    note kw = kind_word [OF k(1)]
    obtain z where z: "w @ s = k @ z" using k(2) by (auto elim: prefixE)
    have "length k < length w"
    proof (rule ccontr)
      assume "\<not> length k < length w"
      then have "prefix w k" using z by (metis append_eq_append_conv_if not_less prefixI append_take_drop_id)
      then obtain y where y: "k = w @ y" by (auto elim: prefixE)
      with assms(2) k(1) have "y \<noteq> []" by auto
      moreover have "s = y @ z" using z y by simp
      ultimately have "hd s = hd y" "hd y \<in> set k" using y by simp_all
      then show False using kw assms(3) by (metis list_all_iff)
    qed
    then obtain x' y where "w = k @ x' # y"
      using z by (metis append_eq_append_conv_if append_take_drop_id id_take_nth_drop length_append less_imp_le not_less)
    then have "word_at (rest x)" using x(2) w by (simp add: word_at_def)
    moreover have "word_at (fst x)" using kw word_hd [of k "[]" "[]"] x(1) by simp
    ultimately have "rm RWordB x = []" by simp
    then show ?thesis unfolding rseq.simps by (rule rm_seq_Nil)
  qed
  have "rm decl_re ([], w @ s, []) = []"
    unfolding decl_re_def rseq.simps decl_kinds_def [symmetric]
  proof (rule rm_seq_all_Nil, rule rm_seq_all_Nil, rule rm_seq_all_Nil [OF kind [unfolded rseq.simps]])
    fix x y z
    assume "x \<in> set (rm RBol ([], w @ s, []))" "y \<in> set (rm rspaces x)" "z \<in> set (rm (RGrp 1 (ralt decl_kinds)) y)"
    then show "z \<in> set (rm (RGrp 1 (ralt decl_kinds)) ([], w @ s, []))"
      using sp by (simp add: rm_star_cls_list)
  qed
  then show ?thesis by (simp add: re_match_def match_at_def)
qed

section \<open>Connections\<close>

lemma spaces_then_Nil:
  assumes "u \<noteq> []" and "\<not> is_space (last u)" and "x \<notin> set u"
  shows "rm (RSeq rspaces (rchr x)) (p, u @ s, c) = []"
proof (rule rm_seq_all_Nil)
  fix y
  assume "y \<in> set (rm rspaces (p, u @ s, c))"
  then obtain w v where y: "u @ s = w @ v" "list_all is_space w" "y = (rev w @ p, v, c)"
    by (auto simp: rm_star_cls)
  have "length w < length u"
  proof (rule ccontr)
    assume "\<not> length w < length u"
    then have "prefix u w" using y(1) by (metis append_eq_append_conv_if not_less prefixI append_take_drop_id)
    then have "last u \<in> set w" using assms(1) by (auto elim: prefixE)
    with assms(2) y(2) show False by (auto simp: list_all_iff)
  qed
  then have "u = w @ drop (length w) u" and v: "v = drop (length w) u @ s"
    using y(1) by (auto simp: append_eq_append_conv_if) (metis append_take_drop_id)
  with \<open>length w < length u\<close> have "v \<noteq> [] \<and> hd v \<in> set u"
    by (auto simp: hd_append hd_drop_conv_nth)
  then show "rm (rchr x) y = []" using assms(3) y(3) by (cases v) auto
qed

lemma conn_first:
  assumes p: "is_name pin" and e: "expr_ok e"
  shows "\<exists>q i j. first conn_re (p, ''.'' @ pin @ ''('' @ e @ '')'' @ s, []) (q, s, [(2, i, e), (1, j, pin)])"
proof -
  have n: "pin \<noteq> []" "list_all is_word pin" using p by (simp_all add: is_name_def)
  have nsp: "\<not> is_space (CHR ''('')" "\<not> is_space (CHR '')'')" "\<not> is_word (CHR ''('')" by code_simp+
  have st: "stops is_space (CHR ''('' # x)" "stops is_word (CHR ''('' # x)" "stops is_space (CHR '')'' # x)" for x
    using nsp by simp_all
  have e1: "stops is_space (e @ CHR '')'' # x)" for x
    using e nsp by (intro stops_word(3)) (cases e, auto simp: expr_ok_def)
  have chars: "list_all (not_in ''()'') e"
    using e expr_char_not by (auto simp: expr_ok_def not_in_def list_all_iff)
  have shorter: "rm (RSeq rspaces (rchr (CHR '')''))) (q, u2 @ CHR '')'' # s, d) = []"
    if "e = u1 @ u2" "u2 \<noteq> []" for u1 u2 q d
    using that e expr_char_not by (intro spaces_then_Nil) (auto simp: expr_ok_def list_all_iff)
  show ?thesis
    unfolding conn_re_def rseq.simps append_Cons append_Nil
    apply (intro exI)
    apply (rule first_seq [OF first_cls [OF refl]])
    apply (rule first_seq [OF first_grp_plus [OF n st(2)]])
    apply (rule first_seq [OF first_star_skip [OF st(1)]])
    apply (rule first_seq [OF first_cls [OF refl]])
    apply (rule first_seq [OF first_star_skip [OF e1]])
    apply (rule first_grp_lazy [OF chars])
     apply (rule first_seq [OF first_star_skip [OF st(3)]])
     apply (rule first_cls [OF refl])
    apply (rule shorter)
     apply assumption+
    done
qed

lemma conn_skip: "x \<noteq> CHR ''.'' \<Longrightarrow> match_at conn_re p (x # s) = None"
  by (simp add: match_at_def conn_re_def rm_seq_Nil)

lemma find_skip: "match_at r p (x # s) = None \<Longrightarrow> find_from r p (x # s) = find_from r (x # p) s"
  by (subst find_from.simps) simp

lemma find_skips:
  assumes "\<And>q x t. x \<in> set u \<Longrightarrow> match_at r q (x # t) = None"
  shows "find_from r p (u @ s) = find_from r (rev u @ p) s"
  using assms by (induction u arbitrary: p) (simp_all add: find_skip)

lemma find_one:
  assumes "first r (p, u @ s, []) (q, s, c)" and "u \<noteq> []"
  shows "find_from r p (u @ s) = (length p, q, s, c) # find_from r q s"
  using first_match_at [OF assms(1)] assms(2) by (subst find_from.simps) simp

abbreviation conn_text :: "rmatch \<Rightarrow> string \<times> string" where
  "conn_text m \<equiv> (m_text m 1, m_text m 2)"

lemma find_conn:
  assumes "is_name (fst c)" and "expr_ok (snd c)"
  shows "\<exists>q. map conn_text (find_from conn_re p (print_conn c @ s)) = c # map conn_text (find_from conn_re q s)"
proof -
  from conn_first [OF assms, of p s] obtain q i j where
    f: "first conn_re (p, print_conn c @ s, []) (q, s, [(2, i, snd c), (1, j, fst c)])"
    by (auto simp: print_conn_def)
  show ?thesis
    using find_one [OF f] by (intro exI [of _ q]) (simp add: print_conn_def m_text_def m_group_def)
qed

lemma find_no_dot:
  assumes "CHR ''.'' \<notin> set s"
  shows "find_from conn_re p s = []"
proof -
  have "find_from conn_re q [] = []" for q
    by (subst find_from.simps) (simp add: match_at_def conn_re_def rm_seq_Nil)
  moreover have "find_from conn_re p (s @ []) = find_from conn_re (rev s @ p) []"
    using assms by (intro find_skips conn_skip) auto
  ultimately show ?thesis by simp
qed

lemma find_conns:
  "list_all (\<lambda>(p, e). is_name p \<and> expr_ok e) cs \<Longrightarrow> CHR ''.'' \<notin> set s \<Longrightarrow>
    map conn_text (find_from conn_re p (join_sep '', '' (map print_conn cs) @ s)) = cs"
proof (induction "'', ''" "map print_conn cs" arbitrary: cs p rule: join_sep.induct)
  case 1
  then show ?case by (simp add: find_no_dot)
next
  case (2 x)
  then obtain c where cs: "cs = [c]" and x: "x = print_conn c" by auto
  have "is_name (fst c)" "expr_ok (snd c)" using "2.prems"(1) unfolding cs by (simp_all add: case_prod_beta)
  from find_conn [OF this, of p s] obtain q where
    "map conn_text (find_from conn_re p (print_conn c @ s)) = c # map conn_text (find_from conn_re q s)" ..
  then show ?case using "2.prems"(2) by (simp add: cs find_no_dot)
next
  case (3 x y xs)
  then obtain c cs' where cs: "cs = c # cs'" and x: "x = print_conn c" and rest: "y # xs = map print_conn cs'"
    by (cases cs) auto
  have ih: "map conn_text (find_from conn_re q (join_sep '', '' (y # xs) @ s)) = cs'" for q
    using "3.hyps"(1) [OF rest] "3.prems" cs rest by simp
  have "map conn_text (find_from conn_re p (print_conn c @ '', '' @ join_sep '', '' (y # xs) @ s)) = c # cs'"
  proof -
    have "is_name (fst c)" "expr_ok (snd c)" using "3.prems"(1) unfolding cs by (simp_all add: case_prod_beta)
    from find_conn [OF this, of p "'', '' @ join_sep '', '' (y # xs) @ s"] obtain q where
      q: "map conn_text (find_from conn_re p (print_conn c @ '', '' @ join_sep '', '' (y # xs) @ s)) =
        c # map conn_text (find_from conn_re q ('', '' @ join_sep '', '' (y # xs) @ s))" ..
    have "find_from conn_re q ('', '' @ join_sep '', '' (y # xs) @ s) =
        find_from conn_re (rev '', '' @ q) (join_sep '', '' (y # xs) @ s)"
      by (intro find_skips conn_skip) auto
    with q ih show ?thesis by simp
  qed
  then show ?case unfolding cs list.map rest [symmetric] x by simp
qed

lemma foldl_dict_set:
  "distinct (map fst (d @ cs)) \<Longrightarrow> foldl (\<lambda>d c. dict_set (fst c) (snd c) d) d cs = d @ cs"
proof (induction cs arbitrary: d)
  case (Cons c cs)
  have "fst c \<notin> fst ` set d" using Cons.prems by auto
  then have "dict_set (fst c) (snd c) d = d @ [c]" by (induction d) auto
  then show ?case using Cons by simp
qed simp

lemma parse_conns_printed:
  assumes "list_all (\<lambda>(p, e). is_name p \<and> expr_ok e) cs" and "distinct (map fst cs)"
  shows "parse_conns ('' '' @ join_sep '', '' (map print_conn cs) @ '' '') = cs"
proof -
  let ?t = "join_sep '', '' (map print_conn cs) @ '' ''"
  have "find_from conn_re [] ('' '' @ ?t) = find_from conn_re (rev '' '' @ []) ?t"
    by (intro find_skips conn_skip) auto
  then have t: "map conn_text (re_finditer conn_re ('' '' @ ?t)) = cs"
    using find_conns [OF assms(1), of "'' ''" "'' ''"] by (simp add: re_finditer_def)
  have "parse_conns ('' '' @ ?t) = foldl (\<lambda>d c. dict_set (fst c) (snd c) d) [] (map conn_text (re_finditer conn_re ('' '' @ ?t)))"
    by (simp add: parse_conns_def foldl_map)
  also have "\<dots> = cs" unfolding t using foldl_dict_set [of "[]" cs] assms(2) by simp
  finally show ?thesis by simp
qed

end
