(* ===== verification/Vnet_Read.thy ===== *)
theory Vnet_Read
  imports Vnet_Print
begin

text \<open>
  Reading what is printed: \<open>parse\<close> of \<open>fpga/tools/vnet.py\<close>, on the text of a well-formed design
  (\<open>Vnet_Print\<close>), returns exactly the modules the text says, whatever white space it has.
\<close>

section \<open>Statements\<close>

lemma core_ends:
  assumes "stmt_ok s"
  shows "stmt_core s \<noteq> []" "\<not> is_space (hd (stmt_core s))" "\<not> is_space (last (stmt_core s))"
proof -
  have par: "\<not> is_space (CHR '')'')" by code_simp
  have a: "\<not> is_space (CHR ''a'')" by code_simp
  have names: "join_sep '', '' ns \<noteq> [] \<and> is_word (last (join_sep '', '' ns)) \<and> is_word (hd (join_sep '', '' ns))"
    if "ns \<noteq> []" "list_all is_name ns" for ns
    using that
  proof (induction "'', ''" ns rule: join_sep.induct)
    case (2 x)
    then show ?case using is_nameD [of x] by simp
  next
    case (3 x y ys)
    then show ?case using is_nameD [of x] by (auto simp: hd_append)
  qed simp
  have "stmt_core s \<noteq> [] \<and> \<not> is_space (hd (stmt_core s)) \<and> \<not> is_space (last (stmt_core s))"
  proof (cases s)
    case (SDecl k r ns)
    then have k: "k \<in> set decl_kinds" and "ns \<noteq> []" "list_all is_name ns" using assms by simp_all
    from names [OF this(2,3)] kind_word [OF k] SDecl show ?thesis
      by (auto simp: is_word_not_space hd_append list_all_iff)
  next
    case (SAssign l r)
    then show ?thesis using assms a by (simp add: rhs_ok_def)
  next
    case (SInst cell name conns)
    then show ?thesis using assms par is_nameD [of cell] by (auto simp: is_word_not_space hd_append)
  qed
  then show "stmt_core s \<noteq> []" "\<not> is_space (hd (stmt_core s))" "\<not> is_space (last (stmt_core s))" by simp_all
qed

lemma strip_laid: "laid_ok x \<Longrightarrow> py_strip (laid_text x) = stmt_core (snd x)"
  using py_strip_pad [of "fst x" "[]" "stmt_core (snd x)"] core_ends [of "snd x"]
  by (simp add: laid_text_def laid_ok_def)

lemma join_names:
  assumes "ns \<noteq> []" and "list_all is_name ns"
  shows "join_sep '', '' ns \<noteq> []" "is_word (hd (join_sep '', '' ns))"
  using assms
  by (induction "'', ''" ns rule: join_sep.induct) (auto dest!: is_nameD simp: hd_append)

lemma decl_read:
  assumes ok: "stmt_ok (SDecl k r ns)"
  shows "\<exists>d. re_match decl_re (stmt_core (SDecl k r ns)) = Some d \<and> parse_decl d md = Inr (foldl (say_name k r) md ns)"
proof -
  let ?J = "join_sep '', '' ns"
  have k: "k \<in> set decl_kinds" and ns: "ns \<noteq> []" "list_all is_name ns" using ok by simp_all
  note J = join_names [OF ns]
  have names: "comma_names ?J = ns" using comma_names_join [OF ns(2), of "[]" "[]"] by simp
  have fold: "efold (declare_name d) md xs = Inr (foldl (say_name k r) md xs)"
    if "\<And>md n. declare_name d md n = Inr (say_name k r md n)" for d and xs md
    using that by (induction xs arbitrary: md) simp_all
  show ?thesis
  proof (cases r)
    case None
    obtain p i j where f: "first decl_re ([], k @ '' '' @ ?J, []) (p, [], [(5, i, ?J), (1, j, k)])"
      using decl_first_plain [OF k J] by blast
    let ?d = "(0, p, [], [(5, i, ?J), (1, j, k)])"
    have g: "m_group ?d 2 = None" "m_text ?d 1 = k" "m_text ?d 5 = ?J"
      by (simp_all add: m_group_def m_text_def)
    have "declare_name ?d md n = Inr (say_name k r md n)" for md n
      unfolding declare_name_def g by (simp add: say_name_def None Let_def)
    from fold [OF this] have "parse_decl ?d md = Inr (foldl (say_name k r) md ns)"
      unfolding parse_decl_def g names by simp
    moreover have "re_match decl_re (stmt_core (SDecl k r ns)) = Some ?d"
      using first_match [OF f] by (simp add: None print_range_def)
    ultimately show ?thesis by blast
  next
    case (Some ab)
    obtain a b where ab: "ab = (a, b)" by force
    obtain p i j l m n u where f: "first decl_re ([], k @ '' '' @ ''['' @ show_nat a @ '':'' @ show_nat b @ '']'' @ '' '' @ ?J, [])
       (p, [], [(5, i, ?J), (2, j, u), (4, l, show_nat b), (3, m, show_nat a), (1, n, k)])"
      using decl_first_range [OF k J, of "show_nat a" "show_nat b"] show_nat_digits by blast
    let ?d = "(0, p, [], [(5, i, ?J), (2, j, u), (4, l, show_nat b), (3, m, show_nat a), (1, n, k)])"
    have g: "m_group ?d 2 = Some u" "m_text ?d 1 = k" "m_text ?d 3 = show_nat a" "m_text ?d 4 = show_nat b" "m_text ?d 5 = ?J"
      by (simp_all add: m_group_def m_text_def)
    have "declare_name ?d md n = Inr (say_name k r md n)" for md n
      unfolding declare_name_def g by (simp add: say_name_def Some ab Let_def)
    from fold [OF this] have "parse_decl ?d md = Inr (foldl (say_name k r) md ns)"
      unfolding parse_decl_def g names by simp
    moreover have "re_match decl_re (stmt_core (SDecl k r ns)) = Some ?d"
      using first_match [OF f] by (simp add: Some ab print_range_def)
    ultimately show ?thesis by blast
  qed
qed

lemma assign_read:
  assumes ok: "stmt_ok (SAssign l r)"
  shows "re_match decl_re (stmt_core (SAssign l r)) = None"
    and "parse_assign (stmt_core (SAssign l r)) md = Inr (md\<lparr>md_assigns := md_assigns md @ [(l, r)]\<rparr>)"
proof -
  have n: "is_name ''assign''" "''assign'' \<notin> set decl_kinds" "\<not> is_word (CHR '' '')" "\<not> is_word (CHR ''='')" by code_simp+
  have "re_match decl_re (''assign'' @ '' '' @ l @ '' = '' @ r) = None"
    using n by (intro no_decl) simp_all
  then show "re_match decl_re (stmt_core (SAssign l r)) = None" by simp
  have l: "expr_ok l" "l \<noteq> []" and r: "rhs_ok r" using ok by simp_all
  have "CHR ''='' \<notin> set l"
    using l expr_char_not by (auto simp: expr_ok_def list_all_iff)
  then have no_eq: "list_all (\<lambda>c. c \<noteq> CHR ''='') ('' '' @ l @ '' '')" by (auto simp: list_all_iff)
  have "'' '' @ l @ '' = '' @ r = ('' '' @ l @ '' '') @ CHR ''='' # CHR '' '' # r" by simp
  with takeWhile_stops [OF no_eq, of "CHR ''='' # CHR '' '' # r"]
  have tw: "takeWhile (\<lambda>c. c \<noteq> CHR ''='') ('' '' @ l @ '' = '' @ r) = '' '' @ l @ '' ''" by simp
  have sl: "py_strip ('' '' @ l @ '' '') = l"
    using l space_space by (intro py_strip_pad) (simp_all add: expr_ok_def)
  have sr: "py_strip ('' '' @ r) = r"
    using py_strip_pad [of "'' ''" "[]" r] r space_space by (simp add: rhs_ok_def)
  have d: "drop 6 (stmt_core (SAssign l r)) = '' '' @ l @ '' = '' @ r" by simp
  show "parse_assign (stmt_core (SAssign l r)) md = Inr (md\<lparr>md_assigns := md_assigns md @ [(l, r)]\<rparr>)"
    unfolding parse_assign_def d Let_def tw using sl sr by simp
qed

lemma inst_read:
  assumes ok: "stmt_ok (SInst cell name conns)"
  shows "re_match decl_re (stmt_core (SInst cell name conns)) = None"
    and "\<not> prefix ''assign'' (stmt_core (SInst cell name conns))"
    and "parse_inst nm (stmt_core (SInst cell name conns)) s0 s1 md =
      Inr (md\<lparr>md_insts := md_insts md @ [\<lparr>i_cell = cell, i_name = name, i_conns = conns, i_start = s0, i_end = s1\<rparr>]\<rparr>)"
proof -
  have n: "is_name cell" "is_name name" "cell \<notin> set decl_kinds" "\<not> prefix ''assign'' cell"
    and cs: "distinct (map fst conns)" "list_all (\<lambda>(p, e). is_name p \<and> expr_ok e) conns" using ok by simp_all
  let ?G = "'' '' @ join_sep '', '' (map print_conn conns) @ '' ''"
  have core: "stmt_core (SInst cell name conns) = cell @ '' '' @ name @ '' '' @ ''('' @ ?G @ '')''" by simp
  show "re_match decl_re (stmt_core (SInst cell name conns)) = None"
    unfolding core using n space_space by (intro no_decl) simp_all
  show "\<not> prefix ''assign'' (stmt_core (SInst cell name conns))"
  proof
    assume "prefix ''assign'' (stmt_core (SInst cell name conns))"
    then have "prefix ''assign'' (cell @ CHR '' '' # name @ '' '' @ ''('' @ ?G @ '')'')" by simp
    then obtain z where "cell @ CHR '' '' # name @ '' '' @ ''('' @ ?G @ '')'' = ''assign'' @ z" by (elim prefixE)
    then consider us where "cell = ''assign'' @ us" | us where "''assign'' = cell @ us" "us \<noteq> []"
        "us @ z = CHR '' '' # name @ '' '' @ ''('' @ ?G @ '')''"
      unfolding append_eq_append_conv2 by (metis append_Nil2)
    then show False
    proof cases
      case (2 us)
      then have "CHR '' '' \<in> set us" by (cases us) auto
      then have "CHR '' '' \<in> set ''assign''" unfolding 2(1) by simp
      then show False by simp
    qed (use n(4) in simp)
  qed
  obtain p i j l where f: "first inst_re ([], cell @ '' '' @ name @ '' '' @ ''('' @ ?G @ '')'', [])
      (p, [], [(3, i, ?G), (2, j, name), (1, l, cell)])"
    using inst_first [OF n(1,2)] by blast
  show "parse_inst nm (stmt_core (SInst cell name conns)) s0 s1 md =
      Inr (md\<lparr>md_insts := md_insts md @ [\<lparr>i_cell = cell, i_name = name, i_conns = conns, i_start = s0, i_end = s1\<rparr>]\<rparr>)"
    unfolding parse_inst_def core first_match [OF f] using parse_conns_printed [OF cs(2,1)]
    by (simp add: m_text_def m_group_def)
qed

lemma stmt_read:
  assumes "laid_ok x"
  shows "parse_stmt nm (pos, md) (laid_text x) = Inr (pos + length (laid_text x) + 1, say_stmt pos x md)"
proof -
  obtain u s where x: "x = (u, s)" by force
  have ok: "stmt_ok s" and st: "py_strip (laid_text x) = stmt_core s"
    using assms strip_laid [OF assms] by (simp_all add: x laid_ok_def)
  note ne = core_ends(1) [OF ok]
  show ?thesis
  proof (cases s)
    case (SDecl k r ns)
    from decl_read [OF ok [unfolded SDecl], of md] obtain d where
      "re_match decl_re (stmt_core s) = Some d" "parse_decl d md = Inr (foldl (say_name k r) md ns)"
      unfolding SDecl by blast
    with ne show ?thesis unfolding parse_stmt_def Let_def prod.case st by (simp add: x SDecl del: stmt_core.simps)
  next
    case (SAssign l r)
    have "prefix ''assign'' (stmt_core s)" by (simp add: SAssign)
    note r = assign_read [OF ok [unfolded SAssign], folded SAssign]
    from ne r(1) r(2) [of md] \<open>prefix ''assign'' (stmt_core s)\<close> show ?thesis
      unfolding parse_stmt_def Let_def prod.case st by (simp add: x SAssign del: stmt_core.simps)
  next
    case (SInst cell name conns)
    note r = inst_read [OF ok [unfolded SInst], folded SInst]
    from ne r(1,2) r(3) [of nm pos "pos + length (laid_text x)" md] show ?thesis
      unfolding parse_stmt_def Let_def prod.case st by (simp add: x SInst del: stmt_core.simps)
  qed
qed

section \<open>Bodies\<close>

text \<open>The statements of a body have no semicolons, nor slashes, inside.\<close>

lemma core_chars:
  assumes "stmt_ok s" and "c \<in> set (stmt_core s)"
  shows "c \<noteq> CHR '';'' \<and> c \<noteq> CHR ''/''"
proof -
  have word: "c \<noteq> CHR '';'' \<and> c \<noteq> CHR ''/''" if "list_all is_word n" "c \<in> set n" for n
    using that word_char_not by (auto simp: list_all_iff)
  have name: "c \<noteq> CHR '';'' \<and> c \<noteq> CHR ''/''" if "is_name n" "c \<in> set n" for n
    using that word [of n] by (simp add: is_name_def)
  have expr: "c \<noteq> CHR '';'' \<and> c \<noteq> CHR ''/''" if "expr_ok e" "c \<in> set e" for e
    using that expr_char_not [of c] by (auto simp: expr_ok_def list_all_iff)
  have seps: "c \<noteq> CHR '';'' \<and> c \<noteq> CHR ''/''" if "c \<in> set '', .()=[:]assign''"
    using that by auto
  have digits: "c \<noteq> CHR '';'' \<and> c \<noteq> CHR ''/''" if "c \<in> set (show_nat n)" for n
    using that show_nat_digits [of n] word [of "show_nat n"] is_digit_word by (auto simp: list_all_iff)
  show ?thesis
  proof (cases s)
    case (SDecl k r ns)
    then have k: "k \<in> set decl_kinds" and ns: "list_all is_name ns" using assms(1) by simp_all
    from assms(2) have "c \<in> set k \<or> c \<in> set (print_range r) \<or> c \<in> set '' '' \<or> c \<in> set (join_sep '', '' ns)"
      unfolding SDecl by auto
    then consider "c \<in> set k" | "c \<in> set (print_range r)" | "c \<in> set '' ''" | "c \<in> set (join_sep '', '' ns)" by blast
    then show ?thesis
    proof cases
      case 1
      then show ?thesis using word [of k] kind_word [OF k] by blast
    next
      case 2
      then consider a where "c \<in> set (show_nat a)" | "c \<in> set ''[:] ''"
        by (auto simp: print_range_def split: option.splits)
      then show ?thesis using digits seps by cases auto
    next
      case 4
      then consider "c \<in> set '', ''" | n where "n \<in> set ns" "c \<in> set n" using set_join_sep [of "'', ''" ns] by auto
      then show ?thesis
      proof cases
        case (2 n)
        then show ?thesis using name [of n] ns by (simp add: list_all_iff)
      qed auto
    qed simp
  next
    case (SAssign l r)
    then consider "c \<in> set ''assign ''" | "c \<in> set l" | "c \<in> set '' = ''" | "c \<in> set r"
      using assms(2) by (auto simp: SAssign)
    then show ?thesis
    proof cases
      case 4
      then show ?thesis using assms(1) by (auto simp: SAssign rhs_ok_def)
    next
      case 2
      then show ?thesis using assms(1) expr [of l] by (simp add: SAssign)
    qed auto
  next
    case (SInst cell name' conns)
    have "set (join_sep '', '' (map print_conn conns)) \<subseteq> set '', '' \<union> \<Union> (set ` set (map print_conn conns))"
      by (rule set_join_sep)
    with assms(2) consider "c \<in> set cell" | "c \<in> set name'" | "c \<in> set '' ( , )''"
      | p e where "(p, e) \<in> set conns" "c \<in> set (print_conn (p, e))"
      unfolding SInst by auto
    then show ?thesis
    proof cases
      case (4 p e)
      then have "is_name p" "expr_ok e" using assms(1) by (auto simp: SInst list_all_iff)
      moreover from 4(2) consider "c \<in> set ''.()''" | "c \<in> set p" | "c \<in> set e" by (auto simp: print_conn_def)
      ultimately show ?thesis using name [of p] expr [of e] by cases auto
    next
      case 1
      then show ?thesis using assms(1) name [of cell] by (simp add: SInst)
    next
      case 2
      then show ?thesis using assms(1) name [of name'] by (simp add: SInst)
    qed auto
  qed
qed

lemma space_chars: "list_all is_space u \<Longrightarrow> c \<in> set u \<Longrightarrow> c \<noteq> CHR '';'' \<and> c \<noteq> CHR ''/''"
proof -
  have "\<not> is_space (CHR '';'')" "\<not> is_space (CHR ''/'')" by code_simp+
  then show "list_all is_space u \<Longrightarrow> c \<in> set u \<Longrightarrow> ?thesis" by (auto simp: list_all_iff)
qed

lemma laid_chars: "laid_ok x \<Longrightarrow> c \<in> set (laid_text x) \<Longrightarrow> c \<noteq> CHR '';'' \<and> c \<noteq> CHR ''/''"
  using core_chars [of "snd x" c] space_chars [of "fst x" c] by (auto simp: laid_ok_def laid_text_def)

lemma body_split:
  assumes "list_all laid_ok ss" and "list_all is_space w"
  shows "split_on (CHR '';'') (body_text ss w) = map laid_text ss @ [w]"
  using assms(1)
proof (induction ss)
  case Nil
  have "CHR '';'' \<notin> set w" using space_chars [OF assms(2)] by blast
  then show ?case by (simp add: body_text_def split_on_none)
next
  case (Cons x ss)
  then have "CHR '';'' \<notin> set (laid_text x)" using laid_chars [of x "CHR '';''"] by auto
  with Cons show ?case using split_on_append [of "CHR '';''" "laid_text x"] by (simp add: body_text_def)
qed

lemma strip_space: "list_all is_space w \<Longrightarrow> py_strip w = []"
  using py_strip_front [of w "[]"] by (simp add: py_strip_def)

lemma stmts_read:
  assumes "list_all laid_ok ss" and "list_all is_space w"
  shows "\<exists>pos'. efold (parse_stmt nm) (pos, md) (map laid_text ss @ [w]) = Inr (pos', say_stmts pos ss md)"
  using assms(1)
proof (induction ss arbitrary: pos md)
  case Nil
  show ?case using strip_space [OF assms(2)] by (simp add: parse_stmt_def Let_def)
next
  case (Cons x ss)
  then have x: "parse_stmt nm (pos, md) (laid_text x) = Inr (pos + length (laid_text x) + 1, say_stmt pos x md)"
    by (intro stmt_read) simp
  from Cons show ?case by (simp add: x)
qed

section \<open>Modules\<close>

text \<open>A suffix of a body does not begin with the word \<open>endmodule\<close>, even with that word after it.\<close>

lemma no_end_before:
  assumes "\<not> sublist ''endmodule'' b" and "b = u1 @ u2" and "u2 \<noteq> []" and "\<not> is_word (last b)"
  shows "\<not> prefix ''endmodule'' (u2 @ s)"
proof
  assume "prefix ''endmodule'' (u2 @ s)"
  then consider "prefix ''endmodule'' u2" | us where "''endmodule'' = u2 @ us"
    by (auto simp: prefix_append)
  then show False
  proof cases
    case 1
    then obtain z where z: "u2 = ''endmodule'' @ z" by (elim prefixE)
    have "sublist ''endmodule'' b" unfolding assms(2) z by (rule sublist_appendI)
    with assms(1) show False by simp
  next
    case (2 us)
    have "list_all is_word ''endmodule''" by code_simp
    then have "list_all is_word u2" unfolding 2 by simp
    moreover have "last u2 \<in> set u2" using assms(3) by simp
    ultimately show False using assms(2,3,4) by (auto simp: list_all_iff)
  qed
qed

lemma body_last:
  assumes "list_all is_space w" and "body_text ss w \<noteq> []"
  shows "\<not> is_word (last (body_text ss w))"
proof -
  have s: "\<not> is_word (CHR '';'')" by code_simp
  have w: "\<not> is_word (last w)" if "w \<noteq> []"
    using assms(1) last_in_set [OF that] is_word_not_space by (auto simp: list_all_iff)
  show ?thesis
  proof (cases "w = []")
    case True
    then obtain xs x where "ss = xs @ [x]" using assms(2) by (cases ss rule: rev_cases) (auto simp: body_text_def)
    with True s show ?thesis by (simp add: body_text_def)
  qed (use w in \<open>simp add: body_text_def\<close>)
qed

lemma ports_no_paren:
  assumes "list_all is_name ports" and "c \<in> set ('' '' @ join_sep '', '' ports @ '' '')"
  shows "c \<noteq> CHR '')''"
proof -
  from assms(2) consider "c \<in> set '' ,''" | n where "n \<in> set ports" "c \<in> set n"
    using set_join_sep [of "'', ''" ports] by auto
  then show ?thesis
  proof cases
    case (2 n)
    then have "is_word c" using assms(1) by (auto simp: list_all_iff is_name_def)
    with word_char_not show ?thesis by blast
  qed auto
qed

lemma first_space: "is_space x \<Longrightarrow> stops is_space s \<Longrightarrow> first rspaces (p, x # s, c) (x # p, s, c)"
  using first_star [of is_space "[x]" s p c] by simp

lemma first_spaces: "is_space x \<Longrightarrow> stops is_space s \<Longrightarrow> first (rplus (RCls is_space)) (p, x # s, c) (x # p, s, c)"
  using first_plus [of "[x]" is_space s p c] by simp

text \<open>The pattern of a module for any two words, which keeps the words whole in the proof.\<close>

lemma module_pattern:
  assumes start: "word_at p \<noteq> word_at (w1 @ CHR '' '' # name @ CHR '' '' # CHR ''('' # P @ CHR '')'' # CHR '';'' # B @ w2 @ r)"
    and n: "name \<noteq> []" "list_all is_word name" and P: "CHR '')'' \<notin> set P"
    and bnd: "\<And>x. word_at (rev B @ CHR '';'' # x) \<noteq> word_at (w2 @ r)" "\<And>x. word_at (rev w2 @ x) \<noteq> word_at r"
    and no: "\<And>u1 u2. B = u1 @ u2 \<Longrightarrow> u2 \<noteq> [] \<Longrightarrow> \<not> prefix w2 (u2 @ w2 @ r)"
  shows "\<exists>q i j k. first (rseq [RWordB, rlit w1, rplus (RCls is_space), RGrp 1 (rplus rword), rspaces,
     rchr (CHR ''(''), RGrp 2 (RLazy rany), rchr (CHR '')''), rspaces, rchr (CHR '';''),
     RGrp 3 (RLazy rany), RWordB, rlit w2, RWordB])
     (p, w1 @ CHR '' '' # name @ CHR '' '' # CHR ''('' # P @ CHR '')'' # CHR '';'' # B @ w2 @ r, [])
    (q, r, [(3, k, B), (2, i, P), (1, j, name)]) \<and>
    q = rev (w1 @ CHR '' '' # name @ CHR '' '' # CHR ''('' # P @ CHR '')'' # CHR '';'' # B @ w2) @ p \<and>
    k = length p + length w1 + length name + length P + 5"
proof -
  let ?q = "CHR '';'' # CHR '')'' # rev P @ CHR ''('' # CHR '' '' # rev name @ CHR '' '' # rev w1 @ p"
  have nsp: "is_space (CHR '' '')" "\<not> is_space (CHR ''('')" "\<not> is_space (CHR '';'')" "\<not> is_word (CHR '' '')" by code_simp+
  have c: "stops is_space (name @ x)" "stops is_word (CHR '' '' # x)" "stops is_space (CHR ''('' # x)"
    "stops is_space (CHR '';'' # x)" for x
    using n word_hd nsp by (auto intro: stops_word)
  have all: "list_all (\<lambda>c. True) x" for x :: string by (simp add: list_all_iff)
  have d: "rm (RSeq (rchr (CHR '')'')) R) (q, u2 @ x, e) = []" if "P = u1 @ u2" "u2 \<noteq> []" for u1 u2 x q e R
    using that P by (cases u2) (auto intro!: rm_seq_Nil)
  have f: "rm (RSeq RWordB (RSeq (rlit w2) RWordB)) (q, u2 @ w2 @ r, e) = []"
    if "B = u1 @ u2" "u2 \<noteq> []" for u1 u2 q e
  proof (rule rm_seq_all_Nil)
    fix x
    assume "x \<in> set (rm RWordB (q, u2 @ w2 @ r, e))"
    then have "x = (q, u2 @ w2 @ r, e)" by (auto simp: rm_eqs(8) split: if_splits)
    then show "rm (RSeq (rlit w2) RWordB) x = []" using no [OF that] by (intro rm_seq_Nil) (simp add: rm_rlit)
  qed
  have "\<exists>i j. first (rseq [RWordB, rlit w1, rplus (RCls is_space), RGrp 1 (rplus rword), rspaces,
     rchr (CHR ''(''), RGrp 2 (RLazy rany), rchr (CHR '')''), rspaces, rchr (CHR '';''),
     RGrp 3 (RLazy rany), RWordB, rlit w2, RWordB])
     (p, w1 @ CHR '' '' # name @ CHR '' '' # CHR ''('' # P @ CHR '')'' # CHR '';'' # B @ w2 @ r, [])
    (rev w2 @ rev B @ ?q, r, [(3, length ?q, B), (2, i, P), (1, j, name)])"
    unfolding rseq.simps
    apply (intro exI)
    apply (rule first_seq [OF first_wordb [OF start]])
    apply (rule first_seq [OF first_lit])
    apply (rule first_seq [OF first_spaces [OF nsp(1) c(1)]])
    apply (rule first_seq [OF first_grp_plus [OF n c(2)]])
    apply (rule first_seq [OF first_space [OF nsp(1) c(3)]])
    apply (rule first_seq [OF first_cls [OF refl]])
    apply (rule first_grp_lazy [OF all])
     apply (rule first_seq [OF first_cls [OF refl]])
     apply (rule first_seq [OF first_star_skip [OF c(4)]])
     apply (rule first_seq [OF first_cls [OF refl]])
     apply (rule first_grp_lazy [OF all])
      apply (rule first_seq [OF first_wordb [OF bnd(1)]])
      apply (rule first_seq [OF first_lit])
      apply (rule first_wordb [OF bnd(2)])
     apply (rule f, assumption+)
    apply (rule d, assumption+)
    done
  then obtain i j where "first (rseq [RWordB, rlit w1, rplus (RCls is_space), RGrp 1 (rplus rword), rspaces,
     rchr (CHR ''(''), RGrp 2 (RLazy rany), rchr (CHR '')''), rspaces, rchr (CHR '';''),
     RGrp 3 (RLazy rany), RWordB, rlit w2, RWordB])
     (p, w1 @ CHR '' '' # name @ CHR '' '' # CHR ''('' # P @ CHR '')'' # CHR '';'' # B @ w2 @ r, [])
    (rev w2 @ rev B @ ?q, r, [(3, length ?q, B), (2, i, P), (1, j, name)])" by blast
  then show ?thesis by (intro exI conjI) (assumption, simp_all)
qed

lemma module_first:
  assumes ok: "module_ok (name, ports, ss, w)" and p: "\<not> word_at p" and r: "\<not> word_at r"
  shows "\<exists>i j. first module_re (p, module_header name ports @ body_text ss w @ ''endmodule'' @ r, [])
    (rev (module_header name ports @ body_text ss w @ ''endmodule'') @ p, r,
     [(3, length p + length (module_header name ports), body_text ss w), (2, i, '' '' @ join_sep '', '' ports @ '' ''), (1, j, name)])"
proof -
  let ?P = "'' '' @ join_sep '', '' ports @ '' ''"
  let ?B = "body_text ss w"
  have n: "name \<noteq> []" "list_all is_word name" and ports: "list_all is_name ports"
    and w: "list_all is_space w" and no: "\<not> sublist ''endmodule'' ?B"
    using ok by (simp_all add: module_ok_def is_name_def)
  have words: "word_at (''module'' @ x)" "word_at (''endmodule'' @ x)" for x
    unfolding word_at_def by (simp, code_simp)+
  have semi: "\<not> is_word (CHR '';'')" by code_simp
  have e1: "\<not> word_at (rev ?B @ CHR '';'' # x)" for x
  proof (cases "?B = []")
    case False
    with body_last [OF w this] show ?thesis by (cases ?B rule: rev_cases) (simp_all add: word_at_def)
  qed (simp add: word_at_def semi)
  have e2: "word_at (rev ''endmodule'' @ x)" for x by (simp add: word_at_def) code_simp
  have f: "\<not> prefix ''endmodule'' (u2 @ ''endmodule'' @ r)" if "?B = u1 @ u2" "u2 \<noteq> []" for u1 u2
  proof -
    have "?B \<noteq> []" using that by auto
    from no_end_before [OF no that body_last [OF w this]] show ?thesis by simp
  qed
  have pp: "CHR '')'' \<notin> set ?P" using ports_no_paren [OF ports, of "CHR '')''"] by blast
  define w1 where "w1 = ''module''"
  define w2 where "w2 = ''endmodule''"
  let ?T = "w1 @ CHR '' '' # name @ CHR '' '' # CHR ''('' # ?P @ CHR '')'' # CHR '';'' # ?B @ w2"
  have t: "module_header name ports @ ?B @ ''endmodule'' = ?T" by (simp add: module_header_def w1_def w2_def)
  have k': "length p + length w1 + length name + length ?P + 5 = length p + length (module_header name ports)"
    by (simp add: module_header_def w1_def)
  define P where "P = ?P"
  have start: "word_at p \<noteq> word_at (w1 @ CHR '' '' # name @ CHR '' '' # CHR ''('' # P @ CHR '')'' # CHR '';'' # ?B @ w2 @ r)"
    using p words(1) by (simp only: w1_def) simp
  have bnd: "word_at (rev ?B @ CHR '';'' # x) \<noteq> word_at (w2 @ r)" "word_at (rev w2 @ x) \<noteq> word_at r" for x
    using e1 e2 words(2) r unfolding w2_def by blast+
  have mre: "module_re = rseq [RWordB, rlit w1, rplus (RCls is_space), RGrp 1 (rplus rword), rspaces,
     rchr (CHR ''(''), RGrp 2 (RLazy rany), rchr (CHR '')''), rspaces, rchr (CHR '';''),
     RGrp 3 (RLazy rany), RWordB, rlit w2, RWordB]"
    by (simp only: module_re_def w1_def w2_def)
  have "\<exists>q i j k. first module_re
     (p, w1 @ CHR '' '' # name @ CHR '' '' # CHR ''('' # P @ CHR '')'' # CHR '';'' # ?B @ w2 @ r, [])
    (q, r, [(3, k, ?B), (2, i, P), (1, j, name)]) \<and>
    q = rev (w1 @ CHR '' '' # name @ CHR '' '' # CHR ''('' # P @ CHR '')'' # CHR '';'' # ?B @ w2) @ p \<and>
    k = length p + length w1 + length name + length P + 5"
    unfolding mre using start n pp [folded P_def] bnd f [folded w2_def] by (rule module_pattern)
  then obtain q i j k where F: "first module_re (p, w1 @ CHR '' '' # name @ CHR '' '' # CHR ''('' # P @ CHR '')'' #
       CHR '';'' # ?B @ w2 @ r, []) (q, r, [(3, k, ?B), (2, i, P), (1, j, name)])"
    and q: "q = rev (w1 @ CHR '' '' # name @ CHR '' '' # CHR ''('' # P @ CHR '')'' # CHR '';'' # ?B @ w2) @ p"
    and k: "k = length p + length w1 + length name + length P + 5"
    by (elim exE conjE) (rule that)
  have "module_header name ports @ ?B @ ''endmodule'' @ r = ?T @ r" unfolding t [symmetric] by (simp only: append_assoc)
  then have "module_header name ports @ ?B @ ''endmodule'' @ r =
      w1 @ CHR '' '' # name @ CHR '' '' # CHR ''('' # P @ CHR '')'' # CHR '';'' # ?B @ w2 @ r"
    unfolding P_def by (simp only: append_assoc append_Cons)
  with F show ?thesis unfolding t [folded P_def] q k k' [folded P_def] P_def [symmetric] by (intro exI) (simp only:)
qed

section \<open>Files\<close>

lemma module_read:
  assumes ok: "module_ok (name, ports, ss, w)"
    and m: "m = (n, q, r, [(3, off + length (module_header name ports), body_text ss w),
      (2, i, '' '' @ join_sep '', '' ports @ '' ''), (1, j, name)])"
  shows "m_text m 1 = name" and "parse_module m = Inr (say_module off (name, ports, ss, w))"
proof -
  have t: "m_text m 1 = name" "m_text m 2 = '' '' @ join_sep '', '' ports @ '' ''" "m_text m 3 = body_text ss w"
    "m_start m 3 = off + length (module_header name ports)"
    by (simp_all add: m m_text_def m_group_def m_start_def)
  show "m_text m 1 = name" by (rule t(1))
  have parts: "list_all is_name ports" "list_all laid_ok ss" "list_all is_space w"
    using ok by (simp_all add: module_ok_def)
  have cn: "comma_names (m_text m 2) = ports"
    unfolding t by (rule comma_names_join [OF parts(1)]) (simp_all add: space_space)
  let ?md = "module_init name ports (body_text ss w) (off + length (module_header name ports))
      (off + length (module_header name ports) + length (body_text ss w))"
  obtain pos' where "efold (parse_stmt name) (0, ?md) (map laid_text ss @ [w]) = Inr (pos', say_stmts 0 ss ?md)"
    using stmts_read [OF parts(2,3)] by blast
  then show "parse_module m = Inr (say_module off (name, ports, ss, w))"
    unfolding parse_module_def Let_def cn unfolding t body_split [OF parts(2,3)] by (simp add: say_module_def Let_def)
qed

lemma module_re_skip: "is_space x \<Longrightarrow> match_at module_re p (x # s) = None"
proof -
  assume x: "is_space x"
  have "\<not> is_space (CHR ''m'')" by code_simp
  with x have m: "x \<noteq> CHR ''m''" by auto
  have "rm module_re (p, x # s, []) = []"
    unfolding module_re_def rseq.simps
    by (rule rm_seq_all_Nil) (use m in \<open>auto simp: rm_eqs(8) intro!: rm_seq_Nil split: if_splits\<close>)
  then show ?thesis by (simp add: match_at_def)
qed

abbreviation read_module :: "modules \<Rightarrow> rmatch \<Rightarrow> modules res" where
  "read_module mods m \<equiv> ebind (parse_module m) (\<lambda>md. Inr (dict_set (m_text m 1) md mods))"

lemma space_word_at: "list_all is_space g \<Longrightarrow> \<not> word_at p \<Longrightarrow> \<not> word_at (rev g @ p)"
  using is_word_not_space by (cases g rule: rev_cases) (auto simp: word_at_def)

lemma dict_set_new: "k \<notin> fst ` set d \<Longrightarrow> dict_set k v d = d @ [(k, v)]"
  by (induction d) auto

lemma modules_read:
  assumes "design_ok ms" and "list_all is_space t" and "\<not> word_at p"
    and "\<forall>x \<in> set ms. fst (snd x) \<notin> fst ` set mods"
  shows "efold read_module mods (find_from module_re p (design_text ms @ t)) = Inr (mods @ say_design (length p) ms)"
  using assms
proof (induction ms arbitrary: p mods)
  case Nil
  have "find_from module_re p (t @ []) = find_from module_re (rev t @ p) []"
    using Nil(2) by (intro find_skips module_re_skip) (simp add: list_all_iff)
  moreover have "rm module_re (q, [], []) = []" for q
    unfolding module_re_def rseq.simps
    by (rule rm_seq_all_Nil) (auto simp: rm_eqs(8) intro!: rm_seq_Nil split: if_splits)
  then have "find_from module_re q [] = []" for q by (subst find_from.simps) (simp add: match_at_def)
  ultimately show ?case by (simp add: design_text_def)
next
  case (Cons x ms)
  obtain g name ports ss w where x: "x = (g, name, ports, ss, w)" by (cases x) auto
  let ?M = "module_header name ports @ body_text ss w @ ''endmodule''"
  let ?r = "CHR 0x0A # design_text ms @ t"
  have g: "list_all is_space g" and ok: "module_ok (name, ports, ss, w)" and dok: "design_ok ms"
    and new: "name \<notin> (fst \<circ> snd) ` set ms"
    using Cons.prems(1) by (auto simp: x design_ok_def)
  have p1: "\<not> word_at (rev g @ p)" using space_word_at [OF g Cons.prems(3)] .
  have r: "\<not> word_at ?r" by (simp add: word_at_def) code_simp
  have p2: "\<not> word_at (CHR 0x0A # rev ?M @ rev g @ p)" by (simp add: word_at_def) code_simp
  obtain i j where F: "first module_re (rev g @ p, ?M @ ?r, []) (rev ?M @ rev g @ p, ?r,
     [(3, length (rev g @ p) + length (module_header name ports), body_text ss w),
      (2, i, '' '' @ join_sep '', '' ports @ '' ''), (1, j, name)])"
    using module_first [OF ok p1 r] by (auto simp only: append_assoc)
  let ?m = "(length (rev g @ p), rev ?M @ rev g @ p, ?r,
     [(3, length (rev g @ p) + length (module_header name ports), body_text ss w),
      (2, i, '' '' @ join_sep '', '' ports @ '' ''), (1, j, name)])"
  have tx: "design_text (x # ms) @ t = g @ ?M @ ?r"
    by (simp add: design_text_def x print_module_def)
  have "find_from module_re p (g @ ?M @ ?r) = find_from module_re (rev g @ p) (?M @ ?r)"
    using g by (intro find_skips module_re_skip) (simp add: list_all_iff)
  also have "\<dots> = ?m # find_from module_re (rev ?M @ rev g @ p) ?r"
    using find_one [OF F] by simp
  also have "find_from module_re (rev ?M @ rev g @ p) ?r = find_from module_re (CHR 0x0A # rev ?M @ rev g @ p) (design_text ms @ t)"
    by (rule find_skip [OF module_re_skip [OF space_space(2)]])
  finally have matches: "find_from module_re p (design_text (x # ms) @ t) =
      ?m # find_from module_re (CHR 0x0A # rev ?M @ rev g @ p) (design_text ms @ t)" unfolding tx .
  note mr = module_read [OF ok refl, of "length (rev g @ p)" "rev ?M @ rev g @ p" ?r "length (rev g @ p)" i j]
  let ?md = "say_module (length (rev g @ p)) (name, ports, ss, w)"
  have nm: "name \<notin> fst ` set mods" using Cons.prems(4) by (simp add: x)
  have fresh: "\<forall>x \<in> set ms. fst (snd x) \<notin> fst ` set (mods @ [(name, ?md)])"
    using Cons.prems(4) new by (auto simp: image_iff)
  define q where "q = CHR 0x0A # rev ?M @ rev g @ p"
  have q: "length q = length p + length g + length (print_module (name, ports, ss, w))"
    by (simp add: q_def print_module_def)
  have "efold read_module (mods @ [(name, ?md)]) (find_from module_re q (design_text ms @ t)) =
      Inr ((mods @ [(name, ?md)]) @ say_design (length q) ms)"
    by (rule Cons.IH [OF dok Cons.prems(2) p2 [folded q_def] fresh])
  moreover have "length (rev g @ p) = length p + length g" by simp
  ultimately have "efold read_module mods (?m # find_from module_re q (design_text ms @ t)) =
      Inr (mods @ say_design (length p) (x # ms))"
    unfolding efold.simps mr ebind_Inr dict_set_new [OF nm] q x say_design.simps fst_conv
    by (simp only: append_assoc append_Cons append_Nil)
  then show ?case unfolding matches [folded q_def] .
qed

section \<open>Comments\<close>

lemma comment_none: "x \<noteq> CHR ''/'' \<Longrightarrow> match_at comment_re p (x # s) = None"
  by (simp add: match_at_def comment_re_def rm_eqs(4) rm_seq_Nil)

lemma comment_empty: "match_at comment_re p [] = None"
  by (simp add: match_at_def comment_re_def rm_eqs(4) rm_seq_Nil)

lemma sub_no_slash: "CHR ''/'' \<notin> set s \<Longrightarrow> sub_from comment_re f p s = s"
proof (induction s arbitrary: p)
  case Nil
  show ?case by (subst sub_from.simps) (simp add: comment_empty)
next
  case (Cons x s)
  then have "match_at comment_re p (x # s) = None" by (intro comment_none) auto
  with Cons show ?case by (subst sub_from.simps) simp
qed

text \<open>A comment up to the end of its line becomes white space.\<close>

lemma sub_comment:
  assumes "CHR 0x0A \<notin> set c"
  shows "sub_from comment_re (\<lambda>m. replicate (m_length m) (CHR '' '')) p (''//'' @ c @ CHR 0x0A # s) =
    replicate (2 + length c) (CHR '' '') @ sub_from comment_re (\<lambda>m. replicate (m_length m) (CHR '' '')) (rev (''//'' @ c) @ p) (CHR 0x0A # s)"
proof -
  have c: "list_all (not_in [CHR 0x0A]) c" using assms by (auto simp: not_in_def list_all_iff)
  have "first comment_re (p, ''//'' @ c @ CHR 0x0A # s, []) (rev c @ rev ''//'' @ p, CHR 0x0A # s, [])"
    unfolding comment_re_def rseq.simps
    by (rule first_alt1, rule first_seq [OF first_lit], rule first_star [OF c]) (simp add: not_in_def)
  from first_match_at [OF this] show ?thesis
    by (subst sub_from.simps) (simp add: m_length_def m_end_def)
qed

lemma header_chars:
  assumes "is_name name" and "list_all is_name ports" and "c \<in> set (module_header name ports)"
  shows "c \<noteq> CHR ''/''"
proof -
  have nm: "c \<noteq> CHR ''/''" if "is_name n" "c \<in> set n" for n
    using that word_char_not by (auto simp: is_name_def list_all_iff)
  from assms(3) consider "c \<in> set ''module ''" | "c \<in> set name" | "c \<in> set '' ( ''" | "c \<in> set (join_sep '', '' ports)" | "c \<in> set '' );''"
    unfolding module_header_def set_append by blast
  then show ?thesis
  proof cases
    case 2
    then show ?thesis using nm assms(1) by blast
  next
    case 4
    then consider "c \<in> set '', ''" | n where "n \<in> set ports" "c \<in> set n" using set_join_sep [of "'', ''" ports] by blast
    then show ?thesis
    proof cases
      case (2 n)
      then show ?thesis using nm [of n] assms(2) by (simp add: list_all_iff)
    qed auto
  qed auto
qed

lemma body_chars:
  assumes "list_all laid_ok ss" and "list_all is_space w"
  shows "CHR ''/'' \<notin> set (body_text ss w)"
  using assms laid_chars [of _ "CHR ''/''"] space_chars [OF assms(2), of "CHR ''/''"]
  by (auto simp: body_text_def list_all_iff)

lemma design_chars: "design_ok ms \<Longrightarrow> CHR ''/'' \<notin> set (design_text ms)"
proof (induction ms)
  case (Cons x ms)
  obtain g name ports ss w where x: "x = (g, name, ports, ss, w)" by (cases x) auto
  with Cons.prems have g: "list_all is_space g" and ok: "module_ok (name, ports, ss, w)" and ms: "design_ok ms"
    by (auto simp: design_ok_def)
  have "CHR ''/'' \<notin> set (print_module (name, ports, ss, w))"
    using ok header_chars [of name ports "CHR ''/''"] body_chars [of ss w] by (auto simp: print_module_def module_ok_def)
  moreover have "CHR ''/'' \<notin> set g" using space_chars [OF g] by blast
  ultimately show ?case using Cons.IH [OF ms] by (simp add: design_text_def x)
qed (simp add: design_text_def)

section \<open>The round trip\<close>

lemma parse_blanked:
  assumes "blank_comments src = design_text ms @ t" and "design_ok ms" and "list_all is_space t"
  shows "parse src = Inr (say_design 0 ms, design_text ms @ t)"
proof -
  have "\<not> word_at []" by (simp add: word_at_def)
  from modules_read [OF assms(2,3) this, of "[]"] show ?thesis
    unfolding parse_def Let_def assms(1) re_finditer_def by simp
qed

lemma blank_no_slash: "CHR ''/'' \<notin> set s \<Longrightarrow> blank_comments s = s"
  by (simp add: blank_comments_def re_sub_def sub_no_slash)

lemma parse_printed:
  assumes "design_ok ms" and "list_all is_space t"
  shows "parse (design_text ms @ t) = Inr (say_design 0 ms, design_text ms @ t)"
proof (rule parse_blanked [OF blank_no_slash assms])
  show "CHR ''/'' \<notin> set (design_text ms @ t)"
    using design_chars [OF assms(1)] space_chars [OF assms(2)] by auto
qed


definition printed_example :: "(string \<times> mod_syntax) list" where
  "printed_example = [('' '', ''leaf'', [''a'', ''q''],
      [(CHR 0x0A # ''  '', SDecl ''input'' (Some (3, 0)) [''a'']), (CHR 0x0A # ''  '', SDecl ''output'' None [''q'']),
       ([], SAssign ''q'' ''a[0] & a[1]'')], [CHR 0x0A]),
    ([CHR 0x0A], ''top'', [''b''], [([CHR 0x0A], SDecl ''wire'' None [''x'', ''y'']),
       ([CHR 0x0A, CHR 0x09], SInst ''leaf'' ''u1'' [(''a'', ''{b, x, 2'' @ CHR 0x27 # ''b01}''), (''q'', ''y'')])], [])]"

lemma printed_example_ok: "design_ok printed_example"
  by code_simp


end
