(* ===== verification/Ce_Nets.thy ===== *)
theory Ce_Nets
  imports Clock_Trace Vnet_Print "HOL-Library.Product_Lexorder"
begin

text \<open>
  The clock-enable converter \<open>fpga/tools/fi_fpga_ce.py\<close>, first part of \<open>main\<close>: the hierarchy below
  the top (\<open>_paths\<close>), the gated clock nets and their gates, the local names of every gated net, and
  the one local name (\<open>canon\<close>) whose companion carries the enable. The code collects the names of
  a module in a set: the order in which a set built from a list of strings is iterated is the
  argument \<open>horder\<close>.
\<close>

section \<open>\_idents\<close>

definition sized_const_re :: re where
  "sized_const_re = rseq [rplus rdigit, rchr (CHR 0x27), RCls (\<lambda>c. c \<in> set ''bBhHdD''),
     rplus (RCls (\<lambda>c. is_digit c \<or> c \<in> set ''abcdefABCDEFxXzZ_''))]"

definition ident_re :: re where
  "ident_re = rseq [RWordB, RGrp 1 (RSeq (RCls is_letter) (RStar rword)), RWordB,
     RNot (rseq [rspaces, rchr (CHR ''['')])]"

definition idents :: "string \<Rightarrow> string list" where
  "idents e = map (\<lambda>m. m_text m 1) (re_finditer ident_re (re_sub sized_const_re (\<lambda>m. '' '') e))"

section \<open>\_paths\<close>

type_synonym path_mod = "(string \<times> string) list"

primrec paths :: "nat \<Rightarrow> modules \<Rightarrow> string \<Rightarrow> string \<Rightarrow> path_mod \<Rightarrow> path_mod res" where
  "paths 0 mods mname path out = Inl RecursionError"
| "paths (Suc n) mods mname path out =
     (case map_of mods mname of
        None \<Rightarrow> Inl (KeyError mname)
      | Some md \<Rightarrow> efold (\<lambda>out inst.
          case map_of mods (i_cell inst) of
            None \<Rightarrow> Inr out
          | Some child \<Rightarrow>
              if md_insts child \<noteq> [] \<or> md_assigns child \<noteq> []
              then (let p = sub_path path (i_name inst) in
                    paths n mods (i_cell inst) p (dict_set p (i_cell inst) out))
              else Inr out) out (md_insts md))"

section \<open>The gated clock nets and the gates\<close>

text \<open>One round of the loop over the sinks: the clock of the sink's net is traced.\<close>

definition query_sink :: "nat \<Rightarrow> trace \<Rightarrow> clk_state \<Rightarrow> sink \<Rightarrow> clk_state res" where
  "query_sink limit t st s =
     (case s of (li, pin, ro) \<Rightarrow>
        ebind (pin_net t li pin (fst st)) (\<lambda>(r, u).
          case r of
            None \<Rightarrow> Inr (u, snd st)
          | Some k \<Rightarrow> ebind (clock_of limit t r (u, snd st)) (\<lambda>(c, st'). Inr st')))"

type_synonym gated = "(net \<times> gate list) list"

definition gated_nets :: "(net \<times> clk) list \<Rightarrow> gated" where
  "gated_nets memo = concat (map (\<lambda>(r, c).
     case c of Clock rt iv gs \<Rightarrow> if gs \<noteq> [] then [(r, gs)] else [] | NoClock why \<Rightarrow> []) memo)"

definition gate_table :: "gated \<Rightarrow> (nat \<times> gate) list" where
  "gate_table gn = foldl (\<lambda>d g. dict_set (gate_leaf g) g d) [] (concat (map snd gn))"

section \<open>Local names\<close>

text \<open>The names \<open>main\<close> adds to the set \<open>names\<close> of a module, in the order it adds them.\<close>

definition module_names :: "module \<Rightarrow> string list" where
  "module_names md =
     md_ports md @ map fst (md_width md) @ map fst (md_dirs md) @
     concat (map (\<lambda>inst. concat (map (\<lambda>c. idents (snd c)) (i_conns inst))) (md_insts md)) @
     concat (map (\<lambda>(lhs, rhs). idents (lhs @ '' '' @ rhs)) (md_assigns md))"

type_synonym place = "string \<times> string"

type_synonym local_names = "(place \<times> string list) list"

definition local_name :: "gated \<Rightarrow> string \<Rightarrow> module \<Rightarrow> uf \<times> local_names \<Rightarrow> string \<Rightarrow> (uf \<times> local_names) res" where
  "local_name gn path md st n =
     (if map_of (md_width md) n \<noteq> None then Inr st
      else let k = path @ CHR ''/'' # n in
           if uf_parent (fst st) k = None then Inr st
           else ebind (uf_find k (fst st)) (\<lambda>(r, u).
             Inr (u, if map_of gn (Some r) \<noteq> None then dict_append (path, r) n (snd st) else snd st)))"

definition local_module :: "(string list \<Rightarrow> string list) \<Rightarrow> modules \<Rightarrow> gated \<Rightarrow> uf \<times> local_names \<Rightarrow> string \<times> string \<Rightarrow>
    (uf \<times> local_names) res" where
  "local_module horder mods gn st pm =
     (case map_of mods (snd pm) of
        None \<Rightarrow> Inl (KeyError (snd pm))
      | Some md \<Rightarrow> efold (local_name gn (fst pm) md) st (horder (module_names md)))"

section \<open>relation and canon\<close>

text \<open>Where the driver of a net stands, seen from the module at \<open>path\<close>.\<close>

datatype side = Local | Child | Parent

definition relation :: "trace \<Rightarrow> string \<Rightarrow> string \<Rightarrow> side res" where
  "relation t path r =
     (case map_of (t_driver t) r of
        None \<Rightarrow> Inl (KeyError r)
      | Some (DPort b) \<Rightarrow> Inl TypeError
      | Some (DConst v) \<Rightarrow> Inl TypeError
      | Some (DLeaf li pin) \<Rightarrow>
          ebind (py_nth (f_leaves (t_flat t)) li) (\<lambda>(pd, inst, owner).
            Inr (if pd = path then Local
                 else if path = [] \<and> pd \<noteq> [] \<or> prefix (path @ ''/'') pd then Child
                 else Parent)))"

type_synonym canon = "(place \<times> string) list"

definition dir_names :: "module \<Rightarrow> string \<Rightarrow> string list \<Rightarrow> string list" where
  "dir_names md d names = sort (filter (\<lambda>n. map_of (md_dirs md) n = Some d) names)"

definition module_at :: "modules \<Rightarrow> path_mod \<Rightarrow> string \<Rightarrow> module res" where
  "module_at mods pms path =
     (case map_of pms path of
        None \<Rightarrow> Inl (KeyError path)
      | Some mname \<Rightarrow> (case map_of mods mname of None \<Rightarrow> Inl (KeyError mname) | Some md \<Rightarrow> Inr md))"

definition canon_step :: "trace \<Rightarrow> path_mod \<Rightarrow> canon \<Rightarrow> place \<times> string list \<Rightarrow> canon res" where
  "canon_step t pms cn x =
     (case x of ((path, r), names) \<Rightarrow>
        ebind (module_at (f_mods (t_flat t)) pms path) (\<lambda>md. ebind (relation t path r) (\<lambda>rel.
          let ins = dir_names md ''input'' names; outs = dir_names md ''output'' names in
          if rel = Parent
          then (case ins of
                  [] \<Rightarrow> Inl (SysExit ((if path = [] then f_top (t_flat t) else path) @ '': gated clock '' @
                    repr_list names @ '' enters without an input port''))
                | i # _ \<Rightarrow> Inr (dict_set (path, r) i cn))
          else ebind (case outs of
                  [] \<Rightarrow> ebind (py_nth (sort names) 0) Inr
                | q # _ \<Rightarrow> Inr q) (\<lambda>c. Inr (dict_set (path, r) c cn)))))"

text \<open>\<open>fien\<close>: the name of the enable net of the net \<open>r\<close> in the module at \<open>path\<close>.\<close>

definition fien_name :: "string \<Rightarrow> string" where
  "fien_name n = n @ ''__fien''"

definition fien :: "canon \<Rightarrow> string \<Rightarrow> net \<Rightarrow> string res" where
  "fien cn path r =
     (case r of
        None \<Rightarrow> Inl (KeyError path)
      | Some k \<Rightarrow> (case map_of cn (path, k) of None \<Rightarrow> Inl (KeyError path) | Some c \<Rightarrow> Inr (fien_name c)))"

section \<open>The variables of main\<close>

record conv =
  v_trace :: trace
  v_paths :: path_mod
  v_sinks :: "sink list"
  v_gated :: gated
  v_gates :: "(nat \<times> gate) list"
  v_local :: local_names
  v_canon :: canon

definition conv_of :: "nat \<Rightarrow> (string list \<Rightarrow> string list) \<Rightarrow> trace \<Rightarrow> (conv \<times> uf) res" where
  "conv_of limit horder t =
     (let mods = f_mods (t_flat t); topm = f_top (t_flat t) in
      ebind (paths limit mods topm [] [([], topm)]) (\<lambda>pms.
      ebind (sinks t) (\<lambda>ss.
      ebind (efold (query_sink limit t) (f_uf (t_flat t), []) ss) (\<lambda>(u1, memo).
        let gn = gated_nets memo in
        ebind (efold (local_module horder mods gn) (u1, []) pms) (\<lambda>(u2, loc).
        ebind (efold (canon_step t pms) [] loc) (\<lambda>cn.
          Inr (\<lparr>v_trace = t, v_paths = pms, v_sinks = ss, v_gated = gn, v_gates = gate_table gn,
                v_local = loc, v_canon = cn\<rparr>, u2)))))))"

end
