(* ===== verification/Ce_Edit.thy ===== *)
theory Ce_Edit
  imports Ce_Nets
begin

text \<open>
  The edits of the clock-enable converter \<open>fpga/tools/fi_fpga_ce.py\<close>, per module: companion ports
  and wires, the assigns that carry the enables, the changed instances. One definition per loop of
  \<open>main\<close>, in its order: gated nets, child instance connections, sinks, memories, observation
  points. The union-find structure is threaded through, as every look at a net moves parents.
\<close>

section \<open>The edits\<close>

text \<open>An edited instance: the new cell, the added and the replaced connections.\<close>

type_synonym conns = "(string \<times> string) list"

type_synonym inst_edit = "string option \<times> conns \<times> conns"

record edits =
  e_ports :: "(string \<times> (string \<times> string) list) list"
  e_wires :: "(string \<times> string list) list"
  e_assigns :: "(string \<times> string list) list"
  e_insts :: "(string \<times> (string \<times> inst_edit) list) list"
  e_dead :: "(string \<times> nat) list"

definition no_edits :: edits where
  "no_edits = \<lparr>e_ports = [], e_wires = [], e_assigns = [], e_insts = [], e_dead = []\<rparr>"

definition add_port :: "string \<Rightarrow> string \<times> string \<Rightarrow> edits \<Rightarrow> edits" where
  "add_port mname dn es = es\<lparr>e_ports := dict_append mname dn (e_ports es)\<rparr>"

definition add_wire :: "string \<Rightarrow> string \<Rightarrow> edits \<Rightarrow> edits" where
  "add_wire mname w es = es\<lparr>e_wires := dict_append mname w (e_wires es)\<rparr>"

definition add_assign :: "string \<Rightarrow> string \<Rightarrow> edits \<Rightarrow> edits" where
  "add_assign mname a es = es\<lparr>e_assigns := dict_append mname a (e_assigns es)\<rparr>"

definition dict_update :: "('k \<times> 'v) list \<Rightarrow> ('k \<times> 'v) list \<Rightarrow> ('k \<times> 'v) list" where
  "dict_update d e = foldl (\<lambda>d kv. dict_set (fst kv) (snd kv) d) d e"

definition edit :: "string \<Rightarrow> string \<Rightarrow> string option \<Rightarrow> conns \<Rightarrow> conns \<Rightarrow> edits \<Rightarrow> edits" where
  "edit mname iname cell add repl es =
     (let d = dict_get (e_insts es) mname [] in
      case dict_get d iname (None, [], []) of (c, a, r) \<Rightarrow>
        let e = (if cell = None then c else cell, dict_update a add, dict_update r repl) in
        es\<lparr>e_insts := dict_set mname (dict_set iname e d) (e_insts es)\<rparr>)"

definition dead_count :: "edits \<Rightarrow> nat" where
  "dead_count es = sum_list (map snd (e_dead es))"

definition kill_output :: "string \<Rightarrow> edits \<Rightarrow> edits" where
  "kill_output mname es = es\<lparr>e_dead := dict_set mname (Suc (dict_get (e_dead es) mname 0)) (e_dead es)\<rparr>"

section \<open>Gated nets\<close>

definition dict_item :: "(string \<times> 'v) list \<Rightarrow> string \<Rightarrow> 'v res" where
  "dict_item d k = (case map_of d k of None \<Rightarrow> Inl (KeyError k) | Some v \<Rightarrow> Inr v)"

text \<open>The companion of one local name \<open>n\<close> of a gated net whose enable is carried by that of \<open>c\<close>.\<close>

definition companion :: "string \<Rightarrow> module \<Rightarrow> string \<Rightarrow> edits \<Rightarrow> string \<Rightarrow> edits" where
  "companion mname md c es n =
     (case map_of (md_dirs md) n of
        None \<Rightarrow> es
      | Some dr \<Rightarrow>
          if dr = ''input'' \<or> dr = ''output''
          then (let es1 = add_port mname (dr, fien_name n) es in
                if dr = ''output'' \<and> n \<noteq> c
                then add_assign mname (fien_name n @ '' = '' @ fien_name c) es1 else es1)
          else es)"

text \<open>The clock pin of a gate at \<open>path\<close> and the text of its condition.\<close>

definition gate_enable :: "trace \<Rightarrow> string \<Rightarrow> nat \<Rightarrow> inst \<Rightarrow> gate \<Rightarrow> (string \<times> string) res" where
  "gate_enable t path li inst g =
     (case g of
        GIcg _ \<Rightarrow> ebind (emap (dict_item (i_conns inst)) (c_icg_enables (t_cells t))) (\<lambda>es.
          Inr (c_icg_clock (t_cells t), ''('' @ join_sep '' | '' es @ '')''))
      | GLatch _ lat inv_x in_pin \<Rightarrow>
          ebind (py_nth (f_leaves (t_flat t)) lat) (\<lambda>(lpath, linst, lowner).
            if lpath \<noteq> path then Inl (SysExit (''gate '' @ leaf_name t li @ '': its latch is in another module''))
            else ebind (dict_item (i_conns linst) (c_latch_d (t_cells t))) (\<lambda>d.
              Inr (in_pin, (if inv_x then ''~'' else []) @ d))))"

definition dead_name :: "nat \<Rightarrow> string" where
  "dead_name k = ''fi_ce_dead_'' @ show_nat k"

text \<open>A gate stops gating: its output follows its input clock.\<close>

definition bypass_gate :: "string \<Rightarrow> inst \<Rightarrow> string \<Rightarrow> string \<Rightarrow> edits \<Rightarrow> edits res" where
  "bypass_gate mname inst pin in_pin es =
     (let dn = dead_name (dead_count es);
          es1 = edit mname (i_name inst) None [] [(pin, dn)] (add_wire mname dn (kill_output mname es)) in
      ebind (dict_item (i_conns inst) pin) (\<lambda>out. ebind (dict_item (i_conns inst) in_pin) (\<lambda>ck.
        Inr (add_assign mname (out @ '' = '' @ ck) es1))))"

definition gate_expr :: "conv \<Rightarrow> string \<Rightarrow> net \<Rightarrow> string \<Rightarrow> string res" where
  "gate_expr v path r_in en =
     (if map_of (v_gated v) r_in \<noteq> None
      then ebind (fien (v_canon v) path r_in) (\<lambda>x. Inr (x @ '' & '' @ en)) else Inr en)"

definition edit_gate :: "conv \<Rightarrow> string \<Rightarrow> string \<Rightarrow> string \<Rightarrow> nat \<Rightarrow> string \<Rightarrow> inst \<Rightarrow> gate \<Rightarrow> uf \<times> edits \<Rightarrow>
    (uf \<times> edits) res" where
  "edit_gate v path mname c li pin inst g st =
     ebind (gate_enable (v_trace v) path li inst g) (\<lambda>(in_pin, en).
     ebind (pin_net (v_trace v) li in_pin (fst st)) (\<lambda>(r_in, u).
     ebind (gate_expr v path r_in en) (\<lambda>expr.
     ebind (bypass_gate mname inst pin in_pin (add_assign mname (fien_name c @ '' = '' @ expr) (snd st))) (\<lambda>es.
       Inr (u, es)))))"

text \<open>A buffer or an inverter passes the enable on.\<close>

definition edit_buffer :: "conv \<Rightarrow> string \<Rightarrow> string \<Rightarrow> string \<Rightarrow> nat \<Rightarrow> role \<Rightarrow> uf \<times> edits \<Rightarrow> (uf \<times> edits) res" where
  "edit_buffer v path mname c li ro st =
     (let cs = t_cells (v_trace v) in
      ebind (py_nth (fst ((if ro = Buf then c_buf else c_inv) cs)) 0) (\<lambda>ip.
      ebind (pin_net (v_trace v) li ip (fst st)) (\<lambda>(r_in, u).
      ebind (fien (v_canon v) path r_in) (\<lambda>x.
        Inr (u, add_assign mname (fien_name c @ '' = '' @ x) (snd st))))))"

definition edit_driver :: "conv \<Rightarrow> string \<Rightarrow> string \<Rightarrow> string \<Rightarrow> string \<Rightarrow> uf \<times> edits \<Rightarrow> (uf \<times> edits) res" where
  "edit_driver v path mname r c st =
     (case map_of (t_driver (v_trace v)) r of
        Some (DLeaf li pin) \<Rightarrow>
          ebind (py_nth (f_leaves (t_flat (v_trace v))) li) (\<lambda>(p, inst, owner).
          ebind (py_nth (t_role (v_trace v)) li) (\<lambda>ro.
            case map_of (v_gates v) li of
              Some g \<Rightarrow> edit_gate v path mname c li pin inst g st
            | None \<Rightarrow>
                if ro = Buf \<or> ro = Inv then edit_buffer v path mname c li ro st
                else Inl (SysExit (leaf_name (v_trace v) li @ '': unexpected driver of a gated clock ('' @
                  role_name ro @ '')''))))
      | _ \<Rightarrow> Inl TypeError)"

definition edit_net :: "conv \<Rightarrow> uf \<times> edits \<Rightarrow> place \<times> string list \<Rightarrow> (uf \<times> edits) res" where
  "edit_net v st x =
     (case x of ((path, r), names) \<Rightarrow>
        let mods = f_mods (t_flat (v_trace v)) in
        ebind (dict_item (v_paths v) path) (\<lambda>mname. ebind (module_at mods (v_paths v) path) (\<lambda>md.
          case map_of (v_canon v) (path, r) of
            None \<Rightarrow> Inl (KeyError path)
          | Some c \<Rightarrow>
              let es1 = foldl (companion mname md c) (snd st) names;
                  es2 = (if map_of (md_dirs md) c = None then add_wire mname (fien_name c) es1 else es1) in
              ebind (relation (v_trace v) path r) (\<lambda>rel.
                if rel = Local then edit_driver v path mname r c (fst st, es2) else Inr (fst st, es2)))))"

definition edit_nets :: "conv \<Rightarrow> uf \<times> edits \<Rightarrow> (uf \<times> edits) res" where
  "edit_nets v st = efold (edit_net v) st (sort_key fst (v_local v))"

section \<open>Child instance connections\<close>

definition child_conn :: "conv \<Rightarrow> string \<Rightarrow> string \<Rightarrow> module \<Rightarrow> inst \<Rightarrow> uf \<times> edits \<Rightarrow> string \<times> string \<Rightarrow>
    (uf \<times> edits) res" where
  "child_conn v path mname md inst st c =
     ebind (expr_bits (snd c) (md_width md)) (\<lambda>bits.
       case bits of
         [b] \<Rightarrow>
           if is_const_bit b then Inr st
           else ebind (uf_lookup (path, b) (fst st)) (\<lambda>(r, u).
             if map_of (v_gated v) (Some r) \<noteq> None
             then ebind (fien (v_canon v) path (Some r)) (\<lambda>x.
               Inr (u, edit mname (i_name inst) None [(fien_name (fst c), x)] [] (snd st)))
             else Inr (u, snd st))
       | _ \<Rightarrow> Inr st)"

definition child_inst :: "conv \<Rightarrow> string \<Rightarrow> string \<Rightarrow> module \<Rightarrow> uf \<times> edits \<Rightarrow> inst \<Rightarrow> (uf \<times> edits) res" where
  "child_inst v path mname md st inst =
     (let mods = f_mods (t_flat (v_trace v)) in
      if map_of mods (i_cell inst) = None \<or> i_cell inst \<in> set (blackbox mods) then Inr st
      else efold (child_conn v path mname md inst) st (i_conns inst))"

definition child_module :: "conv \<Rightarrow> uf \<times> edits \<Rightarrow> string \<times> string \<Rightarrow> (uf \<times> edits) res" where
  "child_module v st pm =
     ebind (dict_item (f_mods (t_flat (v_trace v))) (snd pm)) (\<lambda>md.
       efold (child_inst v (fst pm) (snd pm) md) st (md_insts md))"

section \<open>Sinks\<close>

type_synonym counter = "(string \<times> nat) list"

type_synonym sink_state = "uf \<times> edits \<times> counter"

text \<open>The loads of the latch's output that are inputs are all clock gates.\<close>

definition only_gates :: "conv \<Rightarrow> net \<Rightarrow> bool" where
  "only_gates v q = list_all (\<lambda>(l, p, d). d = ''input'' \<longrightarrow> map_of (v_gates v) l \<noteq> None)
     (case q of None \<Rightarrow> [] | Some k \<Rightarrow> dict_get (f_pins (t_flat (v_trace v))) k [])"

text \<open>A sink whose pin is on the net \<open>r\<close>.\<close>

definition edit_sink_on :: "conv \<Rightarrow> string list \<Rightarrow> sink \<Rightarrow> leaf \<Rightarrow> edits \<times> counter \<Rightarrow> net \<times> uf \<Rightarrow> sink_state res" where
  "edit_sink_on v mem_cell s lf ec ru =
     (case s of (li, pin, ro) \<Rightarrow> case lf of (path, inst, owner) \<Rightarrow> case ru of (r, u) \<Rightarrow>
        let t = v_trace v; es = fst ec; count = snd ec; is_gated = (map_of (v_gated v) r \<noteq> None) in
        if ro = Macro \<or> ro = Blackbox \<and> i_cell inst \<in> set mem_cell
        then ebind (if is_gated then fien (v_canon v) path r else Inr (''1'' @ CHR 0x27 # ''b1'')) (\<lambda>x.
          Inr (u, edit owner (i_name inst) None [(''fi_ce_i'', x)] [] es,
               counter_inc (role_name ro @ '' fi_ce_i'' @ (if is_gated then '' gated'' else '' free'')) count))
        else if \<not> is_gated then Inr (u, es, count)
        else if ro = Flop
        then ebind (fien (v_canon v) path r) (\<lambda>x.
          Inr (u, edit owner (i_name inst) (Some (i_cell inst @ ''_FICE'')) [(''FICE'', x)] [] es,
               counter_inc (''flop '' @ i_cell inst) count))
        else if ro = Latch
        then ebind (pin_net t li (c_q (t_cells t)) u) (\<lambda>(q, u').
          if only_gates v q then Inr (u', es, counter_inc ''gate latch (left in place)'' count)
          else Inl (SysExit (''latch '' @ leaf_name t li @ '' on a gated clock drives more than clock gates'')))
        else if ro = Blackbox
        then Inl (SysExit (''black box '' @ leaf_name t li @ ''.'' @ pin @ '' on a gated clock is not a listed memory''))
        else Inl (SysExit (leaf_name t li @ '': unexpected clock sink '' @ role_name ro)))"

definition edit_sink :: "conv \<Rightarrow> string list \<Rightarrow> sink_state \<Rightarrow> sink \<Rightarrow> sink_state res" where
  "edit_sink v mem_cell st s =
     ebind (py_nth (f_leaves (t_flat (v_trace v))) (fst s)) (\<lambda>lf.
       ebind (pin_net (v_trace v) (fst s) (fst (snd s)) (fst st)) (edit_sink_on v mem_cell s lf (snd st)))"

section \<open>Memory restore wires\<close>

definition mem_leaves :: "trace \<Rightarrow> string list \<Rightarrow> (string \<times> nat) list" where
  "mem_leaves t mem_cell = sort (concat (map (\<lambda>(li, path, inst, owner).
     if i_cell inst \<in> set mem_cell then [(sub_path path (i_name inst), li)] else [])
     (enumerate 0 (f_leaves (t_flat t)))))"

text \<open>\<open>sig\<close>: the pins of the memory \<open>k\<close> and the nets that carry them up.\<close>

definition mem_signals :: "nat \<Rightarrow> conns" where
  "mem_signals k =
     [(''fi_restore_i'', ''fi_mem_restore_i''), (''fi_done_o'', ''fi_mem'' @ show_nat k @ ''_done_o''),
      (''fi_abort_o'', ''fi_mem'' @ show_nat k @ ''_abort_o''), (''fi_bad_o'', ''fi_mem'' @ show_nat k @ ''_bad_o'')]"

definition mem_port :: "string \<Rightarrow> edits \<Rightarrow> string \<times> string \<Rightarrow> edits" where
  "mem_port mname es ps =
     (let dp = (if fst ps = ''fi_restore_i'' then ''input'' else ''output'', snd ps) in
      if dp \<in> set (dict_get (e_ports es) mname []) then es else add_port mname dp es)"

definition mem_level :: "path_mod \<Rightarrow> string list \<Rightarrow> nat \<Rightarrow> edits \<Rightarrow> nat \<Rightarrow> edits res" where
  "mem_level pms hs k es depth =
     ebind (dict_item pms (join_sep ''/'' (take depth hs))) (\<lambda>mname.
       let es1 = foldl (mem_port mname) es (mem_signals k) in
       if depth = 0 then Inr es1
       else ebind (dict_item pms (join_sep ''/'' (take (depth - 1) hs))) (\<lambda>parent.
         Inr (edit parent (hs ! (depth - 1)) None (map (\<lambda>s. (s, s)) (map snd (mem_signals k))) [] es1)))"

definition split_path :: "string \<Rightarrow> string list" where
  "split_path path = (if path = [] then [] else split_on (CHR ''/'') path)"

definition edit_mem :: "conv \<Rightarrow> edits \<Rightarrow> nat \<times> string \<times> nat \<Rightarrow> edits res" where
  "edit_mem v es x =
     (case x of (k, mpath, li) \<Rightarrow>
        ebind (py_nth (f_leaves (t_flat (v_trace v))) li) (\<lambda>(path, inst, owner).
          let hs = split_path path in
          efold (mem_level (v_paths v) hs k) (edit owner (i_name inst) None (mem_signals k) [] es)
            (rev [0..<Suc (length hs)])))"

section \<open>Observation points\<close>

text \<open>\<open>spec.partition('=')\<close>, without the separator.\<close>

definition observe_parts :: "string \<Rightarrow> string \<times> string" where
  "observe_parts spec =
     (let net = takeWhile (\<lambda>c. c \<noteq> CHR ''='') spec in
      (net, case drop (length net) spec of [] \<Rightarrow> [] | _ # port \<Rightarrow> port))"

definition observe_re :: re where
  "observe_re = rseq [RGrp 1 (RSeq (RCls is_letter) (RStar rword)),
     ropt (RGrp 2 (rseq [rchr (CHR ''[''), rplus rdigit, rchr (CHR '']'')]))]"

definition edit_observe :: "string \<Rightarrow> module \<Rightarrow> edits \<Rightarrow> string \<Rightarrow> edits res" where
  "edit_observe top_name topm es spec =
     (case observe_parts spec of (net, port) \<Rightarrow>
        let bad = (\<lambda>why. Inl (SysExit (''--observe '' @ spec @ '': '' @ why))) in
        case (if port = [] then None else re_fullmatch observe_re net) of
          None \<Rightarrow> bad ''expected <net>[<bit>]=<port>''
        | Some m \<Rightarrow>
            if re_search (rseq [RWordB, rlit (m_text m 1), RWordB]) (md_text topm) = None
            then bad (top_name @ '' has no net '' @ m_text m 1)
            else if port \<in> set (md_ports topm) \<or> map_of (md_dirs topm) port \<noteq> None
            then bad (top_name @ '' already has a port '' @ port)
            else Inr (add_assign top_name (port @ '' = '' @ net) (add_port top_name (''output'', port) es)))"

section \<open>All edits\<close>

definition all_edits :: "conv \<Rightarrow> string list \<Rightarrow> string list \<Rightarrow> uf \<Rightarrow> (edits \<times> counter \<times> (string \<times> nat) list) res" where
  "all_edits v mem_cell observe u =
     (let t = v_trace v; topm = f_top (t_flat t) in
      ebind (edit_nets v (u, no_edits)) (\<lambda>st1.
      ebind (efold (child_module v) st1 (v_paths v)) (\<lambda>(u2, es2).
      ebind (efold (edit_sink v mem_cell) (u2, es2, []) (v_sinks v)) (\<lambda>(u3, es3, count).
        let mems = mem_leaves t mem_cell in
        ebind (efold (edit_mem v) es3 (enumerate 0 mems)) (\<lambda>es4.
        ebind (dict_item (f_mods (t_flat t)) topm) (\<lambda>md.
        ebind (efold (edit_observe topm md) es4 observe) (\<lambda>es5.
          Inr (es5, count, mems))))))))"

end
