(* ===== verification/Ce_Write.thy ===== *)
theory Ce_Write
  imports Ce_Edit
begin

text \<open>
  What the clock-enable converter \<open>fpga/tools/fi_fpga_ce.py\<close> writes: the converted netlist, the
  snippet that combines the memories' restore wires, the summary; and \<open>convert\<close>, the whole of
  \<open>main\<close> after the command line is parsed, as a function of the texts of the files it reads.
\<close>

section \<open>The converted netlist\<close>

type_synonym replacement = "nat \<times> nat \<times> string"

definition nl :: char where
  "nl = CHR 0x0A"

definition inst_text :: "string \<Rightarrow> string \<Rightarrow> conns \<Rightarrow> string" where
  "inst_text cell name cs =
     nl # ''  '' @ cell @ '' '' @ name @ '' ( '' @ join_sep '', '' (map print_conn cs) @ '' )''"

text \<open>The cell and the connections of an instance after its edit.\<close>

definition edited_cell :: "inst_edit \<Rightarrow> inst \<Rightarrow> string" where
  "edited_cell e inst = (case fst e of None \<Rightarrow> i_cell inst | Some c \<Rightarrow> c)"

definition edited_conns :: "inst_edit \<Rightarrow> inst \<Rightarrow> conns" where
  "edited_conns e inst = dict_update (dict_update (i_conns inst) (snd (snd e))) (fst (snd e))"

definition inst_rep :: "(string \<times> inst_edit) list \<Rightarrow> inst \<Rightarrow> replacement list" where
  "inst_rep ies inst =
     (case map_of ies (i_name inst) of
        None \<Rightarrow> []
      | Some e \<Rightarrow> [(i_start inst, i_end inst, inst_text (edited_cell e inst) (i_name inst) (edited_conns e inst))])"

definition replacements :: "(string \<times> inst_edit) list \<Rightarrow> inst list \<Rightarrow> replacement list" where
  "replacements ies insts = concat (map (inst_rep ies) insts)"

text \<open>The replacements are made from the back of the text, so that positions stay.\<close>

definition splice :: "string \<Rightarrow> replacement list \<Rightarrow> string" where
  "splice body reps = foldl (\<lambda>b (s0, s1, s). take s0 b @ s @ drop s1 b) body (rev (sort reps))"

definition dedup :: "string list \<Rightarrow> string list" where
  "dedup xs = rev (remdups (rev xs))"

definition new_ports_of :: "edits \<Rightarrow> string \<Rightarrow> (string \<times> string) list" where
  "new_ports_of es mname = dict_get (e_ports es) mname []"

definition written_ports :: "edits \<Rightarrow> string \<Rightarrow> module \<Rightarrow> string list" where
  "written_ports es mname md =
     md_ports md @ filter (\<lambda>n. n \<notin> set (md_ports md)) (map snd (new_ports_of es mname))"

definition decl_line :: "string \<Rightarrow> string \<Rightarrow> string" where
  "decl_line d n = nl # ''  '' @ d @ '' '' @ n @ '';''"

definition written_decls :: "edits \<Rightarrow> string \<Rightarrow> module \<Rightarrow> string" where
  "written_decls es mname md =
     concat (map (\<lambda>(d, n). decl_line d n)
       (filter (\<lambda>(d, n). map_of (md_dirs md) n = None) (new_ports_of es mname))) @
     concat (map (decl_line ''wire'') (dedup (dict_get (e_wires es) mname [])))"

definition written_assigns :: "edits \<Rightarrow> string \<Rightarrow> string" where
  "written_assigns es mname =
     concat (map (\<lambda>a. nl # ''  assign '' @ a @ '';'') (dict_get (e_assigns es) mname []))"

definition written_body :: "edits \<Rightarrow> string \<Rightarrow> module \<Rightarrow> string" where
  "written_body es mname md =
     splice (md_text md) (replacements (dict_get (e_insts es) mname []) (md_insts md))"

definition written_module :: "edits \<Rightarrow> string \<times> module \<Rightarrow> string" where
  "written_module es m =
     (case m of (mname, md) \<Rightarrow>
        ''module '' @ mname @ '' ( '' @ join_sep '', '' (written_ports es mname md) @ '' );'' @
        written_decls es mname md @ written_body es mname md @ written_assigns es mname @
        nl # ''endmodule'' @ [nl])"

definition written_netlist :: "string \<Rightarrow> string list \<Rightarrow> modules \<Rightarrow> edits \<Rightarrow> string" where
  "written_netlist netlist drops mods es =
     ''// GENERATED by fpga/tools/fi_fpga_ce.py from '' @ netlist @ [nl] @
     ''// clock gates turned into clock enables (<net>__fien, <cell>_FICE, fi_ce_i)'' @ [nl, nl] @
     join_sep [nl] (map (written_module es) (filter (\<lambda>m. fst m \<notin> set drops) mods))"

section \<open>The restore wires' snippet\<close>

definition mem_name :: "nat \<Rightarrow> string" where
  "mem_name k = ''fi_mem'' @ show_nat k"

definition mem_wire :: "string \<Rightarrow> nat \<Rightarrow> string" where
  "mem_wire s k = mem_name k @ s"

definition glue_assign :: "string \<Rightarrow> string \<Rightarrow> string \<Rightarrow> nat \<Rightarrow> string" where
  "glue_assign lhs op s n = ''assign '' @ lhs @ '' = '' @ join_sep op (map (mem_wire s) [0..<n]) @ '';''"

definition glue_ports :: "nat \<Rightarrow> string list" where
  "glue_ports n = ''.fi_mem_restore_i(fi_mem_req)'' #
     concat (map (\<lambda>k. map (\<lambda>s. ''.'' @ mem_wire s k @ ''('' @ mem_wire s k @ '')'')
       [''_done_o'', ''_abort_o'', ''_bad_o'']) [0..<n])"

definition glue_lines :: "(string \<times> nat) list \<Rightarrow> string list" where
  "glue_lines glue =
     (let n = length glue in
      [''// GENERATED by fpga/tools/fi_fpga_ce.py: the DUT memories' restore wires'',
       ''// '' @ join_sep '', '' (map (\<lambda>(p, k). mem_name k @ '' = '' @ p) glue)] @
      map (\<lambda>k. ''wire '' @ mem_wire ''_done_o'' k @ '', '' @ mem_wire ''_abort_o'' k @ '', '' @
        mem_wire ''_bad_o'' k @ '';'') [0..<n] @
      (if n \<noteq> 0
       then [glue_assign ''fi_mem_done '' '' & '' ''_done_o'' n, glue_assign ''fi_mem_abort'' '' | '' ''_abort_o'' n,
             glue_assign ''fi_mem_bad  '' '' | '' ''_bad_o'' n,
             ''`define FI_MEM_PORTS '' @ join_sep '', '' (glue_ports n)]
       else [''assign fi_mem_done = 1'' @ CHR 0x27 # ''b1;'', ''assign fi_mem_abort = 1'' @ CHR 0x27 # ''b0;'',
             ''assign fi_mem_bad = 1'' @ CHR 0x27 # ''b0;'', ''`define FI_MEM_PORTS'']))"

definition glue_text :: "(string \<times> nat) list \<Rightarrow> string" where
  "glue_text glue = join_sep [nl] (glue_lines glue) @ [nl]"

section \<open>The summary\<close>

definition summary_lines :: "conv \<Rightarrow> edits \<Rightarrow> counter \<Rightarrow> string list \<Rightarrow> string list \<Rightarrow> string list" where
  "summary_lines v es count mem_paths observe =
     (let kinds = foldl (\<lambda>d g. counter_inc (gate_kind (snd g)) d) [] (v_gates v) in
      [''gates turned into enables: '' @ repr_counts kinds @ ''; gated nets '' @ show_nat (length (v_gated v)) @
       ''; dead gate outputs '' @ show_nat (dead_count es)] @
      map (\<lambda>(k, n). ''  '' @ pad_left 6 (show_nat n) @ ''  '' @ k) (sort count) @
      [''memories with restore wires: '' @ repr_list mem_paths] @
      (if observe \<noteq> [] then [''observed: '' @ repr_list observe] else []) @
      [''new ports: '' @ show_nat (sum_list (map (length \<circ> snd) (e_ports es))) @ '' in '' @
       show_nat (length (filter (\<lambda>d. snd d \<noteq> []) (e_ports es))) @ '' modules''])"

section \<open>main\<close>

record conv_args =
  a_netlist :: string
  a_top :: string
  a_glue :: "string option"
  a_mem_cell :: "string list"
  a_drop :: "string list"
  a_observe :: "string list"

record conv_out =
  o_netlist :: string
  o_glue :: "string option"
  o_printed :: "string list"

definition convert_trace :: "nat \<Rightarrow> (string list \<Rightarrow> string list) \<Rightarrow> conv_args \<Rightarrow> trace \<Rightarrow> conv_out res" where
  "convert_trace limit horder args t =
     ebind (conv_of limit horder t) (\<lambda>(v, u).
     ebind (all_edits v (a_mem_cell args) (a_observe args) u) (\<lambda>(es, count, mems).
       let glue = zip (map fst mems) [0..<length mems] in
       Inr \<lparr>o_netlist = written_netlist (a_netlist args) (a_drop args) (f_mods (t_flat t)) es,
            o_glue = (case a_glue args of None \<Rightarrow> None | Some f \<Rightarrow> if f = [] then None else Some (glue_text glue)),
            o_printed = (if v_gated v = [] then [''no clock gates: nothing to convert''] else []) @
              summary_lines v es count (map fst mems) (a_observe args)\<rparr>))"

definition convert :: "nat \<Rightarrow> (string list \<Rightarrow> string list) \<Rightarrow> conv_args \<Rightarrow> string \<Rightarrow> string list \<Rightarrow> cells \<Rightarrow>
    conv_out res" where
  "convert limit horder args netlist models cs =
     ebind (trace_new limit netlist (a_top args) models cs) (convert_trace limit horder args)"

end
