(* ===== verification/Write_Props.thy ===== *)
theory Write_Props
  imports Ce_Write
begin

text \<open>
  What the converter writes of a module's body: statement by statement the text that was read, with
  the statements of the edited instances, and only these, printed anew.
\<close>

section \<open>The statements of a module\<close>

lemma join_split: "join_sep [c] (split_on c s) = s"
proof (induction s)
  case (Cons x s)
  have "split_on c s \<noteq> []" by (cases s) (auto split: list.splits)
  then obtain y ys where "split_on c s = y # ys" by (cases "split_on c s") auto
  with Cons show ?case by (cases ys) auto
qed simp

text \<open>A statement with the instance it was parsed as; the positions are those in the module's text.\<close>

type_synonym tagged = "string \<times> inst option"

definition tag_insts :: "tagged list \<Rightarrow> inst list" where
  "tag_insts ps = concat (map (\<lambda>x. case snd x of None \<Rightarrow> [] | Some i \<Rightarrow> [i]) ps)"

fun tags_ok :: "nat \<Rightarrow> tagged list \<Rightarrow> bool" where
  "tags_ok pos [] = True"
| "tags_ok pos ((s, oi) # ps) =
     ((case oi of None \<Rightarrow> True | Some i \<Rightarrow> i_start i = pos \<and> i_end i = pos + length s) \<and> tags_ok (pos + length s + 1) ps)"

lemma tag_insts_simps [simp]:
  "tag_insts [] = []" "tag_insts ((s, None) # ps) = tag_insts ps" "tag_insts ((s, Some i) # ps) = i # tag_insts ps"
  "tag_insts (ps @ qs) = tag_insts ps @ tag_insts qs"
  by (simp_all add: tag_insts_def)

lemma tags_ok_append: "tags_ok pos (ps @ qs) \<longleftrightarrow> tags_ok pos ps \<and> tags_ok (pos + sum_list (map (\<lambda>x. length (fst x) + 1) ps)) qs"
  by (induction ps arbitrary: pos) (auto simp: ac_simps)

text \<open>What the loop over the statements keeps: the instances so far are those of the statements so far.\<close>

definition stmts_inv :: "string \<Rightarrow> string list \<Rightarrow> nat \<times> module \<Rightarrow> bool" where
  "stmts_inv body us pm \<longleftrightarrow> md_text (snd pm) = body \<and> fst pm = sum_list (map (\<lambda>s. length s + 1) us) \<and>
     (\<exists>ps. map fst ps = us \<and> tag_insts ps = md_insts (snd pm) \<and> tags_ok 0 ps)"

lemma declare_keeps: "declare_name d md n = Inr md' \<Longrightarrow> md_text md' = md_text md \<and> md_insts md' = md_insts md"
  by (auto simp: declare_name_def Let_def ebind_eq_Inr split: option.splits if_splits)

lemma parse_decl_keeps:
  assumes "parse_decl d md = Inr md'"
  shows "md_text md' = md_text md \<and> md_insts md' = md_insts md"
proof -
  have "efold (declare_name d) md (comma_names (m_text d 5)) = Inr md'" using assms by (simp add: parse_decl_def)
  then show ?thesis
    by (rule efold_inv [where P = "\<lambda>x. md_text x = md_text md \<and> md_insts x = md_insts md"]) (auto dest: declare_keeps)
qed

lemma parse_stmt_keeps:
  assumes "parse_stmt name pm stmt = Inr pm'"
  shows "fst pm' = fst pm + length stmt + 1 \<and> md_text (snd pm') = md_text (snd pm) \<and>
    (\<exists>oi. md_insts (snd pm') = md_insts (snd pm) @ tag_insts [(stmt, oi)] \<and> tags_ok (fst pm) [(stmt, oi)])"
proof -
  obtain pos md where pm: "pm = (pos, md)" by (cases pm)
  note k = assms [unfolded parse_stmt_def pm prod.case Let_def]
  consider (same) d where "parse_decl d md = Inr (snd pm')" "fst pm' = pos + length stmt + 1"
    | (none) "pm' = (pos + length stmt + 1, md)"
    | (assign) "parse_assign (py_strip stmt) md = Inr (snd pm')" "fst pm' = pos + length stmt + 1"
    | (inst) "parse_inst name (py_strip stmt) pos (pos + length stmt) md = Inr (snd pm')" "fst pm' = pos + length stmt + 1"
    using k by (auto simp: ebind_eq_Inr split: if_splits option.splits)
  then show ?thesis
  proof cases
    case same
    with parse_decl_keeps [OF same(1)] show ?thesis by (auto simp: pm intro: exI [of _ None])
  next
    case none
    then show ?thesis by (auto simp: pm intro: exI [of _ None])
  next
    case assign
    obtain md' where md': "md' = snd pm'" by simp
    from assign(1) obtain a where "snd pm' = md\<lparr>md_assigns := a\<rparr>"
      unfolding md' [symmetric] by (auto simp: parse_assign_def Let_def split: list.splits)
    with assign(2) show ?thesis by (auto simp: pm intro: exI [of _ None])
  next
    case inst
    obtain md' where md': "md' = snd pm'" by simp
    from inst(1) obtain i where i: "md_text (snd pm') = md_text md" "md_insts (snd pm') = md_insts md @ [i]"
      "i_start i = pos" "i_end i = pos + length stmt"
      unfolding md' [symmetric] by (auto simp: parse_inst_def split: option.splits)
    with inst(2) show ?thesis by (auto simp: pm intro: exI [of _ "Some i"])
  qed
qed

lemma parse_module_tagged:
  assumes "parse_module m = Inr md"
  shows "\<exists>ps. map fst ps = split_on (CHR '';'') (md_text md) \<and> tag_insts ps = md_insts md \<and> tags_ok 0 ps"
proof -
  let ?body = "m_text m 3"
  let ?md = "module_init (m_text m 1) (comma_names (m_text m 2)) ?body (m_start m 3) (m_start m 3 + length ?body)"
  from assms obtain pm where f: "efold (parse_stmt (m_text m 1)) (0, ?md) (split_on (CHR '';'') ?body) = Inr pm"
    and md: "md = snd pm" by (auto simp: parse_module_def Let_def ebind_eq_Inr)
  have "stmts_inv ?body (split_on (CHR '';'') ?body) pm"
  proof (rule efold_prefix_inv [where P = "stmts_inv ?body", OF f])
    show "stmts_inv ?body [] (0, ?md)"
      by (simp add: stmts_inv_def module_init_def)
  next
    fix us s x s'
    assume i: "stmts_inv ?body us s" and p: "parse_stmt (m_text m 1) s x = Inr s'"
    from i obtain ps where ps: "map fst ps = us" "tag_insts ps = md_insts (snd s)" "tags_ok 0 ps"
      by (auto simp: stmts_inv_def)
    from parse_stmt_keeps [OF p] obtain oi where k: "fst s' = fst s + length x + 1" "md_text (snd s') = md_text (snd s)"
      "md_insts (snd s') = md_insts (snd s) @ tag_insts [(x, oi)]" "tags_ok (fst s) [(x, oi)]" by blast
    have "map (\<lambda>x. length (fst x) + 1) ps = map (\<lambda>s. length s + 1) us" using ps(1) by auto
    then have "fst s = sum_list (map (\<lambda>x. length (fst x) + 1) ps)" using i by (simp add: stmts_inv_def)
    then have "tags_ok 0 (ps @ [(x, oi)])" using ps(3) k(4) by (simp only: tags_ok_append add_0 simp_thms)
    moreover have "map fst (ps @ [(x, oi)]) = us @ [x]" "tag_insts (ps @ [(x, oi)]) = md_insts (snd s')"
      using ps k(3) by (simp_all add: tag_insts_def)
    ultimately show "stmts_inv ?body (us @ [x]) s'"
      using i k(1,2) unfolding stmts_inv_def by (intro conjI exI [of _ "ps @ [(x, oi)]"]) simp_all
  qed
  then show ?thesis unfolding stmts_inv_def md by metis
qed

lemma parse_tagged:
  assumes "parse src = Inr (mods, text)" and "(mname, md) \<in> set mods"
  shows "\<exists>ps. map fst ps = split_on (CHR '';'') (md_text md) \<and> tag_insts ps = md_insts md \<and> tags_ok 0 ps"
proof -
  from assms(1) have f: "efold (\<lambda>mods m. ebind (parse_module m) (\<lambda>md. Inr (dict_set (m_text m 1) md mods)))
      [] (re_finditer module_re (blank_comments src)) = Inr mods"
    by (auto simp: parse_def Let_def ebind_eq_Inr)
  have "\<forall>x \<in> set mods. \<exists>ps. map fst ps = split_on (CHR '';'') (md_text (snd x)) \<and> tag_insts ps = md_insts (snd x) \<and> tags_ok 0 ps"
  proof (rule efold_inv [where P = "\<lambda>mods. \<forall>x \<in> set mods. \<exists>ps. map fst ps = split_on (CHR '';'') (md_text (snd x)) \<and>
      tag_insts ps = md_insts (snd x) \<and> tags_ok 0 ps", OF f])
    fix s m s'
    assume i: "\<forall>x \<in> set s. \<exists>ps. map fst ps = split_on (CHR '';'') (md_text (snd x)) \<and> tag_insts ps = md_insts (snd x) \<and> tags_ok 0 ps"
      and e: "ebind (parse_module m) (\<lambda>md. Inr (dict_set (m_text m 1) md s)) = Inr s'"
    from e obtain md where "parse_module m = Inr md" and s': "s' = dict_set (m_text m 1) md s" by (auto simp: ebind_eq_Inr)
    note p = parse_module_tagged [OF this(1)]
    show "\<forall>x \<in> set s'. \<exists>ps. map fst ps = split_on (CHR '';'') (md_text (snd x)) \<and> tag_insts ps = md_insts (snd x) \<and> tags_ok 0 ps"
    proof
      fix x assume "x \<in> set s'"
      then have "x = (m_text m 1, md) \<or> x \<in> set s" unfolding s' by (rule dict_set_mem)
      with p i show "\<exists>ps. map fst ps = split_on (CHR '';'') (md_text (snd x)) \<and> tag_insts ps = md_insts (snd x) \<and> tags_ok 0 ps"
        by auto
    qed
  qed simp
  with assms(2) show ?thesis by fastforce
qed

section \<open>Replacing\<close>

text \<open>A statement after the edits: printed anew when it is an edited instance, as read otherwise.\<close>

definition written_stmt :: "(string \<times> inst_edit) list \<Rightarrow> tagged \<Rightarrow> string" where
  "written_stmt ies x = (case snd x of None \<Rightarrow> fst x
     | Some i \<Rightarrow> (case map_of ies (i_name i) of None \<Rightarrow> fst x
         | Some e \<Rightarrow> inst_text (edited_cell e i) (i_name i) (edited_conns e i)))"

lemma replacements_Cons: "replacements ies (i # is) = inst_rep ies i @ replacements ies is"
  by (simp add: replacements_def)

lemma reps_from: "tags_ok pos ps \<Longrightarrow> (s0, s1, s) \<in> set (replacements ies (tag_insts ps)) \<Longrightarrow> pos \<le> s0"
proof (induction ps arbitrary: pos)
  case (Cons x ps)
  obtain st oi where x: "x = (st, oi)" by (cases x)
  show ?case
  proof (cases oi)
    case None
    with Cons x show ?thesis by fastforce
  next
    case (Some i)
    with Cons.prems consider "(s0, s1, s) \<in> set (inst_rep ies i)" "i_start i = pos"
      | "(s0, s1, s) \<in> set (replacements ies (tag_insts ps))" "tags_ok (pos + length st + 1) ps"
      by (auto simp: x replacements_Cons)
    then show ?thesis
    proof cases
      case 1
      then show ?thesis by (auto simp: inst_rep_def split: option.splits)
    next
      case 2
      with Cons.IH [of "pos + length st + 1"] show ?thesis by simp
    qed
  qed
qed (simp add: replacements_def)

lemma rep_none:
  assumes "\<not> (\<exists>i. oi = Some i \<and> map_of ies (i_name i) \<noteq> None)"
  shows "replacements ies (tag_insts ((st, oi) # ps)) = replacements ies (tag_insts ps)"
proof (cases oi)
  case (Some i)
  with assms have "map_of ies (i_name i) = None" by blast
  with Some show ?thesis by (simp add: replacements_Cons inst_rep_def)
qed simp

lemma rep_one:
  assumes "map_of ies (i_name i) = Some e"
  shows "replacements ies (tag_insts ((st, Some i) # ps)) =
    (i_start i, i_end i, inst_text (edited_cell e i) (i_name i) (edited_conns e i)) # replacements ies (tag_insts ps)"
  using assms by (simp add: replacements_Cons inst_rep_def)

lemma reps_sorted: "tags_ok pos ps \<Longrightarrow> sorted (replacements ies (tag_insts ps))"
proof (induction ps arbitrary: pos)
  case (Cons x ps)
  obtain st oi where x: "x = (st, oi)" by (cases x)
  have t: "tags_ok (pos + length st + 1) ps" using Cons.prems by (simp add: x)
  show ?case
  proof (cases "\<exists>i. oi = Some i \<and> map_of ies (i_name i) \<noteq> None")
    case True
    then obtain i e where i: "oi = Some i" "map_of ies (i_name i) = Some e" by blast
    have "i_start i = pos" using Cons.prems i by (simp add: x)
    moreover have "\<forall>(s0, s1, s) \<in> set (replacements ies (tag_insts ps)). pos < s0"
      using reps_from [OF t] by fastforce
    ultimately show ?thesis using Cons.IH [OF t] i by (auto simp: x replacements_Cons inst_rep_def less_eq_prod_def)
  next
    case False
    then have "replacements ies (tag_insts (x # ps)) = replacements ies (tag_insts ps)"
      unfolding x by (rule rep_none)
    with Cons.IH [OF t] show ?thesis by simp
  qed
qed (simp add: replacements_def)

definition put :: "replacement \<Rightarrow> string \<Rightarrow> string" where
  "put r b = (case r of (s0, s1, s) \<Rightarrow> take s0 b @ s @ drop s1 b)"

lemma splice_foldr: "sorted reps \<Longrightarrow> splice body reps = foldr put reps body"
proof -
  have "(\<lambda>b (s0, s1, s). take s0 b @ s @ drop s1 b) = (\<lambda>b r. put r b)" by (auto simp: put_def fun_eq_iff)
  then show "sorted reps \<Longrightarrow> splice body reps = foldr put reps body"
    by (simp only: splice_def sorted_sort_id foldl_conv_foldr rev_rev_ident)
qed

lemma join_Cons: "ps \<noteq> [] \<Longrightarrow> join_sep sep (map f (x # ps)) = f x @ sep @ join_sep sep (map f ps)"
  by (cases ps) simp_all

lemma put_one:
  assumes "tags_ok (length pre) ((st, oi) # ps)"
    and "foldr put (replacements ies (tag_insts ps)) (pre @ st @ body) = pre @ st @ body'"
  shows "foldr put (replacements ies (tag_insts ((st, oi) # ps))) (pre @ st @ body) = pre @ written_stmt ies (st, oi) @ body'"
proof (cases "\<exists>i. oi = Some i \<and> map_of ies (i_name i) \<noteq> None")
  case True
  then obtain i e where i: "oi = Some i" "map_of ies (i_name i) = Some e" by blast
  have "i_start i = length pre" "i_end i = length pre + length st" using assms(1) i by simp_all
  with assms(2) show ?thesis
    by (simp only: i rep_one [OF i(2)] foldr_Cons comp_apply) (simp add: put_def written_stmt_def i)
next
  case False
  then have "written_stmt ies (st, oi) = st" by (auto simp: written_stmt_def split: option.splits)
  with assms(2) show ?thesis by (simp only: rep_none [OF False])
qed

lemma put_all:
  "ps \<noteq> [] \<Longrightarrow> tags_ok (length pre) ps \<Longrightarrow> foldr put (replacements ies (tag_insts ps)) (pre @ join_sep '';'' (map fst ps)) =
     pre @ join_sep '';'' (map (written_stmt ies) ps)"
proof (induction ps arbitrary: pre)
  case (Cons x ps)
  obtain st oi where x: "x = (st, oi)" by (cases x)
  show ?case
  proof (cases "ps = []")
    case True
    have "foldr put (replacements ies (tag_insts [])) (pre @ st @ []) = pre @ st @ []" by (simp add: replacements_def)
    from put_one [OF Cons.prems(2) [unfolded x True] this] show ?thesis by (simp only: x True) simp
  next
    case False
    have "tags_ok (length (pre @ st @ '';'')) ps" using Cons.prems(2) by (simp add: x)
    from Cons.IH [OF False this]
    have "foldr put (replacements ies (tag_insts ps)) (pre @ st @ '';'' @ join_sep '';'' (map fst ps)) =
        pre @ st @ '';'' @ join_sep '';'' (map (written_stmt ies) ps)" by simp
    from put_one [OF Cons.prems(2) [unfolded x] this] show ?thesis
      unfolding join_Cons [OF False] x fst_conv .
  qed
qed simp

lemma split_nonempty: "split_on c s \<noteq> []"
  by (cases s) (auto split: list.splits)

text \<open>C35: The body of a module the converter writes is the text that was read, statement by
  statement, with exactly the statements of the edited instances printed anew; replacing from
  the back by positions changes nothing else.\<close>

theorem body_written_statementwise:
  assumes "parse src = Inr (mods, text)" and "(m, md) \<in> set mods"
  shows "\<exists>ps. map fst ps = split_on (CHR '';'') (md_text md) \<and> tag_insts ps = md_insts md \<and> tags_ok 0 ps \<and>
    written_body es mname md = join_sep '';'' (map (written_stmt (dict_get (e_insts es) mname [])) ps)"
proof -
  from parse_tagged [OF assms] obtain ps where ps: "map fst ps = split_on (CHR '';'') (md_text md)"
    "tag_insts ps = md_insts md" "tags_ok 0 ps" by blast
  have "ps \<noteq> []" using ps(1) split_nonempty [of "CHR '';''" "md_text md"] by auto
  moreover have "md_text md = join_sep '';'' (map fst ps)" using ps(1) join_split [of "CHR '';''"] by simp
  ultimately have "written_body es mname md = join_sep '';'' (map (written_stmt (dict_get (e_insts es) mname [])) ps)"
    using put_all [of ps "[]" "dict_get (e_insts es) mname []"] ps(2,3) splice_foldr [OF reps_sorted [OF ps(3)]]
    by (simp add: written_body_def)
  with ps show ?thesis by blast
qed

definition small_src :: string where
  "small_src = ''module m(a); input a; B u(.x(a)); endmodule''"

definition small_edits :: edits where
  "small_edits = edit ''m'' ''u'' (Some ''C'') [(''y'', ''a'')] [] no_edits"

lemma small_parse:
  "case parse small_src of Inl e \<Rightarrow> False | Inr (mods, text) \<Rightarrow>
     mods \<noteq> [] \<and> fst (hd mods) = ''m'' \<and>
     written_body small_edits ''m'' (snd (hd mods)) = '' input a;'' @ nl # ''  C u ( .x(a), .y(a) ); ''"
  by code_simp

theorem body_written_statementwise_witness:
  "\<exists>mods text md ps. parse small_src = Inr (mods, text) \<and> (''m'', md) \<in> set mods \<and>
     map fst ps = split_on (CHR '';'') (md_text md) \<and>
     join_sep '';'' (map (written_stmt (dict_get (e_insts small_edits) ''m'' [])) ps) =
       '' input a;'' @ nl # ''  C u ( .x(a), .y(a) ); ''"
proof -
  obtain mods tx where p: "parse small_src = Inr (mods, tx)"
    and m: "mods \<noteq> []" "fst (hd mods) = ''m''"
    and w0: "written_body small_edits ''m'' (snd (hd mods)) = '' input a;'' @ nl # ''  C u ( .x(a), .y(a) ); ''"
    using small_parse by (cases "parse small_src") (simp_all only: sum.case, blast)
  define md where "md = snd (hd mods)"
  have w: "written_body small_edits ''m'' md = '' input a;'' @ nl # ''  C u ( .x(a), .y(a) ); ''" using w0 by (simp only: md_def)
  have "hd mods = (''m'', md)" using m(2) by (simp add: md_def prod_eq_iff)
  then have "(''m'', md) \<in> set mods" using m(1) by (metis list.set_sel(1))
  from body_written_statementwise [OF p this, of small_edits "''m''"] w p this show ?thesis by metis
qed

end
