(* ===== verification/Clock_Unique.thy ===== *)
theory Clock_Unique
  imports Clock_Sound
begin

text \<open>
  More about what \<open>clock_of\<close> leaves behind, for the tools that read its memo: the clock of a net is
  unique, and depends only on the leaf that drives the net; every gate it lists is the last one of
  the clock of its own output; and once a net's clock is in the memo, so is that of the net it comes
  from.
\<close>

section \<open>The clock of a net is unique\<close>

inductive_cases clocked_E: "clocked t r rt iv gs"

lemma has_role_det: "has_role t li a \<Longrightarrow> has_role t li b \<Longrightarrow> a = b"
  by (simp add: has_role_def)

lemma latch_enable_det: "latch_enable t lat en low \<Longrightarrow> latch_enable t lat en' low' \<Longrightarrow> en' = en \<and> low' = low"
  by (auto simp: latch_enable_def)

lemma clocked_not_latch: "clocked t r rt iv gs \<Longrightarrow> driver_of t r = Some (DLeaf lat q) \<Longrightarrow> \<not> has_role t lat Latch"
  by (erule clocked_E) (auto dest: has_role_det)

text \<open>Two nets with the same driver, or driven by the same leaf.\<close>

definition same_source :: "trace \<Rightarrow> net \<Rightarrow> net \<Rightarrow> bool" where
  "same_source t r r' \<longleftrightarrow> driver_of t r = driver_of t r' \<or>
     (\<exists>li p p'. driver_of t r = Some (DLeaf li p) \<and> driver_of t r' = Some (DLeaf li p'))"

lemma same_source_refl [simp]: "same_source t r r"
  by (simp add: same_source_def)

lemma same_source_leaf: "same_source t r r' \<Longrightarrow> driver_of t r = Some (DLeaf li p) \<Longrightarrow>
    \<exists>p'. driver_of t r' = Some (DLeaf li p')"
  unfolding same_source_def by (metis option.inject driver.inject(1))

lemma verdict_last: "gate_verdict t li cell lat low cp f rt iv gs liv = Clock rt' iv' gs' \<Longrightarrow>
    \<exists>inv_x. gs' = gs @ [GLatch li lat inv_x cp]"
  by (auto simp: gate_verdict_def split: if_splits)

lemma gate_sides_two: "(cp, xp, f) \<in> gate_sides g \<Longrightarrow> (cp', xp', f') \<in> gate_sides g \<Longrightarrow>
    (cp', xp', f') = (cp, xp, f) \<or> cp' = xp"
  by (auto simp: gate_sides_def split: prod.splits)

lemma clocked_gate_E:
  assumes "clocked t r rt iv gs" and d: "driver_of t r = Some (DLeaf li p)" and role: "has_role t li Gate2"
  obtains g cp xp f nc nx lat q en low iv0 gs0 ne liv lgs cell
    where "gate_fn t li g" "(cp, xp, f) \<in> gate_sides g" "pin_on t li cp nc" "pin_on t li xp nx"
      "driver_of t nx = Some (DLeaf lat q)" "has_role t lat Latch" "latch_enable t lat en low"
      "clocked t nc rt iv0 gs0" "pin_on t lat en ne" "clocked t ne rt liv lgs"
      "gate_verdict t li cell lat low cp f rt iv0 gs0 liv = Clock rt iv gs"
  using assms(1)
proof (cases rule: clocked.cases)
  case (through_gate li' pin g cp xp f nc nx lat q en low iv0 gs0 ne liv lgs cell)
  have "li' = li" using through_gate(1) d by simp
  with through_gate show ?thesis by (intro that) simp_all
qed (use d role in \<open>auto dest: has_role_det\<close>)

lemma clocked_unique:
  "clocked t r rt iv gs \<Longrightarrow> same_source t r r' \<Longrightarrow> clocked t r' rt' iv' gs' \<Longrightarrow> rt' = rt \<and> iv' = iv \<and> gs' = gs"
proof (induction arbitrary: r' rt' iv' gs' rule: clocked.induct)
  case (at_port r b)
  then have "driver_of t r' = Some (DPort b)" by (auto simp: same_source_def)
  with at_port.prems(2) show ?case by (auto elim: clocked_E)
next
  case (through_buf r li pin ip ips n rt iv gs)
  from same_source_leaf [OF through_buf.prems(1) through_buf.hyps(1)] obtain p' where
    d: "driver_of t r' = Some (DLeaf li p')" ..
  have IH: "rt' = rt \<and> iv' = iv \<and> gs' = gs" if "pin_on t li ip n'" "clocked t n' rt' iv' gs'" for n' rt' iv' gs'
    using through_buf.IH [of n] that pin_on_det [OF through_buf.hyps(4) that(1)] by simp
  from through_buf.prems(2) show ?case
    by (rule clocked_E) (use d through_buf.hyps in \<open>auto dest: has_role_det IH\<close>)
next
  case (through_inv r li pin ip ips n rt iv gs)
  from same_source_leaf [OF through_inv.prems(1) through_inv.hyps(1)] obtain p' where
    d: "driver_of t r' = Some (DLeaf li p')" ..
  have IH: "rt' = rt \<and> iv' = iv \<and> gs' = gs" if "pin_on t li ip n'" "clocked t n' rt' iv' gs'" for n' rt' iv' gs'
    using through_inv.IH [of n] that pin_on_det [OF through_inv.hyps(4) that(1)] by simp
  from through_inv.prems(2) show ?case
    by (rule clocked_E) (use d through_inv.hyps in \<open>auto dest: has_role_det IH\<close>)
next
  case (through_icg r li pin n rt iv gs)
  from same_source_leaf [OF through_icg.prems(1) through_icg.hyps(1)] obtain p' where
    d: "driver_of t r' = Some (DLeaf li p')" ..
  have IH: "rt' = rt \<and> iv' = iv \<and> gs' = gs"
    if "pin_on t li (c_icg_clock (t_cells t)) n'" "clocked t n' rt' iv' gs'" for n' rt' iv' gs'
    using through_icg.IH [of n] that pin_on_det [OF through_icg.hyps(3) that(1)] by simp
  from through_icg.prems(2) show ?case
    by (rule clocked_E) (use d through_icg.hyps in \<open>auto dest: has_role_det IH\<close>)
next
  case (through_gate r li pin g cp xp f nc nx lat q en low rt iv gs ne liv lgs cell iv1 gs1)
  from same_source_leaf [OF through_gate.prems(1) through_gate.hyps(1)] obtain p' where
    d: "driver_of t r' = Some (DLeaf li p')" ..
  from clocked_gate_E [OF through_gate.prems(2) d through_gate.hyps(2)] obtain
      g' cp' xp' f' nc' nx' lat' q' en' low' iv0 gs0 ne' liv' lgs' cell'
    where 2: "gate_fn t li g'" "(cp', xp', f') \<in> gate_sides g'" "pin_on t li cp' nc'" "pin_on t li xp' nx'"
      "driver_of t nx' = Some (DLeaf lat' q')" "has_role t lat' Latch" "latch_enable t lat' en' low'"
      "clocked t nc' rt' iv0 gs0" "pin_on t lat' en' ne'" "clocked t ne' rt' liv' lgs'"
      "gate_verdict t li cell' lat' low' cp' f' rt' iv0 gs0 liv' = Clock rt' iv' gs'" .
  have g: "g' = g" by (rule gate_fn_det [OF 2(1) through_gate.hyps(3)])
  have "cp' \<noteq> xp"
  proof
    assume "cp' = xp"
    then have "nc' = nx" using pin_on_det [OF 2(3)] through_gate.hyps(6) by simp
    with clocked_not_latch [OF 2(8)] through_gate.hyps(7,8) show False by simp
  qed
  with gate_sides_two [OF through_gate.hyps(4) 2(2) [unfolded g]] have s: "cp' = cp" "xp' = xp" "f' = f" by auto
  have n: "nc' = nc" "nx' = nx"
    using pin_on_det [OF 2(3) through_gate.hyps(5) [folded s]] pin_on_det [OF 2(4) through_gate.hyps(6) [folded s]] by simp_all
  have l: "lat' = lat" using 2(5) through_gate.hyps(7) n by simp
  have e: "en' = en" "low' = low" using latch_enable_det [OF through_gate.hyps(9) 2(7) [unfolded l]] by simp_all
  have "ne' = ne" using pin_on_det [OF 2(9) through_gate.hyps(11) [folded l e]] .
  then have i: "rt' = rt" "iv0 = iv" "gs0 = gs" "liv' = liv"
    using through_gate.IH(1) [OF _ 2(8) [unfolded n]] through_gate.IH(2) [of ne, OF _ 2(10) [unfolded \<open>ne' = ne\<close>]] by simp_all
  from gate_verdict_cell [OF 2(11)] have "gate_verdict t li cell lat low cp f rt iv gs liv = Clock rt' iv' gs'"
    unfolding l e s i .
  with through_gate.hyps(13) i show ?case by simp
qed

section \<open>Every gate has its own output\<close>

lemma gate_output:
  "clocked t r rt iv gs \<Longrightarrow> g \<in> set gs \<Longrightarrow>
    \<exists>r' p rt' iv' gs'. driver_of t r' = Some (DLeaf (gate_leaf g) p) \<and> clocked t r' rt' iv' (gs' @ [g])"
proof (induction rule: clocked.induct)
  case (through_icg r li pin r' rt iv gs)
  show ?case
  proof (cases "g = GIcg li")
    case True
    with through_icg.hyps(1) clocked.through_icg [OF through_icg.hyps] show ?thesis by auto
  next
    case False
    with through_icg.prems show ?thesis by (intro through_icg.IH) simp
  qed
next
  case (through_gate r li pin g' cp xp f nc nx lat q en low rt iv gs ne liv lgs cell iv' gs')
  from verdict_last [OF through_gate.hyps(13)] obtain x where gs': "gs' = gs @ [GLatch li lat x cp]" ..
  show ?case
  proof (cases "g = GLatch li lat x cp")
    case True
    have "clocked t r rt iv' (gs @ [g])"
      unfolding True gs' [symmetric] by (rule clocked.through_gate [OF through_gate.hyps])
    with True through_gate.hyps(1) show ?thesis by auto
  next
    case False
    with through_gate.prems show ?thesis by (intro through_gate.IH(1)) (simp add: gs')
  qed
qed simp_all

lemma gate_roles: "clocked t r rt iv gs \<Longrightarrow> g \<in> set gs \<Longrightarrow> has_role t (gate_leaf g) Icg \<or> has_role t (gate_leaf g) Gate2"
proof (induction rule: clocked.induct)
  case (through_gate r li pin g' cp xp f nc nx lat q en low rt iv gs ne liv lgs cell iv' gs')
  from verdict_last [OF through_gate.hyps(13)] obtain x where "gs' = gs @ [GLatch li lat x cp]" ..
  with through_gate show ?case by auto
qed auto

section \<open>The memo is closed\<close>

text \<open>\<open>feeds t r gs r'\<close>: the clock of \<open>r\<close>, with the gates \<open>gs\<close>, comes from the net \<open>r'\<close>.\<close>

definition feeds :: "trace \<Rightarrow> net \<Rightarrow> gate list \<Rightarrow> net \<Rightarrow> bool" where
  "feeds t r gs r' \<longleftrightarrow> (\<exists>li pin cp. driver_of t r = Some (DLeaf li pin) \<and> pin_on t li cp r' \<and>
     (has_role t li Buf \<and> (\<exists>ips. fst (c_buf (t_cells t)) = cp # ips) \<or>
      has_role t li Inv \<and> (\<exists>ips. fst (c_inv (t_cells t)) = cp # ips) \<or>
      has_role t li Icg \<and> cp = c_icg_clock (t_cells t) \<or>
      has_role t li Gate2 \<and> (\<exists>gs0 lat inv_x. gs = gs0 @ [GLatch li lat inv_x cp])))"

definition is_clock :: "clk option \<Rightarrow> bool" where
  "is_clock c \<longleftrightarrow> (\<exists>rt iv gs. c = Some (Clock rt iv gs))"

definition memo_closed :: "trace \<Rightarrow> (net \<rightharpoonup> clk) \<Rightarrow> bool" where
  "memo_closed t m \<longleftrightarrow> (\<forall>r rt iv gs r'. m r = Some (Clock rt iv gs) \<longrightarrow> feeds t r gs r' \<longrightarrow> is_clock (m r'))"

definition closed_inv :: "trace \<Rightarrow> clk_state \<Rightarrow> bool" where
  "closed_inv t st \<longleftrightarrow> trace_inv t st \<and> memo_closed t (map_of (snd st)) \<and> distinct (map fst (snd st))"

text \<open>A step of the tracer: the invariant is kept and the memo only grows.\<close>

definition extends :: "trace \<Rightarrow> clk_state \<Rightarrow> clk_state \<Rightarrow> bool" where
  "extends t st st' \<longleftrightarrow> closed_inv t st' \<and> map_of (snd st) \<subseteq>\<^sub>m map_of (snd st')"

definition keeps :: "trace \<Rightarrow> tracer \<Rightarrow> bool" where
  "keeps t rec \<longleftrightarrow> (\<forall>r st c st'. rec r st = Inr (c, st') \<longrightarrow> closed_inv t st \<longrightarrow>
     extends t st st' \<and> map_of (snd st') r = Some c)"

lemma ebind_pairE:
  assumes "ebind m f = Inr y"
  obtains a b where "m = Inr (a, b)" and "f (a, b) = Inr y"
  using assms by (metis ebind_eq_Inr surj_pair)

lemma keepsD:
  assumes "keeps t rec" and "rec r st = Inr (c, st')" and "closed_inv t st"
  shows "extends t st st'" and "map_of (snd st') r = Some c"
  using assms unfolding keeps_def by blast+

lemma extends_refl: "closed_inv t st \<Longrightarrow> extends t st st"
  by (simp add: extends_def)

lemma extends_trans: "extends t a b \<Longrightarrow> extends t b c \<Longrightarrow> extends t a c"
  unfolding extends_def by (meson map_le_trans)

lemma extends_inv: "extends t a b \<Longrightarrow> closed_inv t b"
  by (simp add: extends_def)

lemma extends_memo: "extends t a b \<Longrightarrow> map_of (snd a) r = Some c \<Longrightarrow> map_of (snd b) r = Some c"
  unfolding extends_def map_le_def by (metis domI)

lemma pin_net_on:
  assumes "pin_net t li pin u = Inr (r, u')" and "uf_wf u" and "rep u = rep (f_uf (t_flat t))"
  shows "pin_on t li pin r" and "uf_wf u'" and "rep u' = rep u"
proof -
  from assms(1) obtain pb where pb: "pin_bit_of t li pin = Inr pb"
    and r: "(case pb of None \<Rightarrow> Inr (None, u) | Some k \<Rightarrow> ebind (uf_lookup k u) (\<lambda>(r, u'). Inr (Some r, u'))) = Inr (r, u')"
    by (auto simp: pin_net_def ebind_eq_Inr)
  have "pin_on t li pin r \<and> uf_wf u' \<and> rep u' = rep u"
  proof (cases pb)
    case None
    with r pb assms(2) show ?thesis by (auto simp: pin_on_def)
  next
    case (Some k)
    from uf_lookup_spec [OF assms(2), of k] obtain u1 where
      u1: "uf_lookup k u = Inr (rep u (net_key (fst k) (snd k)), u1)" "uf_wf u1" "rep u1 = rep u" by blast
    with r Some have "r = Some (rep u (net_key (fst k) (snd k)))" "u' = u1" by simp_all
    with u1 pb Some assms(3) show ?thesis by (simp add: pin_on_def case_prod_beta)
  qed
  then show "pin_on t li pin r" "uf_wf u'" "rep u' = rep u" by simp_all
qed

lemma pin_net_extends:
  assumes "pin_net t li pin (fst st) = Inr (r, u)" and "closed_inv t st"
  shows "pin_on t li pin r" and "extends t st (u, snd st)"
  using pin_net_on [OF assms(1)] assms(2) by (auto simp: closed_inv_def extends_def trace_inv_def)

lemma pin_clock_keeps:
  assumes "keeps t rec" and "pin_clock rec t li pin st = Inr (c, st')" and "closed_inv t st"
  shows "extends t st st'" and "\<exists>r. pin_on t li pin r \<and> map_of (snd st') r = Some c"
proof -
  from assms(2) obtain r u where p: "pin_net t li pin (fst st) = Inr (r, u)" and rec: "rec r (u, snd st) = Inr (c, st')"
    by (auto simp: pin_clock_def ebind_eq_Inr)
  note a = pin_net_extends [OF p assms(3)]
  note b = keepsD [OF assms(1) rec extends_inv [OF a(2)]]
  from extends_trans [OF a(2) b(1)] show "extends t st st'" .
  from a(1) b(2) show "\<exists>r. pin_on t li pin r \<and> map_of (snd st') r = Some c" by blast
qed

lemma gate_latch_keeps:
  assumes "keeps t rec" and "gate_latch rec t li cell lat low en cp nc f st = Inr (co, st')" and "closed_inv t st"
  shows "extends t st st' \<and> (\<forall>rt iv gs. co = Some (Clock rt iv gs) \<longrightarrow>
    (\<exists>gs0 inv_x. gs = gs0 @ [GLatch li lat inv_x cp]) \<and> is_clock (map_of (snd st') nc))"
proof -
  from assms(2) obtain up st1 where up: "rec nc st = Inr (up, st1)"
    and k: "(case up of NoClock why \<Rightarrow> Inr (None, st1)
       | Clock rt iv gs \<Rightarrow> ebind (pin_clock rec t lat en st1) (\<lambda>(lup, st2). case lup of
               NoClock why \<Rightarrow> Inr (None, st2)
             | Clock lrt liv lgs \<Rightarrow> if lrt \<noteq> rt then Inr (None, st2)
                 else Inr (Some (gate_verdict t li cell lat low cp f rt iv gs liv), st2))) = Inr (co, st')"
    by (auto simp: gate_latch_def ebind_eq_Inr)
  note 1 = keepsD [OF assms(1) up assms(3)]
  show ?thesis
  proof (cases up)
    case (NoClock why)
    with k 1 show ?thesis by simp
  next
    case (Clock rt iv gs)
    from k [unfolded Clock clk.case] obtain lup st2 where l: "pin_clock rec t lat en st1 = Inr (lup, st2)"
      and k2: "(case (lup, st2) of (lup, st2) \<Rightarrow> (case lup of NoClock why \<Rightarrow> Inr (None, st2)
        | Clock lrt liv lgs \<Rightarrow> if lrt \<noteq> rt then Inr (None, st2)
            else Inr (Some (gate_verdict t li cell lat low cp f rt iv gs liv), st2))) = (Inr (co, st') :: (clk option \<times> clk_state) res)"
      by (rule ebind_pairE)
    note 2 = pin_clock_keeps(1) [OF assms(1) l extends_inv [OF 1(1)]]
    from k2 have "st' = st2" and "\<forall>c. co = Some c \<longrightarrow> (\<exists>liv. c = gate_verdict t li cell lat low cp f rt iv gs liv)"
      by (auto split: clk.splits if_splits)
    moreover have "is_clock (map_of (snd st2) nc)"
      using extends_memo [OF 2 1(2)] Clock by (simp add: is_clock_def)
    ultimately show ?thesis using extends_trans [OF 1(1) 2] by (metis verdict_last)
  qed
qed

lemma gate_side_keeps:
  assumes "keeps t rec" and "gate_side rec t li cell cp nc nx f st = Inr (co, st')" and "closed_inv t st"
  shows "extends t st st' \<and> (\<forall>rt iv gs. co = Some (Clock rt iv gs) \<longrightarrow>
    (\<exists>gs0 lat inv_x. gs = gs0 @ [GLatch li lat inv_x cp]) \<and> is_clock (map_of (snd st') nc))"
proof (cases "co = None \<and> st' = st")
  case True
  then show ?thesis using extends_refl [OF assms(3)] by simp
next
  case False
  with assms(2) obtain lat low en where "gate_latch rec t li cell lat low en cp nc f st = Inr (co, st')"
    by (auto simp: gate_side_def ebind_eq_Inr split: option.splits driver.splits if_splits)
  from gate_latch_keeps [OF assms(1) this assms(3)] show ?thesis by blast
qed

text \<open>What a step of the tracer at the net \<open>r\<close> promises.\<close>

definition fed :: "trace \<Rightarrow> net \<Rightarrow> clk_state \<Rightarrow> clk \<Rightarrow> clk_state \<Rightarrow> bool" where
  "fed t r st c st' \<longleftrightarrow> extends t st st' \<and>
     (\<forall>rt iv gs r'. c = Clock rt iv gs \<longrightarrow> feeds t r gs r' \<longrightarrow> is_clock (map_of (snd st') r'))"

lemma gate2_keeps:
  assumes "keeps t rec" and "trace_gate2 rec t li cell st = Inr (c, st')" and "closed_inv t st"
    and d: "driver_of t r = Some (DLeaf li pin)" and role: "has_role t li Gate2"
  shows "fed t r st c st'"
proof -
  from assms(2) obtain pa pb fn na u1 nb u2 res1 st1
    where na: "pin_net t li pa (fst st) = Inr (na, u1)" and nb: "pin_net t li pb u1 = Inr (nb, u2)"
      and s1: "gate_side rec t li cell pa na nb (\<lambda>c x. fn c x) (u2, snd st) = Inr (res1, st1)"
      and k: "(case res1 of Some c \<Rightarrow> Inr (c, st1)
        | None \<Rightarrow> ebind (gate_side rec t li cell pb nb na (\<lambda>c x. fn x c) st1) (\<lambda>(res2, st2).
            case res2 of Some c \<Rightarrow> Inr (c, st2)
            | None \<Rightarrow> Inr (NoClock (''2-input cell '' @ cell @ '' '' @ leaf_name t li @
                '' on a clock path without a gating latch''), st2))) = Inr (c, st')"
    by (auto simp: trace_gate2_def ebind_eq_Inr split: option.splits)
  note a = pin_net_extends [OF na assms(3)]
  have nb': "pin_net t li pb (fst (u1, snd st)) = Inr (nb, u2)" using nb by simp
  note b = pin_net_extends [OF nb' extends_inv [OF a(2)], unfolded snd_conv]
  note ab = extends_trans [OF a(2) b(2)]
  note 1 = gate_side_keeps [OF assms(1) s1 extends_inv [OF ab]]
  have e1: "extends t st st1" using 1 extends_trans [OF ab] by blast
  have fin: "fed t r st c st'"
    if e: "extends t st st'" and g: "\<And>rt iv gs. c = Clock rt iv gs \<Longrightarrow>
      (\<exists>gs0 lat x. gs = gs0 @ [GLatch li lat x cp]) \<and> is_clock (map_of (snd st') n)" and p: "pin_on t li cp n" for cp n
    unfolding fed_def
  proof (intro conjI allI impI e)
    fix rt iv gs r'
    assume c: "c = Clock rt iv gs" and f: "feeds t r gs r'"
    from g [OF c] obtain gs0 lat x where gs: "gs = gs0 @ [GLatch li lat x cp]" by blast
    have "pin_on t li cp r'" using f d role by (auto simp: feeds_def gs dest: has_role_det)
    with p have "r' = n" using pin_on_det by blast
    with g [OF c] show "is_clock (map_of (snd st') r')" by simp
  qed
  show ?thesis
  proof (cases res1)
    case (Some c1)
    with k have c: "c1 = c" "st' = st1" by simp_all
    show ?thesis by (rule fin [OF _ _ a(1)]) (use 1 e1 Some c in simp_all)
  next
    case None
    from k [unfolded None option.case] obtain res2 st2 where
        s2: "gate_side rec t li cell pb nb na (\<lambda>c x. fn x c) st1 = Inr (res2, st2)"
      and k2: "(case (res2, st2) of (res2, st2) \<Rightarrow> (case res2 of Some c \<Rightarrow> Inr (c, st2)
            | None \<Rightarrow> Inr (NoClock (''2-input cell '' @ cell @ '' '' @ leaf_name t li @
                '' on a clock path without a gating latch''), st2))) = (Inr (c, st') :: (clk \<times> clk_state) res)"
      by (rule ebind_pairE)
    note 2 = gate_side_keeps [OF assms(1) s2 extends_inv [OF e1]]
    have e2: "extends t st st2" using 2 extends_trans [OF e1] by blast
    show ?thesis
    proof (cases res2)
      case (Some c2)
      with k2 have c: "c2 = c" "st' = st2" by simp_all
      show ?thesis by (rule fin [OF _ _ b(1)]) (use 2 e2 Some c in simp_all)
    next
      case None
      with k2 e2 show ?thesis by (auto simp: fed_def)
    qed
  qed
qed

lemma single_pin_keeps:
  assumes "keeps t rec" and "pin_clock rec t li ip st = Inr (up, st')" and "closed_inv t st"
    and one: "\<And>gs r'. feeds t r gs r' \<Longrightarrow> pin_on t li ip r'"
    and up: "\<And>rt iv gs. c = Clock rt iv gs \<Longrightarrow> \<exists>rt iv gs. up = Clock rt iv gs"
  shows "fed t r st c st'"
proof -
  note a = pin_clock_keeps [OF assms(1-3)]
  from a(2) obtain n where n: "pin_on t li ip n" "map_of (snd st') n = Some up" by blast
  have "is_clock (map_of (snd st') r')" if "c = Clock rt iv gs" "feeds t r gs r'" for rt iv gs r'
    using one [OF that(2)] n up [OF that(1)] pin_on_det [OF n(1)] by (auto simp: is_clock_def)
  with a(1) show ?thesis unfolding fed_def by blast
qed

lemma leaf_keeps:
  assumes "keeps t rec" and "trace_leaf rec t li pin st = Inr (c, st')" and "closed_inv t st"
    and d: "driver_of t r = Some (DLeaf li pin)"
  shows "fed t r st c st'"
proof -
  from assms(2) obtain ro cell where ro: "py_nth (t_role t) li = Inr ro" and cell: "leaf_cell t li = Inr cell"
    and k: "(if ro = Buf \<or> ro = Inv
       then ebind (py_nth (fst ((if ro = Buf then c_buf else c_inv) (t_cells t))) 0) (\<lambda>ip.
         ebind (pin_clock rec t li ip st) (\<lambda>(up, st1). Inr (if ro = Inv then invert_clk up else up, st1)))
       else if ro = Icg
       then ebind (pin_clock rec t li (c_icg_clock (t_cells t)) st) (\<lambda>(up, st1). Inr (icg_clk li up, st1))
       else if ro = Gate2 then trace_gate2 rec t li cell st
       else Inr (NoClock (''driven by '' @ role_name ro @ '' '' @ cell @ '' '' @ leaf_name t li @ ''.'' @ pin), st))
       = Inr (c, st')"
    by (auto simp: trace_leaf_def ebind_eq_Inr)
  have role: "has_role t li ro" using ro by (auto simp: has_role_def py_nth_Inr)
  have feeds: "pin_on t li cp r'" if "feeds t r gs r'" "ro = Icg \<and> cp = c_icg_clock (t_cells t) \<or>
      ro = Buf \<and> (\<exists>ips. fst (c_buf (t_cells t)) = cp # ips) \<or> ro = Inv \<and> (\<exists>ips. fst (c_inv (t_cells t)) = cp # ips)"
    for gs r' cp
    using that d role by (auto simp: feeds_def dest: has_role_det)
  consider "ro = Buf" | "ro = Inv" | "ro = Icg" | "ro = Gate2" | "ro \<notin> {Buf, Inv, Icg, Gate2}" by auto
  then show ?thesis
  proof cases
    case 1
    with k obtain ip where ip: "py_nth (fst (c_buf (t_cells t))) 0 = Inr ip" and p: "pin_clock rec t li ip st = Inr (c, st')"
      by (auto simp: ebind_eq_Inr)
    from py_nth_0 [OF ip] obtain ys where "fst (c_buf (t_cells t)) = ip # ys" ..
    with 1 show ?thesis by (intro single_pin_keeps [OF assms(1) p assms(3)] feeds) auto
  next
    case 2
    with k obtain ip up where ip: "py_nth (fst (c_inv (t_cells t))) 0 = Inr ip"
      and p: "pin_clock rec t li ip st = Inr (up, st')" and c: "c = invert_clk up"
      by (auto simp: ebind_eq_Inr)
    from py_nth_0 [OF ip] obtain ys where "fst (c_inv (t_cells t)) = ip # ys" ..
    with 2 c show ?thesis
      by (intro single_pin_keeps [OF assms(1) p assms(3)] feeds) (auto simp: invert_clk_def split: clk.splits)
  next
    case 3
    with k obtain up where p: "pin_clock rec t li (c_icg_clock (t_cells t)) st = Inr (up, st')" and c: "c = icg_clk li up"
      by (auto simp: ebind_eq_Inr)
    with 3 show ?thesis
      by (intro single_pin_keeps [OF assms(1) p assms(3)] feeds) (auto simp: icg_clk_def split: clk.splits)
  next
    case 4
    with k role show ?thesis by (intro gate2_keeps [OF assms(1) _ assms(3) d]) auto
  next
    case 5
    with k assms(3) show ?thesis by (auto simp: fed_def extends_refl)
  qed
qed

lemma net_keeps:
  assumes "keeps t rec" and "trace_net rec t r st = Inr (c, st')" and "closed_inv t st"
  shows "fed t r st c st'"
proof (cases "\<exists>li pin. driver_of t r = Some (DLeaf li pin)")
  case True
  then obtain li pin where d: "driver_of t r = Some (DLeaf li pin)" by blast
  with assms(2) have "trace_leaf rec t li pin st = Inr (c, st')" by (simp add: trace_net_def)
  from leaf_keeps [OF assms(1) this assms(3) d] show ?thesis .
next
  case False
  then have "\<not> feeds t r gs r'" for gs r' by (auto simp: feeds_def)
  moreover have "st' = st" using assms(2) False by (auto simp: trace_net_def split: option.splits driver.splits)
  ultimately show ?thesis using extends_refl [OF assms(3)] by (simp add: fed_def)
qed

lemma clock_of_keeps: "keeps t (clock_of n t)"
proof (induction n)
  case 0
  then show ?case by (simp add: keeps_def)
next
  case (Suc n)
  show ?case
    unfolding keeps_def
  proof (intro allI impI)
    fix r st c st'
    assume c: "clock_of (Suc n) t r st = Inr (c, st')" and st: "closed_inv t st"
    show "extends t st st' \<and> map_of (snd st') r = Some c"
    proof (cases "map_of (snd st) r")
      case (Some c0)
      with c st show ?thesis by (simp add: extends_refl)
    next
      case None
      let ?st1 = "(fst st, dict_set r (NoClock ''loop'') (snd st))"
      from c None obtain st2 where n: "trace_net (clock_of n t) t r ?st1 = Inr (c, st2)"
        and st': "st' = (fst st2, dict_set r c (snd st2))" by (auto simp: ebind_eq_Inr)
      have t': "trace_inv t st'" "map_of (snd st) \<subseteq>\<^sub>m map_of (snd st')"
        using clock_of_inv(1,2) [OF _ c] st by (simp_all add: closed_inv_def)
      have "memo_closed t ((map_of (snd st))(r \<mapsto> NoClock ''loop''))"
        using conjunct1 [OF conjunct2 [OF st [unfolded closed_inv_def]]] None
        unfolding memo_closed_def is_clock_def by (auto split: if_splits) (metis option.distinct(1))
      then have "closed_inv t ?st1"
        using st trace_inv_mark [of t st r] by (simp add: closed_inv_def dict_set_lookup dict_set_distinct)
      from net_keeps [OF Suc.IH n this] have f: "fed t r ?st1 c st2" .
      then have loop: "map_of (snd st2) r = Some (NoClock ''loop'')"
        by (auto simp: fed_def dict_set_lookup intro: extends_memo)
      have "memo_closed t (map_of (snd st2))" using f by (auto simp: fed_def extends_def closed_inv_def)
      then have "memo_closed t (map_of (snd st'))"
        using f loop unfolding st' memo_closed_def fed_def is_clock_def
        by (auto simp: dict_set_lookup split: if_splits) (metis clk.distinct(1) option.inject)
      moreover have "distinct (map fst (snd st2))" using f by (auto simp: fed_def extends_def closed_inv_def)
      ultimately show ?thesis
        using t' by (simp add: extends_def closed_inv_def st' dict_set_lookup dict_set_distinct)
    qed
  qed
qed

end
