(* ===== verification/Ce_Inv.thy ===== *)
theory Ce_Inv
  imports Ce_Edit Clock_Unique
begin

text \<open>
  What the steps of the clock-enable converter keep. First the variables that \<open>main\<close> computes
  before it edits (\<open>conv_of\<close>): the gated nets are those with gates in the tracer's memo, every place
  has a name. Then the edits: no step takes back an assign or an added connection, and the added
  connections that carry an enable are the ones of the netlist's own port connections.
\<close>

section \<open>The union-find structure\<close>

definition uf_ok :: "trace \<Rightarrow> uf \<Rightarrow> bool" where
  "uf_ok t u \<longleftrightarrow> uf_wf u \<and> rep u = rep (f_uf (t_flat t))"

lemma pin_net_ok:
  assumes "pin_net t li pin u = Inr (r, u')" and "uf_ok t u"
  shows "pin_on t li pin r" and "uf_ok t u'"
  using pin_net_on [OF assms(1)] assms(2) by (auto simp: uf_ok_def)

lemma uf_find_ok:
  assumes "uf_find k u = Inr (r, u')" and "uf_ok t u"
  shows "r = rep (f_uf (t_flat t)) k" and "uf_ok t u'"
proof -
  from uf_find_wf [of u k] assms(2) obtain u1 where
    "uf_find k u = Inr (rep u k, u1)" "uf_wf u1" "rep u1 = rep u" by (auto simp: uf_ok_def)
  with assms show "r = rep (f_uf (t_flat t)) k" "uf_ok t u'" by (auto simp: uf_ok_def)
qed

lemma uf_lookup_ok:
  assumes "uf_lookup pb u = Inr (r, u')" and "uf_ok t u"
  shows "r = rep (f_uf (t_flat t)) (net_key (fst pb) (snd pb))" and "uf_ok t u'"
proof -
  from uf_lookup_spec [of u pb] assms(2) obtain u1 where
    "uf_lookup pb u = Inr (rep u (net_key (fst pb) (snd pb)), u1)" "uf_wf u1" "rep u1 = rep u"
    by (auto simp: uf_ok_def)
  with assms show "r = rep (f_uf (t_flat t)) (net_key (fst pb) (snd pb))" "uf_ok t u'" by (auto simp: uf_ok_def)
qed

section \<open>Gated nets and gates\<close>

lemma gated_nets_Cons: "gated_nets ((k, c) # memo) =
    (case c of Clock rt iv gs \<Rightarrow> if gs \<noteq> [] then [(k, gs)] else [] | NoClock why \<Rightarrow> []) @ gated_nets memo"
  by (simp add: gated_nets_def)

lemma gated_nets_keys: "fst ` set (gated_nets memo) \<subseteq> fst ` set memo"
proof (induction memo)
  case Nil
  then show ?case by (simp add: gated_nets_def)
next
  case (Cons x memo)
  obtain k c where "x = (k, c)" by (cases x)
  with Cons show ?case by (cases c) (auto simp: gated_nets_Cons)
qed

lemma gated_nets_lookup:
  assumes "distinct (map fst memo)"
  shows "map_of (gated_nets memo) r = Some gs \<longleftrightarrow> gs \<noteq> [] \<and> (\<exists>rt iv. map_of memo r = Some (Clock rt iv gs))"
  using assms
proof (induction memo)
  case Nil
  then show ?case by (simp add: gated_nets_def)
next
  case (Cons x memo)
  obtain k c where x: "x = (k, c)" by (cases x)
  have "k \<notin> fst ` set (gated_nets memo)" using Cons.prems gated_nets_keys [of memo] by (auto simp: x)
  then have no: "map_of (gated_nets memo) k = None" by (simp add: map_of_eq_None_iff)
  have IH: "map_of (gated_nets memo) r = Some gs \<longleftrightarrow> gs \<noteq> [] \<and> (\<exists>rt iv. map_of memo r = Some (Clock rt iv gs))"
    using Cons by simp
  show ?case
  proof (cases "r = k")
    case True
    with no show ?thesis unfolding x by (cases c) (auto simp: gated_nets_Cons)
  next
    case False
    with IH show ?thesis unfolding x by (cases c) (auto simp: gated_nets_Cons)
  qed
qed

definition gates_from :: "(nat \<times> gate) list \<Rightarrow> gate list \<Rightarrow> (nat \<times> gate) list" where
  "gates_from d gs = foldl (\<lambda>d g. dict_set (gate_leaf g) g d) d gs"

lemma gates_from_lookup:
  "map_of (gates_from d gs) li = Some g \<Longrightarrow> g \<in> set gs \<and> gate_leaf g = li \<or> map_of d li = Some g"
proof (induction gs arbitrary: d)
  case (Cons x gs)
  from Cons.IH [of "dict_set (gate_leaf x) x d"] Cons.prems show ?case
    by (auto simp: gates_from_def dict_set_lookup split: if_splits)
qed (simp add: gates_from_def)

lemma gates_from_dom: "dom (map_of (gates_from d gs)) = dom (map_of d) \<union> gate_leaf ` set gs"
  by (induction gs arbitrary: d) (auto simp: gates_from_def dict_set_lookup)

lemma gate_table_from: "gate_table gn = gates_from [] (concat (map snd gn))"
  by (simp add: gate_table_def gates_from_def)

lemma gate_table_spec:
  "map_of (gate_table gn) li = Some g \<Longrightarrow> gate_leaf g = li \<and> (\<exists>gs \<in> snd ` set gn. g \<in> set gs)"
  using gates_from_lookup [of "[]" "concat (map snd gn)" li g] by (auto simp: gate_table_from)

lemma gate_table_dom:
  assumes "(r, gs) \<in> set gn" and "g \<in> set gs"
  shows "map_of (gate_table gn) (gate_leaf g) \<noteq> None"
proof -
  have "gate_leaf g \<in> dom (map_of (gate_table gn))"
    using assms unfolding gate_table_from gates_from_dom by force
  then show ?thesis by (simp add: domIff)
qed

section \<open>What conv\_of computes\<close>

lemma query_sink_keeps:
  assumes "query_sink limit t st s = Inr st'" and "closed_inv t st"
  shows "closed_inv t st'"
proof -
  obtain li pin ro where s: "s = (li, pin, ro)" by (cases s)
  from assms(1) obtain r u where p: "pin_net t li pin (fst st) = Inr (r, u)"
    and k: "(case r of None \<Rightarrow> Inr (u, snd st)
      | Some k \<Rightarrow> ebind (clock_of limit t r (u, snd st)) (\<lambda>(c, st'). Inr st')) = Inr st'"
    by (auto simp: query_sink_def s ebind_eq_Inr)
  note a = extends_inv [OF pin_net_extends(2) [OF p assms(2)]]
  show ?thesis
  proof (cases r)
    case None
    with a k show ?thesis by simp
  next
    case (Some k1)
    with k obtain c where "clock_of limit t r (u, snd st) = Inr (c, st')" by (auto simp: ebind_eq_Inr)
    from extends_inv [OF keepsD(1) [OF clock_of_keeps this a]] show ?thesis .
  qed
qed

text \<open>The places: where gated nets have local names.\<close>

definition place_ok :: "trace \<Rightarrow> path_mod \<Rightarrow> gated \<Rightarrow> place \<times> string list \<Rightarrow> bool" where
  "place_ok t pms gn x \<longleftrightarrow> (case x of ((path, r), names) \<Rightarrow>
     names \<noteq> [] \<and> path \<in> fst ` set pms \<and> map_of gn (Some r) \<noteq> None \<and>
     (\<forall>n \<in> set names. rep (f_uf (t_flat t)) (path @ CHR ''/'' # n) = r))"

definition places_inv :: "trace \<Rightarrow> path_mod \<Rightarrow> gated \<Rightarrow> uf \<times> local_names \<Rightarrow> bool" where
  "places_inv t pms gn st \<longleftrightarrow> uf_ok t (fst st) \<and> distinct (map fst (snd st)) \<and>
     (\<forall>x \<in> set (snd st). place_ok t pms gn x)"

lemma dict_get_mem: "map_of d k = Some v \<Longrightarrow> dict_get d k w = v"
  by (simp add: dict_get_def)

lemma local_name_inv:
  assumes "local_name gn path md st n = Inr st'" and "places_inv t pms gn st" and "path \<in> fst ` set pms"
  shows "places_inv t pms gn st'"
proof (cases "st' = st")
  case True
  with assms(2) show ?thesis by simp
next
  case False
  with assms(1) obtain r u where f: "uf_find (path @ CHR ''/'' # n) (fst st) = Inr (r, u)"
    and st': "st' = (u, if map_of gn (Some r) \<noteq> None then dict_append (path, r) n (snd st) else snd st)"
    by (auto simp: local_name_def Let_def ebind_eq_Inr split: if_splits)
  have u: "uf_ok t (fst st)" using assms(2) by (simp add: places_inv_def)
  note r = uf_find_ok [OF f u]
  have old: "place_ok t pms gn x" if "x \<in> set (snd st)" for x using assms(2) that by (simp add: places_inv_def)
  have new: "place_ok t pms gn ((path, r), dict_get (snd st) (path, r) [] @ [n])" if "map_of gn (Some r) \<noteq> None"
  proof (cases "map_of (snd st) (path, r)")
    case None
    with that assms(3) r(1) show ?thesis by (simp add: place_ok_def dict_get_def)
  next
    case (Some ns)
    have g: "dict_get (snd st) (path, r) [] = ns" using Some by (rule dict_get_mem)
    from old [OF map_of_SomeD [OF Some]] that assms(3) r(1) show ?thesis
      unfolding g by (simp add: place_ok_def)
  qed
  show ?thesis
  proof (cases "map_of gn (Some r) = None")
    case True
    with assms(2) r(2) show ?thesis by (simp add: st' places_inv_def)
  next
    case False
    have "place_ok t pms gn x" if "x \<in> set (dict_set (path, r) (dict_get (snd st) (path, r) [] @ [n]) (snd st))" for x
      using dict_set_mem [OF that] new [OF False] old by blast
    moreover have "distinct (map fst (dict_set (path, r) (dict_get (snd st) (path, r) [] @ [n]) (snd st)))"
      using assms(2) by (intro dict_set_distinct) (simp add: places_inv_def)
    moreover have "st' = (u, dict_set (path, r) (dict_get (snd st) (path, r) [] @ [n]) (snd st))"
      using False by (simp add: st' dict_append_def)
    ultimately show ?thesis using r(2) unfolding places_inv_def by (simp only: fst_conv snd_conv) blast
  qed
qed

lemma places_of:
  assumes "efold (local_module horder mods gn) (u1, []) pms = Inr (u2, loc)" and "uf_ok t u1"
  shows "places_inv t pms gn (u2, loc)"
proof (rule efold_inv [where P = "places_inv t pms gn", OF assms(1)])
  show "places_inv t pms gn (u1, [])" using assms(2) by (simp add: places_inv_def)
next
  fix s x s'
  assume x: "x \<in> set pms" and s: "places_inv t pms gn s" and f: "local_module horder mods gn s x = Inr s'"
  from f obtain md where e: "efold (local_name gn (fst x) md) s (horder (module_names md)) = Inr s'"
    by (auto simp: local_module_def split: option.splits)
  show "places_inv t pms gn s'"
    by (rule efold_inv [where P = "places_inv t pms gn", OF e s]) (use x in \<open>auto intro: local_name_inv\<close>)
qed

section \<open>Canonical names\<close>

text \<open>The name chosen for a place is one of its local names, an input port when the driver is above.\<close>

definition canon_ok :: "trace \<Rightarrow> path_mod \<Rightarrow> local_names \<Rightarrow> place \<Rightarrow> string \<Rightarrow> bool" where
  "canon_ok t pms loc pl c \<longleftrightarrow> (\<exists>names md rel. (pl, names) \<in> set loc \<and> c \<in> set names \<and>
     module_at (f_mods (t_flat t)) pms (fst pl) = Inr md \<and> relation t (fst pl) (snd pl) = Inr rel \<and>
     (rel = Parent \<longrightarrow> map_of (md_dirs md) c = Some ''input''))"

lemma dir_names_mem: "n \<in> set (dir_names md d names) \<longleftrightarrow> n \<in> set names \<and> map_of (md_dirs md) n = Some d"
  by (auto simp: dir_names_def)

lemma canon_step_ok:
  assumes "canon_step t pms cn (pl, names) = Inr cn'" and "(pl, names) \<in> set loc"
  shows "\<exists>c. cn' = dict_set pl c cn \<and> canon_ok t pms loc pl c"
proof -
  obtain path r where pl: "pl = (path, r)" by (cases pl)
  from assms(1) obtain md rel where m: "module_at (f_mods (t_flat t)) pms path = Inr md"
    and rel: "relation t path r = Inr rel"
    and k: "(let ins = dir_names md ''input'' names; outs = dir_names md ''output'' names in
          if rel = Parent
          then (case ins of
                  [] \<Rightarrow> Inl (SysExit ((if path = [] then f_top (t_flat t) else path) @ '': gated clock '' @
                    repr_list names @ '' enters without an input port''))
                | i # _ \<Rightarrow> Inr (dict_set (path, r) i cn))
          else ebind (case outs of
                  [] \<Rightarrow> ebind (py_nth (sort names) 0) Inr
                | q # _ \<Rightarrow> Inr q) (\<lambda>c. Inr (dict_set (path, r) c cn))) = (Inr cn' :: canon res)"
    by (auto simp: canon_step_def pl ebind_eq_Inr)
  have first: "i \<in> set names \<and> map_of (md_dirs md) i = Some d" if "dir_names md d names = i # rest" for i d rest
    using dir_names_mem [of i md d names] that by simp
  show ?thesis
  proof (cases "rel = Parent")
    case True
    with k obtain i rest where i: "dir_names md ''input'' names = i # rest" "cn' = dict_set pl i cn"
      by (auto simp: Let_def pl split: list.splits)
    with first [OF i(1)] m rel assms(2) pl show ?thesis by (auto simp: canon_ok_def)
  next
    case False
    with k obtain c where c: "cn' = dict_set pl c cn"
      and e: "(case dir_names md ''output'' names of [] \<Rightarrow> ebind (py_nth (sort names) 0) Inr | q # _ \<Rightarrow> Inr q) = (Inr c :: string res)"
      by (auto simp: Let_def pl ebind_eq_Inr)
    have "c \<in> set names"
    proof (cases "dir_names md ''output'' names")
      case Nil
      with e have "c = sort names ! 0" "0 < length names" by (auto simp: ebind_eq_Inr py_nth_Inr)
      then have "c \<in> set (sort names)" by (metis length_sort nth_mem)
      then show ?thesis by simp
    next
      case (Cons q qs)
      with e first [OF Cons] show ?thesis by simp
    qed
    with False m rel assms(2) pl c show ?thesis by (auto simp: canon_ok_def)
  qed
qed

lemma canon_of:
  assumes "efold (canon_step t pms) [] loc = Inr cn"
  shows "(map_of cn pl = Some c \<longrightarrow> canon_ok t pms loc pl c) \<and> dom (map_of cn) = fst ` set loc"
proof -
  have "(\<forall>pl c. map_of cn pl = Some c \<longrightarrow> canon_ok t pms loc pl c) \<and> dom (map_of cn) = fst ` set loc"
  proof (rule efold_prefix_inv [where P = "\<lambda>us cn. (\<forall>pl c. map_of cn pl = Some c \<longrightarrow> canon_ok t pms loc pl c) \<and>
      dom (map_of cn) = fst ` set us", OF assms])
    fix us s x s'
    assume p: "prefix (us @ [x]) loc" and i: "(\<forall>pl c. map_of s pl = Some c \<longrightarrow> canon_ok t pms loc pl c) \<and>
      dom (map_of s) = fst ` set us" and f: "canon_step t pms s x = Inr s'"
    obtain pl names where x: "x = (pl, names)" by (cases x)
    have "(pl, names) \<in> set loc" using p by (auto simp: x elim: prefixE)
    from canon_step_ok [OF f [unfolded x] this] obtain c where "s' = dict_set pl c s" "canon_ok t pms loc pl c" by blast
    with i show "(\<forall>pl c. map_of s' pl = Some c \<longrightarrow> canon_ok t pms loc pl c) \<and> dom (map_of s') = fst ` set (us @ [x])"
      by (auto simp: dict_set_lookup x)
  qed simp
  then show ?thesis by blast
qed

text \<open>What \<open>conv_of\<close> promises.\<close>

definition conv_ok :: "conv \<Rightarrow> uf \<Rightarrow> bool" where
  "conv_ok v u \<longleftrightarrow> uf_ok (v_trace v) u \<and> v_gates v = gate_table (v_gated v) \<and>
     distinct (map fst (v_local v)) \<and>
     (\<forall>x \<in> set (v_local v). place_ok (v_trace v) (v_paths v) (v_gated v) x) \<and>
     (\<forall>pl c. map_of (v_canon v) pl = Some c \<longrightarrow> canon_ok (v_trace v) (v_paths v) (v_local v) pl c) \<and>
     dom (map_of (v_canon v)) = fst ` set (v_local v) \<and>
     (\<exists>memo u. v_gated v = gated_nets memo \<and> closed_inv (v_trace v) (u, memo))"

lemma conv_of_ok:
  assumes "conv_of limit horder t = Inr (v, u)" and "trace_inv t (clk_start t)"
  shows "conv_ok v u" and "v_trace v = t"
proof -
  let ?mods = "f_mods (t_flat t)" and ?top = "f_top (t_flat t)"
  from assms(1) obtain pms ss u1 memo loc cn where
    1: "efold (query_sink limit t) (f_uf (t_flat t), []) ss = Inr (u1, memo)"
    and 2: "efold (local_module horder ?mods (gated_nets memo)) (u1, []) pms = Inr (u, loc)"
    and 3: "efold (canon_step t pms) [] loc = Inr cn"
    and v: "v = \<lparr>v_trace = t, v_paths = pms, v_sinks = ss, v_gated = gated_nets memo,
      v_gates = gate_table (gated_nets memo), v_local = loc, v_canon = cn\<rparr>"
    by (auto simp: conv_of_def Let_def ebind_eq_Inr)
  have "closed_inv t (f_uf (t_flat t), [])"
    using assms(2) by (simp add: closed_inv_def memo_closed_def clk_start_def)
  then have c: "closed_inv t (u1, memo)"
    by (rule efold_inv [where P = "closed_inv t", OF 1]) (rule query_sink_keeps)
  then have "uf_ok t u1" by (simp add: closed_inv_def trace_inv_def uf_ok_def)
  from places_of [OF 2 this] have pl: "places_inv t pms (gated_nets memo) (u, loc)" .
  show "v_trace v = t" by (simp add: v)
  show "conv_ok v u"
    using pl canon_of [OF 3] c unfolding conv_ok_def places_inv_def v by simp blast
qed

end
