(* ===== verification/Ce_Mono.thy ===== *)
theory Ce_Mono
  imports Ce_Inv
begin

text \<open>
  The edits only grow: no step of the converter takes back an assign or an added connection, and an
  added connection whose pin carries an enable (its name ends in \<open>__fien\<close>) is always the one of the
  netlist's own connection of that port.
\<close>

section \<open>Reading the edits\<close>

definition assigns_of :: "edits \<Rightarrow> string \<Rightarrow> string list" where
  "assigns_of es m = dict_get (e_assigns es) m []"

definition adds_of :: "edits \<Rightarrow> string \<Rightarrow> string \<Rightarrow> conns" where
  "adds_of es m i = (case map_of (dict_get (e_insts es) m []) i of None \<Rightarrow> [] | Some e \<Rightarrow> fst (snd e))"

named_theorems edit_simps \<open>what the elementary edits change\<close>

lemma dict_update_lookup [edit_simps]:
  "map_of (dict_update d e) k = (case map_of (rev e) k of None \<Rightarrow> map_of d k | Some v \<Rightarrow> Some v)"
proof (induction e arbitrary: d)
  case (Cons x e)
  have "dict_update d (x # e) = dict_update (dict_set (fst x) (snd x) d) e" by (simp add: dict_update_def)
  with Cons [of "dict_set (fst x) (snd x) d"] show ?case
    by (cases x) (auto simp: dict_set_lookup map_add_def split: option.splits)
qed (simp add: dict_update_def)

lemma dict_update_Nil [simp]: "dict_update d [] = d"
  by (simp add: dict_update_def)

lemma assigns_simps [edit_simps]:
  "assigns_of (add_port m dn es) m' = assigns_of es m'"
  "assigns_of (add_wire m w es) m' = assigns_of es m'"
  "assigns_of (add_assign m a es) m' = (if m' = m then assigns_of es m @ [a] else assigns_of es m')"
  "assigns_of (edit m i c add repl es) m' = assigns_of es m'"
  "assigns_of (kill_output m es) m' = assigns_of es m'"
  by (simp_all add: assigns_of_def add_port_def add_wire_def add_assign_def edit_def kill_output_def Let_def
      dict_append_get split: prod.split)

lemma adds_simps [edit_simps]:
  "adds_of (add_port m dn es) m' i' = adds_of es m' i'"
  "adds_of (add_wire m w es) m' i' = adds_of es m' i'"
  "adds_of (add_assign m a es) m' i' = adds_of es m' i'"
  "adds_of (kill_output m es) m' i' = adds_of es m' i'"
  by (simp_all add: adds_of_def add_port_def add_wire_def add_assign_def kill_output_def)

lemma adds_edit [edit_simps]:
  "adds_of (edit m i c add repl es) m' i' =
     (if m' = m \<and> i' = i then dict_update (adds_of es m i) add else adds_of es m' i')"
proof -
  obtain c0 a r where e: "dict_get (dict_get (e_insts es) m []) i (None, [], []) = (c0, a, r)"
    by (metis surj_pair)
  then have "a = adds_of es m i"
    by (auto simp: dict_get_def [of "dict_get (e_insts es) m []"] adds_of_def split: option.splits)
  then show ?thesis
    by (simp add: edit_def Let_def e adds_of_def dict_get_set dict_set_lookup)
qed

section \<open>The order on edits\<close>

definition ed_le :: "edits \<Rightarrow> edits \<Rightarrow> bool" where
  "ed_le es es' \<longleftrightarrow> (\<forall>m. prefix (assigns_of es m) (assigns_of es' m)) \<and>
     (\<forall>m i. dom (map_of (adds_of es m i)) \<subseteq> dom (map_of (adds_of es' m i)))"

lemma ed_le_refl [simp]: "ed_le es es"
  by (simp add: ed_le_def)

lemma ed_le_trans: "ed_le a b \<Longrightarrow> ed_le b c \<Longrightarrow> ed_le a c"
  unfolding ed_le_def by (meson prefix_order.trans subset_trans)

lemma ed_le_assign: "ed_le es es' \<Longrightarrow> a \<in> set (assigns_of es m) \<Longrightarrow> a \<in> set (assigns_of es' m)"
  unfolding ed_le_def by (metis set_mono_prefix subsetD)

lemma ed_le_add: "ed_le es es' \<Longrightarrow> map_of (adds_of es m i) k \<noteq> None \<Longrightarrow> map_of (adds_of es' m i) k \<noteq> None"
  unfolding ed_le_def by (metis domI domIff subsetD not_None_eq)

lemma ed_le_steps [simp]:
  "ed_le es (add_port m dn es)" "ed_le es (add_wire m w es)" "ed_le es (add_assign m a es)"
  "ed_le es (edit m i c add repl es)" "ed_le es (kill_output m es)"
  by (auto simp: ed_le_def edit_simps dom_def split: option.splits)

section \<open>Connections that carry an enable\<close>

text \<open>The net of an expression of one bit, at the path \<open>p\<close>.\<close>

definition net_of :: "trace \<Rightarrow> module \<Rightarrow> string \<Rightarrow> string \<Rightarrow> string option" where
  "net_of t md p e =
     (case expr_bits e (md_width md) of
        Inr [b] \<Rightarrow> if is_const_bit b then None else Some (rep (f_uf (t_flat t)) (net_key p b))
      | _ \<Rightarrow> None)"

definition is_enable_name :: "string \<Rightarrow> bool" where
  "is_enable_name k \<longleftrightarrow> suffix ''__fien'' k"

definition enable_conn :: "conv \<Rightarrow> string \<Rightarrow> string \<Rightarrow> string \<Rightarrow> string \<Rightarrow> bool" where
  "enable_conn v m i k x \<longleftrightarrow> (\<exists>p md inst pin e r c. (p, m) \<in> set (v_paths v) \<and>
     map_of (f_mods (t_flat (v_trace v))) m = Some md \<and> inst \<in> set (md_insts md) \<and> i_name inst = i \<and>
     (pin, e) \<in> set (i_conns inst) \<and> net_of (v_trace v) md p e = Some r \<and> k = fien_name pin \<and>
     map_of (v_canon v) (p, r) = Some c \<and> x = fien_name c)"

definition adds_ok :: "conv \<Rightarrow> edits \<Rightarrow> bool" where
  "adds_ok v es \<longleftrightarrow> (\<forall>m i k x. is_enable_name k \<longrightarrow> map_of (adds_of es m i) k = Some x \<longrightarrow> enable_conn v m i k x)"

lemma adds_ok_init: "adds_ok v no_edits"
  by (simp add: adds_ok_def adds_of_def no_edits_def dict_get_def)

lemma adds_ok_steps [simp]:
  "adds_ok v (add_port m dn es) \<longleftrightarrow> adds_ok v es" "adds_ok v (add_wire m w es) \<longleftrightarrow> adds_ok v es"
  "adds_ok v (add_assign m a es) \<longleftrightarrow> adds_ok v es" "adds_ok v (kill_output m es) \<longleftrightarrow> adds_ok v es"
  by (simp_all add: adds_ok_def edit_simps)

lemma adds_ok_edit:
  assumes "adds_ok v es" and "\<And>k x. (k, x) \<in> set add \<Longrightarrow> is_enable_name k \<Longrightarrow> enable_conn v m i k x"
  shows "adds_ok v (edit m i c add repl es)"
  using assms unfolding adds_ok_def
  by (auto simp: edit_simps split: if_splits option.splits dest!: map_of_SomeD)

lemma fien_fien: "fien cn path r = Inr x \<longleftrightarrow> (\<exists>k c. r = Some k \<and> map_of cn (path, k) = Some c \<and> x = fien_name c)"
  by (auto simp: fien_def split: option.splits)

text \<open>The invariant of the edit loops, and how a step relates its states.\<close>

definition edit_inv :: "conv \<Rightarrow> uf \<times> edits \<Rightarrow> bool" where
  "edit_inv v st \<longleftrightarrow> uf_ok (v_trace v) (fst st) \<and> adds_ok v (snd st)"

definition edit_step :: "conv \<Rightarrow> uf \<times> edits \<Rightarrow> uf \<times> edits \<Rightarrow> bool" where
  "edit_step v st st' \<longleftrightarrow> edit_inv v st' \<and> ed_le (snd st) (snd st')"

lemma edit_stepI: "uf_ok (v_trace v) u \<Longrightarrow> adds_ok v es' \<Longrightarrow> ed_le es es' \<Longrightarrow> edit_step v (u0, es) (u, es')"
  by (simp add: edit_step_def edit_inv_def)

lemma edit_loop:
  assumes "efold f st xs = Inr st'" and "edit_inv v st"
    and "\<And>st x st'. x \<in> set xs \<Longrightarrow> edit_inv v st \<Longrightarrow> f st x = Inr st' \<Longrightarrow> edit_step v st st'"
  shows "edit_step v st st'"
proof -
  have "edit_inv v st' \<and> ed_le (snd st) (snd st')"
    by (rule efold_rel [where R = "\<lambda>a b. ed_le (snd a) (snd b)" and J = "edit_inv v", OF assms(1,2)])
      (use assms(3) in \<open>auto simp: edit_step_def intro: ed_le_trans\<close>)
  then show ?thesis by (simp add: edit_step_def)
qed

section \<open>Gated nets\<close>

lemma companion_keeps:
  "adds_ok v (foldl (companion m md c) es ns) \<longleftrightarrow> adds_ok v es"
  "ed_le es (foldl (companion m md c) es ns)"
proof -
  have one: "adds_ok v (companion m md c es n) \<longleftrightarrow> adds_ok v es" "ed_le es (companion m md c es n)" for es n
    by (auto simp: companion_def Let_def split: option.split intro: ed_le_trans [OF ed_le_steps(1) ed_le_steps(3)])
  show "adds_ok v (foldl (companion m md c) es ns) \<longleftrightarrow> adds_ok v es"
    by (induction ns arbitrary: es) (simp_all add: one)
  show "ed_le es (foldl (companion m md c) es ns)"
    by (induction ns arbitrary: es) (auto intro: ed_le_trans one(2))
qed

lemma companion_assign:
  "n \<in> set ns \<Longrightarrow> map_of (md_dirs md) n = Some ''output'' \<Longrightarrow> n \<noteq> c \<Longrightarrow>
    fien_name n @ '' = '' @ fien_name c \<in> set (assigns_of (foldl (companion m md c) es ns) m)"
proof (induction ns arbitrary: es)
  case (Cons x ns)
  show ?case
  proof (cases "x = n")
    case True
    with Cons.prems have "fien_name n @ '' = '' @ fien_name c \<in> set (assigns_of (companion m md c es x) m)"
      by (simp add: companion_def edit_simps)
    from ed_le_assign [OF companion_keeps(2) this] show ?thesis by simp
  next
    case False
    with Cons show ?thesis by simp
  qed
qed simp

lemma bypass_keeps:
  assumes "bypass_gate m inst pin in_pin es = Inr es'" and "adds_ok v es"
  shows "adds_ok v es'" and "ed_le es es'"
proof -
  from assms(1) obtain out ck where es': "es' = add_assign m (out @ '' = '' @ ck) (edit m (i_name inst) None []
      [(pin, dead_name (dead_count es))] (add_wire m (dead_name (dead_count es)) (kill_output m es)))"
    by (auto simp: bypass_gate_def Let_def ebind_eq_Inr)
  show "adds_ok v es'" unfolding es' using assms(2) by (simp, intro adds_ok_edit) simp_all
  show "ed_le es es'" unfolding es'
    by (rule ed_le_trans [OF ed_le_steps(5) ed_le_trans [OF ed_le_steps(2) ed_le_trans [OF ed_le_steps(4) ed_le_steps(3)]]])
qed

text \<open>The assign that drives the enable of the net \<open>r\<close> where its driver stands.\<close>

definition enable_assign :: "conv \<Rightarrow> string \<Rightarrow> string \<Rightarrow> string \<Rightarrow> bool" where
  "enable_assign v path r rhs \<longleftrightarrow> (\<exists>li pin inst owner.
     map_of (t_driver (v_trace v)) r = Some (DLeaf li pin) \<and>
     py_nth (f_leaves (t_flat (v_trace v))) li = Inr (path, inst, owner) \<and>
     (case map_of (v_gates v) li of
        Some g \<Rightarrow> \<exists>in_pin en r_in. gate_enable (v_trace v) path li inst g = Inr (in_pin, en) \<and>
          pin_on (v_trace v) li in_pin r_in \<and> gate_expr v path r_in en = Inr rhs
      | None \<Rightarrow> \<exists>ro ip ips r_in. has_role (v_trace v) li ro \<and>
          (ro = Buf \<and> fst (c_buf (t_cells (v_trace v))) = ip # ips \<or>
           ro = Inv \<and> fst (c_inv (t_cells (v_trace v))) = ip # ips) \<and>
          pin_on (v_trace v) li ip r_in \<and> fien (v_canon v) path r_in = Inr rhs))"

lemma edit_gate_keeps:
  assumes "edit_gate v path m c li pin inst g st = Inr st'" and "edit_inv v st"
  shows "edit_step v st st' \<and> (\<exists>in_pin en r_in rhs. gate_enable (v_trace v) path li inst g = Inr (in_pin, en) \<and>
    pin_on (v_trace v) li in_pin r_in \<and> gate_expr v path r_in en = Inr rhs \<and>
    fien_name c @ '' = '' @ rhs \<in> set (assigns_of (snd st') m))"
proof -
  from assms(1) obtain in_pin en r_in u rhs es where
    1: "gate_enable (v_trace v) path li inst g = Inr (in_pin, en)"
    and 2: "pin_net (v_trace v) li in_pin (fst st) = Inr (r_in, u)"
    and 3: "gate_expr v path r_in en = Inr rhs"
    and 4: "bypass_gate m inst pin in_pin (add_assign m (fien_name c @ '' = '' @ rhs) (snd st)) = Inr es"
    and st': "st' = (u, es)"
    by (auto simp: edit_gate_def ebind_eq_Inr)
  from assms(2) have i: "uf_ok (v_trace v) (fst st)" "adds_ok v (snd st)" by (simp_all add: edit_inv_def)
  note p = pin_net_ok [OF 2 i(1)]
  have "adds_ok v (add_assign m (fien_name c @ '' = '' @ rhs) (snd st))" using i(2) by simp
  note b = bypass_keeps [OF 4 this]
  have "ed_le (snd st) es" by (rule ed_le_trans [OF ed_le_steps(3) b(2)])
  then have "edit_step v st st'" using p(2) b(1) by (simp add: edit_step_def edit_inv_def st')
  moreover have "fien_name c @ '' = '' @ rhs \<in> set (assigns_of es m)"
    by (rule ed_le_assign [OF b(2)]) (simp add: edit_simps)
  ultimately show ?thesis using 1 3 p(1) st' by auto
qed

lemma edit_buffer_keeps:
  assumes "edit_buffer v path m c li ro st = Inr st'" and "edit_inv v st" and "ro = Buf \<or> ro = Inv"
  shows "edit_step v st st' \<and> (\<exists>ip ips r_in rhs. (ro = Buf \<and> fst (c_buf (t_cells (v_trace v))) = ip # ips \<or>
      ro = Inv \<and> fst (c_inv (t_cells (v_trace v))) = ip # ips) \<and> pin_on (v_trace v) li ip r_in \<and>
    fien (v_canon v) path r_in = Inr rhs \<and> fien_name c @ '' = '' @ rhs \<in> set (assigns_of (snd st') m))"
proof -
  from assms(1) obtain ip r_in u rhs where
    1: "py_nth (fst ((if ro = Buf then c_buf else c_inv) (t_cells (v_trace v)))) 0 = Inr ip"
    and 2: "pin_net (v_trace v) li ip (fst st) = Inr (r_in, u)" and 3: "fien (v_canon v) path r_in = Inr rhs"
    and st': "st' = (u, add_assign m (fien_name c @ '' = '' @ rhs) (snd st))"
    by (auto simp: edit_buffer_def Let_def ebind_eq_Inr)
  from assms(2) have i: "uf_ok (v_trace v) (fst st)" "adds_ok v (snd st)" by (simp_all add: edit_inv_def)
  note p = pin_net_ok [OF 2 i(1)]
  from py_nth_0 [OF 1] assms(3) obtain ips where "ro = Buf \<and> fst (c_buf (t_cells (v_trace v))) = ip # ips \<or>
      ro = Inv \<and> fst (c_inv (t_cells (v_trace v))) = ip # ips" by (auto split: if_splits)
  moreover have "edit_step v st st'" using p(2) i(2) by (simp add: st' edit_step_def edit_inv_def)
  moreover have "fien_name c @ '' = '' @ rhs \<in> set (assigns_of (snd st') m)" by (simp add: st' edit_simps)
  ultimately show ?thesis using p(1) 3 by blast
qed

lemma edit_driver_keeps:
  assumes "edit_driver v path m r c st = Inr st'" and "edit_inv v st" and "relation (v_trace v) path r = Inr Local"
  shows "edit_step v st st' \<and> (\<exists>rhs. enable_assign v path r rhs \<and>
    fien_name c @ '' = '' @ rhs \<in> set (assigns_of (snd st') m))"
proof -
  from assms(1) obtain li pin where d: "map_of (t_driver (v_trace v)) r = Some (DLeaf li pin)"
    by (auto simp: edit_driver_def split: option.splits driver.splits)
  from assms(1) [unfolded edit_driver_def d option.case driver.case] obtain x where
    x: "py_nth (f_leaves (t_flat (v_trace v))) li = Inr x"
    and k1: "(\<lambda>(p, inst, owner). ebind (py_nth (t_role (v_trace v)) li) (\<lambda>ro.
        case map_of (v_gates v) li of
        Some g \<Rightarrow> edit_gate v path m c li pin inst g st
      | None \<Rightarrow> if ro = Buf \<or> ro = Inv then edit_buffer v path m c li ro st
          else Inl (SysExit (leaf_name (v_trace v) li @ '': unexpected driver of a gated clock ('' @
                  role_name ro @ '')'')))) x = Inr st'"
    by (rule ebind_InrE)
  obtain p inst owner where xs: "x = (p, inst, owner)" by (metis surj_pair)
  have l: "py_nth (f_leaves (t_flat (v_trace v))) li = Inr (p, inst, owner)" using x xs by simp
  from k1 [unfolded xs prod.case] obtain ro where ro: "py_nth (t_role (v_trace v)) li = Inr ro"
    and k: "(case map_of (v_gates v) li of
        Some g \<Rightarrow> edit_gate v path m c li pin inst g st
      | None \<Rightarrow> if ro = Buf \<or> ro = Inv then edit_buffer v path m c li ro st
          else Inl (SysExit (leaf_name (v_trace v) li @ '': unexpected driver of a gated clock ('' @
                  role_name ro @ '')''))) = Inr st'"
    by (rule ebind_InrE)
  have p: "p = path" using assms(3) by (auto simp: relation_def d l split: if_splits)
  have role: "has_role (v_trace v) li ro" using ro by (auto simp: has_role_def py_nth_Inr)
  show ?thesis
  proof (cases "map_of (v_gates v) li")
    case (Some g)
    with k have "edit_gate v path m c li pin inst g st = Inr st'" by simp
    from edit_gate_keeps [OF this assms(2)] show ?thesis
      using d l Some unfolding enable_assign_def p by fastforce
  next
    case None
    with k have b: "edit_buffer v path m c li ro st = Inr st'" "ro = Buf \<or> ro = Inv" by (auto split: if_splits)
    from edit_buffer_keeps [OF b(1) assms(2) b(2)] show ?thesis
      using d l None role unfolding enable_assign_def p by fastforce
  qed
qed

text \<open>What the edit of one place leaves in its module.\<close>

definition net_assigns :: "conv \<Rightarrow> place \<times> string list \<Rightarrow> edits \<Rightarrow> bool" where
  "net_assigns v x es \<longleftrightarrow> (case x of ((path, r), names) \<Rightarrow>
     \<exists>m md c. map_of (v_paths v) path = Some m \<and> map_of (f_mods (t_flat (v_trace v))) m = Some md \<and>
       map_of (v_canon v) (path, r) = Some c \<and>
       (\<forall>n \<in> set names. map_of (md_dirs md) n = Some ''output'' \<longrightarrow> n \<noteq> c \<longrightarrow>
          fien_name n @ '' = '' @ fien_name c \<in> set (assigns_of es m)) \<and>
       (relation (v_trace v) path r = Inr Local \<longrightarrow> (\<exists>rhs. enable_assign v path r rhs \<and>
          fien_name c @ '' = '' @ rhs \<in> set (assigns_of es m))))"

lemma net_assigns_mono: "net_assigns v x es \<Longrightarrow> ed_le es es' \<Longrightarrow> net_assigns v x es'"
  unfolding net_assigns_def by (fastforce intro: ed_le_assign split: prod.splits)

lemma edit_net_keeps:
  assumes "edit_net v st x = Inr st'" and "edit_inv v st"
  shows "edit_step v st st' \<and> net_assigns v x (snd st')"
proof -
  obtain path r names where x: "x = ((path, r), names)" by (metis surj_pair)
  let ?mods = "f_mods (t_flat (v_trace v))"
  from assms(1) obtain m md c rel where m: "map_of (v_paths v) path = Some m"
    and ma: "module_at ?mods (v_paths v) path = Inr md"
    and c: "map_of (v_canon v) (path, r) = Some c" and rel: "relation (v_trace v) path r = Inr rel"
    and k: "(let es1 = foldl (companion m md c) (snd st) names;
          es2 = (if map_of (md_dirs md) c = None then add_wire m (fien_name c) es1 else es1) in
        if rel = Local then edit_driver v path m r c (fst st, es2) else Inr (fst st, es2)) = Inr st'"
    by (auto simp: edit_net_def x Let_def ebind_eq_Inr dict_item_def split: option.splits)
  have md: "map_of ?mods m = Some md" using ma m by (auto simp: module_at_def split: option.splits)
  define es1 where "es1 = foldl (companion m md c) (snd st) names"
  define es2 where "es2 = (if map_of (md_dirs md) c = None then add_wire m (fien_name c) es1 else es1)"
  have k': "(if rel = Local then edit_driver v path m r c (fst st, es2) else Inr (fst st, es2)) = Inr st'"
    using k unfolding es2_def es1_def Let_def .
  have le: "ed_le es1 es2" by (simp add: es2_def)
  have comp: "fien_name n @ '' = '' @ fien_name c \<in> set (assigns_of es2 m)"
    if "n \<in> set names" "map_of (md_dirs md) n = Some ''output''" "n \<noteq> c" for n
    using ed_le_assign [OF le] companion_assign [OF that] by (simp add: es1_def)
  have s2: "edit_step v st (fst st, es2)"
    using assms(2) ed_le_trans [OF companion_keeps(2) le [unfolded es1_def]]
    by (simp add: edit_step_def edit_inv_def es2_def es1_def companion_keeps(1))
  then have i2: "edit_inv v (fst st, es2)" by (simp add: edit_step_def)
  show ?thesis
  proof (cases "rel = Local")
    case True
    with k' have d: "edit_driver v path m r c (fst st, es2) = Inr st'" by simp
    note e = edit_driver_keeps [OF d i2 rel [unfolded True]]
    then have le2: "ed_le es2 (snd st')" by (simp add: edit_step_def)
    have "edit_step v st st'" using e s2 unfolding edit_step_def by (auto intro: ed_le_trans)
    moreover have "net_assigns v x (snd st')"
      unfolding net_assigns_def x prod.case using m md c comp e ed_le_assign [OF le2] by blast
    ultimately show ?thesis ..
  next
    case False
    with k' have st': "st' = (fst st, es2)" by simp
    have "net_assigns v x (snd st')"
      unfolding net_assigns_def x prod.case st' snd_conv using m md c comp rel False by auto
    with s2 st' show ?thesis by simp
  qed
qed

lemma edit_nets_keeps:
  assumes "edit_nets v st = Inr st'" and "edit_inv v st"
  shows "edit_step v st st' \<and> (\<forall>x \<in> set (v_local v). net_assigns v x (snd st'))"
proof (intro conjI ballI)
  from assms(1) have f: "efold (edit_net v) st (sort_key fst (v_local v)) = Inr st'" by (simp add: edit_nets_def)
  show "edit_step v st st'"
    by (rule edit_loop [OF f assms(2)]) (use edit_net_keeps in blast)
  fix x
  assume "x \<in> set (v_local v)"
  then have x: "x \<in> set (sort_key fst (v_local v))" by simp
  show "net_assigns v x (snd st')"
  proof (rule efold_hit [where I = "edit_inv v" and Q = "\<lambda>st. net_assigns v x (snd st)", OF f x assms(2)])
    fix s y s'
    assume 1: "edit_inv v s" "edit_net v s y = Inr s'"
    show "edit_inv v s'" using edit_net_keeps [OF 1(2,1)] by (simp add: edit_step_def)
    assume "net_assigns v x (snd s)"
    then show "net_assigns v x (snd s')"
      using edit_net_keeps [OF 1(2,1)] net_assigns_mono by (auto simp: edit_step_def)
  next
    fix s s'
    assume "edit_inv v s" "edit_net v s x = Inr s'"
    then show "net_assigns v x (snd s')" using edit_net_keeps by blast
  qed
qed

section \<open>Child instance connections\<close>

text \<open>The connection \<open>c\<close> of the instance has its enable beside it.\<close>

definition conn_done :: "conv \<Rightarrow> string \<Rightarrow> string \<Rightarrow> module \<Rightarrow> inst \<Rightarrow> string \<times> string \<Rightarrow> edits \<Rightarrow> bool" where
  "conn_done v path m md inst c es \<longleftrightarrow>
     (\<forall>r. net_of (v_trace v) md path (snd c) = Some r \<longrightarrow> map_of (v_gated v) (Some r) \<noteq> None \<longrightarrow>
        map_of (v_canon v) (path, r) \<noteq> None \<and>
        map_of (adds_of es m (i_name inst)) (fien_name (fst c)) \<noteq> None)"

lemma conn_done_mono: "conn_done v path m md inst c es \<Longrightarrow> ed_le es es' \<Longrightarrow> conn_done v path m md inst c es'"
  unfolding conn_done_def by (blast dest: ed_le_add)

lemma child_conn_keeps:
  assumes "child_conn v path m md inst st c = Inr st'" and "edit_inv v st"
    and "(path, m) \<in> set (v_paths v)" and "map_of (f_mods (t_flat (v_trace v))) m = Some md"
    and "inst \<in> set (md_insts md)" and "c \<in> set (i_conns inst)"
  shows "edit_step v st st' \<and> conn_done v path m md inst c (snd st')"
proof -
  from assms(1) obtain bits where b: "expr_bits (snd c) (md_width md) = Inr bits"
    and k: "(case bits of [b] \<Rightarrow>
           if is_const_bit b then Inr st
           else ebind (uf_lookup (path, b) (fst st)) (\<lambda>(r, u).
             if map_of (v_gated v) (Some r) \<noteq> None
             then ebind (fien (v_canon v) path (Some r)) (\<lambda>x.
               Inr (u, edit m (i_name inst) None [(fien_name (fst c), x)] [] (snd st)))
             else Inr (u, snd st)) | _ \<Rightarrow> Inr st) = Inr st'"
    unfolding child_conn_def ebind_eq_Inr by blast
  have same: "edit_step v st st" using assms(2) by (simp add: edit_step_def)
  show ?thesis
  proof (cases "\<exists>b. bits = [b] \<and> \<not> is_const_bit b")
    case False
    then have "net_of (v_trace v) md path (snd c) = None"
      by (auto simp: net_of_def b split: list.splits)
    moreover have "st' = st" using k False by (auto split: list.splits if_splits)
    ultimately show ?thesis using same by (simp add: conn_done_def)
  next
    case True
    then obtain x0 where x0: "bits = [x0]" "\<not> is_const_bit x0" by blast
    from k [unfolded x0(1) list.case] x0(2) obtain r u where l: "uf_lookup (path, x0) (fst st) = Inr (r, u)"
      and k2: "(if map_of (v_gated v) (Some r) \<noteq> None
             then ebind (fien (v_canon v) path (Some r)) (\<lambda>x.
               Inr (u, edit m (i_name inst) None [(fien_name (fst c), x)] [] (snd st)))
             else Inr (u, snd st)) = Inr st'"
      by (auto simp: ebind_eq_Inr)
    note r = uf_lookup_ok [OF l, of "v_trace v"]
    have i: "uf_ok (v_trace v) (fst st)" "adds_ok v (snd st)" using assms(2) by (simp_all add: edit_inv_def)
    have n: "net_of (v_trace v) md path (snd c) = Some r"
      using x0 r(1) [OF i(1)] by (simp add: net_of_def b)
    show ?thesis
    proof (cases "map_of (v_gated v) (Some r) = None")
      case True
      with k2 have "st' = (u, snd st)" by simp
      with True n r(2) [OF i(1)] i(2) show ?thesis by (simp add: edit_step_def edit_inv_def conn_done_def)
    next
      case False
      with k2 obtain cn where cn: "map_of (v_canon v) (path, r) = Some cn"
        and st': "st' = (u, edit m (i_name inst) None [(fien_name (fst c), fien_name cn)] [] (snd st))"
        by (auto simp: ebind_eq_Inr fien_fien)
      have "enable_conn v m (i_name inst) (fien_name (fst c)) (fien_name cn)"
        unfolding enable_conn_def using assms(3-6) n cn by (metis surj_pair fst_conv snd_conv)
      then have "adds_ok v (snd st')" unfolding st' snd_conv by (intro adds_ok_edit i(2)) simp
      moreover have "conn_done v path m md inst c (snd st')"
        using n cn by (simp add: conn_done_def st' edit_simps)
      ultimately show ?thesis using r(2) [OF i(1)] by (simp add: edit_step_def edit_inv_def st')
    qed
  qed
qed

text \<open>What the loop over the modules leaves: every connection of a gated net to a child has its enable.\<close>

definition walked_into :: "conv \<Rightarrow> inst \<Rightarrow> bool" where
  "walked_into v inst \<longleftrightarrow> map_of (f_mods (t_flat (v_trace v))) (i_cell inst) \<noteq> None \<and>
     i_cell inst \<notin> set (blackbox (f_mods (t_flat (v_trace v))))"

definition module_done :: "conv \<Rightarrow> string \<times> string \<Rightarrow> edits \<Rightarrow> bool" where
  "module_done v pm es \<longleftrightarrow> (\<forall>md inst c. map_of (f_mods (t_flat (v_trace v))) (snd pm) = Some md \<longrightarrow>
     inst \<in> set (md_insts md) \<longrightarrow> walked_into v inst \<longrightarrow> c \<in> set (i_conns inst) \<longrightarrow>
     conn_done v (fst pm) (snd pm) md inst c es)"

lemma edit_loop_hit:
  assumes "efold f st xs = Inr st'" and "edit_inv v st" and "x \<in> set xs"
    and "\<And>st y st'. y \<in> set xs \<Longrightarrow> edit_inv v st \<Longrightarrow> f st y = Inr st' \<Longrightarrow> edit_step v st st'"
    and "\<And>st st'. edit_inv v st \<Longrightarrow> f st x = Inr st' \<Longrightarrow> Q (snd st')"
    and "\<And>es es'. Q es \<Longrightarrow> ed_le es es' \<Longrightarrow> Q es'"
  shows "Q (snd st')"
proof (rule efold_hit [where I = "edit_inv v" and Q = "\<lambda>st. Q (snd st)", OF assms(1,3,2)])
  fix s y s'
  assume 1: "y \<in> set xs" "edit_inv v s" "f s y = Inr s'"
  from assms(4) [OF this] show "edit_inv v s'" by (simp add: edit_step_def)
  assume "Q (snd s)"
  then show "Q (snd s')" using assms(4) [OF 1] assms(6) by (auto simp: edit_step_def)
qed (rule assms(5))

lemma child_inst_keeps:
  assumes "child_inst v path m md st inst = Inr st'" and "edit_inv v st"
    and "(path, m) \<in> set (v_paths v)" and "map_of (f_mods (t_flat (v_trace v))) m = Some md"
    and "inst \<in> set (md_insts md)"
  shows "edit_step v st st' \<and> (walked_into v inst \<longrightarrow> (\<forall>c \<in> set (i_conns inst). conn_done v path m md inst c (snd st')))"
proof (cases "walked_into v inst")
  case False
  with assms(1,2) show ?thesis by (auto simp: child_inst_def walked_into_def Let_def edit_step_def)
next
  case True
  with assms(1) have f: "efold (child_conn v path m md inst) st (i_conns inst) = Inr st'"
    by (auto simp: child_inst_def walked_into_def Let_def)
  note c = child_conn_keeps [OF _ _ assms(3-5)]
  have "edit_step v st st'"
    by (rule edit_loop [OF f assms(2)]) (rule conjunct1 [OF c])
  moreover have "conn_done v path m md inst x (snd st')" if "x \<in> set (i_conns inst)" for x
    by (rule edit_loop_hit [OF f assms(2) that])
      (rule conjunct1 [OF c], assumption+, rule conjunct2 [OF c], assumption+, rule that, rule conn_done_mono)
  ultimately show ?thesis by blast
qed

lemma child_module_keeps:
  assumes "child_module v st pm = Inr st'" and "edit_inv v st" and "pm \<in> set (v_paths v)"
  shows "edit_step v st st' \<and> module_done v pm (snd st')"
proof -
  from assms(1) obtain md where md: "map_of (f_mods (t_flat (v_trace v))) (snd pm) = Some md"
    and f: "efold (child_inst v (fst pm) (snd pm) md) st (md_insts md) = Inr st'"
    by (auto simp: child_module_def dict_item_def ebind_eq_Inr split: option.splits)
  have pm: "(fst pm, snd pm) \<in> set (v_paths v)" using assms(3) by simp
  note c = child_inst_keeps [OF _ _ pm md]
  have "edit_step v st st'"
    by (rule edit_loop [OF f assms(2)]) (rule conjunct1 [OF c])
  moreover have "walked_into v inst \<longrightarrow> (\<forall>c \<in> set (i_conns inst). conn_done v (fst pm) (snd pm) md inst c (snd st'))"
    if "inst \<in> set (md_insts md)" for inst
    by (rule edit_loop_hit [OF f assms(2) that])
      (rule conjunct1 [OF c], assumption+, rule conjunct2 [OF c], assumption+, rule that, blast intro: conn_done_mono)
  ultimately show ?thesis using md unfolding module_done_def by auto
qed

lemma module_done_mono: "module_done v pm es \<Longrightarrow> ed_le es es' \<Longrightarrow> module_done v pm es'"
  unfolding module_done_def by (meson conn_done_mono)

lemma children_keep:
  assumes "efold (child_module v) st (v_paths v) = Inr st'" and "edit_inv v st"
  shows "edit_step v st st' \<and> (\<forall>pm \<in> set (v_paths v). module_done v pm (snd st'))"
proof -
  have "edit_step v st st'" by (rule edit_loop [OF assms]) (rule conjunct1 [OF child_module_keeps])
  moreover have "module_done v pm (snd st')" if "pm \<in> set (v_paths v)" for pm
    by (rule edit_loop_hit [OF assms that])
      (rule conjunct1 [OF child_module_keeps], assumption+, rule conjunct2 [OF child_module_keeps], assumption+,
       rule that, rule module_done_mono)
  ultimately show ?thesis by blast
qed

section \<open>Sinks, memories, observation points\<close>

text \<open>None of these touches a connection that carries an enable.\<close>

lemma adds_ok_other:
  "adds_ok v es \<Longrightarrow> list_all (\<lambda>kx. \<not> is_enable_name (fst kx)) add \<Longrightarrow> adds_ok v (edit m i c add repl es)"
  by (rule adds_ok_edit) (auto simp: list_all_iff)

lemma other_names:
  "\<not> is_enable_name ''fi_ce_i''" "\<not> is_enable_name ''FICE''" "\<not> is_enable_name ''fi_restore_i''"
  "\<not> is_enable_name ''fi_done_o''" "\<not> is_enable_name ''fi_abort_o''" "\<not> is_enable_name ''fi_bad_o''"
  "\<not> is_enable_name ''fi_mem_restore_i''" "\<not> is_enable_name (x @ ''_o'')"
  by (simp_all add: is_enable_name_def suffix_def)

definition sink_pair :: "sink_state \<Rightarrow> uf \<times> edits" where
  "sink_pair st = (fst st, fst (snd st))"

lemma edit_sink_on_keeps:
  assumes "edit_sink_on v mem s lf (es, count) (r, u) = Inr st'" and u: "uf_ok (v_trace v) u"
  shows "uf_ok (v_trace v) (fst st') \<and> (fst (snd st') = es \<or> (\<exists>m i c k x.
    fst (snd st') = edit m i c [(k, x)] [] es \<and> (k = ''FICE'' \<or> k = ''fi_ce_i'')))"
proof -
  obtain li pin ro where s: "s = (li, pin, ro)" by (metis surj_pair)
  obtain path inst owner where lf: "lf = (path, inst, owner)" by (metis surj_pair)
  note k = assms(1) [unfolded edit_sink_on_def s lf prod.case Let_def fst_conv snd_conv]
  consider "ro = Macro \<or> ro = Blackbox \<and> i_cell inst \<in> set mem"
    | "\<not> (ro = Macro \<or> ro = Blackbox \<and> i_cell inst \<in> set mem)" by blast
  then show ?thesis
  proof cases
    case 1
    with k obtain x c where "st' = (u, edit owner (i_name inst) None [(''fi_ce_i'', x)] [] es, c)"
      by (auto simp: ebind_eq_Inr)
    with u show ?thesis by simp blast
  next
    case 2
    with k consider c where "st' = (u, es, c)"
      | x c where "st' = (u, edit owner (i_name inst) (Some (i_cell inst @ ''_FICE'')) [(''FICE'', x)] [] es, c)"
      | q u' c where "pin_net (v_trace v) li (c_q (t_cells (v_trace v))) u = Inr (q, u')" "st' = (u', es, c)"
      by (auto simp: ebind_eq_Inr split: if_splits)
    then show ?thesis
    proof cases
      case 3
      with pin_net_ok(2) [OF 3(1) u] show ?thesis by simp
    next
      case 2
      with u show ?thesis by simp blast
    qed (use u in simp)
  qed
qed

lemma edit_sink_keeps:
  assumes "edit_sink v mem st s = Inr st'" and "edit_inv v (sink_pair st)"
  shows "edit_step v (sink_pair st) (sink_pair st')"
proof -
  obtain u0 es count where st: "st = (u0, es, count)" by (metis surj_pair)
  from assms(1) obtain lf r u where p: "pin_net (v_trace v) (fst s) (fst (snd s)) u0 = Inr (r, u)"
    and k: "edit_sink_on v mem s lf (es, count) (r, u) = Inr st'"
    by (auto simp: edit_sink_def st ebind_eq_Inr)
  have i: "uf_ok (v_trace v) u0" "adds_ok v es" using assms(2) by (simp_all add: edit_inv_def sink_pair_def st)
  note e = edit_sink_on_keeps [OF k pin_net_ok(2) [OF p i(1)]]
  then have "adds_ok v (fst (snd st')) \<and> ed_le es (fst (snd st'))"
    using i(2) by (auto intro!: adds_ok_other simp: other_names)
  with e show ?thesis by (simp add: sink_pair_def st edit_step_def edit_inv_def)
qed

lemma sinks_keep:
  assumes "efold (edit_sink v mem) st ss = Inr st'" and "edit_inv v (sink_pair st)"
  shows "edit_step v (sink_pair st) (sink_pair st')"
proof -
  have "edit_inv v (sink_pair st') \<and> ed_le (snd (sink_pair st)) (snd (sink_pair st'))"
    by (rule efold_rel [where J = "\<lambda>st. edit_inv v (sink_pair st)"
        and R = "\<lambda>a b. ed_le (snd (sink_pair a)) (snd (sink_pair b))", OF assms])
      (use edit_sink_keeps in \<open>auto simp: edit_step_def intro: ed_le_trans\<close>)
  then show ?thesis by (simp add: edit_step_def)
qed

definition grown :: "conv \<Rightarrow> edits \<Rightarrow> edits \<Rightarrow> bool" where
  "grown v es es' \<longleftrightarrow> adds_ok v es' \<and> ed_le es es'"

lemma grown_trans: "grown v a b \<Longrightarrow> grown v b c \<Longrightarrow> grown v a c"
  unfolding grown_def by (meson ed_le_trans)

lemma grown_loop:
  assumes "efold f es xs = Inr es'" and "adds_ok v es"
    and "\<And>es x es'. x \<in> set xs \<Longrightarrow> adds_ok v es \<Longrightarrow> f es x = Inr es' \<Longrightarrow> grown v es es'"
  shows "grown v es es'"
proof -
  have "adds_ok v es' \<and> ed_le es es'"
    by (rule efold_rel [where J = "adds_ok v" and R = ed_le, OF assms(1,2)])
      (use assms(3) in \<open>auto simp: grown_def intro: ed_le_trans\<close>)
  then show ?thesis by (simp add: grown_def)
qed

lemma mem_ports_keep: "adds_ok v es \<Longrightarrow> grown v es (foldl (mem_port m) es ps)"
proof (induction ps arbitrary: es)
  case (Cons p ps)
  have "grown v es (mem_port m es p)" using Cons.prems by (simp add: grown_def mem_port_def Let_def)
  with Cons.IH [of "mem_port m es p"] show ?case by (auto simp: grown_def intro: ed_le_trans)
qed (simp add: grown_def)

lemma mem_names: "list_all (\<lambda>kx. \<not> is_enable_name (fst kx)) (mem_signals k)"
    "list_all (\<lambda>kx. \<not> is_enable_name (fst kx)) (map (\<lambda>s. (s, s)) (map snd (mem_signals k)))"
  by (simp_all add: mem_signals_def other_names) (simp_all add: is_enable_name_def suffix_def append_eq_append_conv2
      append_eq_Cons_conv)

lemma edit_mem_keeps:
  assumes "edit_mem v es x = Inr es'" and "adds_ok v es"
  shows "grown v es es'"
proof -
  obtain k mpath li where x: "x = (k, mpath, li)" by (metis surj_pair)
  from assms(1) obtain path owner and inst :: inst where
    f: "efold (mem_level (v_paths v) (split_path path) k) (edit owner (i_name inst) None (mem_signals k) [] es)
      (rev [0..<Suc (length (split_path path))]) = Inr es'"
    unfolding edit_mem_def x prod.case Let_def by (elim ebind_InrE) (auto simp del: upt_Suc simp: case_prod_beta)
  have g: "grown v es (edit owner (i_name inst) None (mem_signals k) [] es)"
    using assms(2) by (simp add: grown_def adds_ok_other mem_names)
  have "grown v (edit owner (i_name inst) None (mem_signals k) [] es) es'"
  proof (rule grown_loop [OF f])
    fix a d b
    assume a: "adds_ok v a" and l: "mem_level (v_paths v) (split_path path) k a d = Inr b"
    from l obtain m where "b = foldl (mem_port m) a (mem_signals k) \<or> (\<exists>parent i.
        b = edit parent i None (map (\<lambda>s. (s, s)) (map snd (mem_signals k))) [] (foldl (mem_port m) a (mem_signals k)))"
      by (auto simp: mem_level_def Let_def ebind_eq_Inr split: if_splits)
    with mem_ports_keep [OF a, of m "mem_signals k"] show "grown v a b"
      by (auto simp del: list.map simp: grown_def intro: adds_ok_other [OF _ mem_names(2) [unfolded list.map_comp]] ed_le_trans [OF _ ed_le_steps(4)])
  qed (use g in \<open>simp add: grown_def\<close>)
  with g show ?thesis by (rule grown_trans)
qed

lemma edit_observe_keeps:
  assumes "edit_observe tn md es spec = Inr es'" and "adds_ok v es"
  shows "grown v es es'"
proof -
  from assms(1) obtain a dp where "es' = add_assign tn a (add_port tn dp es)"
    by (auto simp: edit_observe_def Let_def split: prod.splits option.splits if_splits)
  with assms(2) show ?thesis
    using ed_le_trans [OF ed_le_steps(1) [of es tn dp] ed_le_steps(3)] by (simp add: grown_def)
qed

section \<open>All edits\<close>

definition edits_ok :: "conv \<Rightarrow> edits \<Rightarrow> bool" where
  "edits_ok v es \<longleftrightarrow> adds_ok v es \<and> (\<forall>x \<in> set (v_local v). net_assigns v x es) \<and>
     (\<forall>pm \<in> set (v_paths v). module_done v pm es)"

lemma all_edits_ok:
  assumes "all_edits v mem observe u = Inr (es, count, mems)" and "uf_ok (v_trace v) u"
  shows "edits_ok v es"
proof -
  from assms(1) obtain st1 u2 es2 u3 es3 es4 md where
    1: "edit_nets v (u, no_edits) = Inr st1"
    and 2: "efold (child_module v) st1 (v_paths v) = Inr (u2, es2)"
    and 3: "efold (edit_sink v mem) (u2, es2, []) (v_sinks v) = Inr (u3, es3, count)"
    and 4: "efold (edit_mem v) es3 (enumerate 0 (mem_leaves (v_trace v) mem)) = Inr es4"
    and 5: "efold (edit_observe (f_top (t_flat (v_trace v))) md) es4 observe = Inr es"
    by (auto simp: all_edits_def Let_def ebind_eq_Inr)
  have i0: "edit_inv v (u, no_edits)" using assms(2) by (simp add: edit_inv_def adds_ok_init)
  note s1 = edit_nets_keeps [OF 1 i0]
  then have i1: "edit_inv v st1" by (simp add: edit_step_def)
  note s2 = children_keep [OF 2 i1]
  then have "edit_inv v (sink_pair (u2, es2, []))" by (simp add: edit_step_def sink_pair_def)
  from sinks_keep [OF 3 this] have s3: "grown v es2 es3"
    by (simp add: edit_step_def edit_inv_def grown_def sink_pair_def)
  have s4: "grown v es3 es4" by (rule grown_loop [OF 4]) (use s3 edit_mem_keeps in \<open>auto simp: grown_def\<close>)
  have s5: "grown v es4 es" by (rule grown_loop [OF 5]) (use s4 edit_observe_keeps in \<open>auto simp: grown_def\<close>)
  have g: "grown v es2 es" by (rule grown_trans [OF s3 grown_trans [OF s4 s5]])
  have "ed_le (snd st1) es2" using s2 by (simp add: edit_step_def)
  with g have le: "ed_le es2 es" "ed_le (snd st1) es" unfolding grown_def by (blast intro: ed_le_trans)+
  show ?thesis
    unfolding edits_ok_def
    using g s1 s2 le by (auto simp: grown_def intro: net_assigns_mono module_done_mono)
qed

end
