(* ===== verification/Ce_Enable.thy ===== *)
theory Ce_Enable
  imports Ce_Mono
begin

text \<open>
  What the enable nets of the converted netlist mean. \<open>V p e\<close> is the value of the operand \<open>e\<close> (a net
  or an expression without operators) in the module at the path \<open>p\<close>. When the added assigns hold and
  the added port connections join their two sides, the enable of every gated net is the product of
  the conditions of its gates.
\<close>

section \<open>The value of an enable\<close>

definition operand_char :: "char \<Rightarrow> bool" where
  "operand_char c \<longleftrightarrow> \<not> is_space c \<and> c \<notin> set ''&|~()=''"

definition operand :: "string \<Rightarrow> bool" where
  "operand e \<longleftrightarrow> e \<noteq> [] \<and> list_all operand_char e"

text \<open>A condition: an operand, \<^verbatim>\<open>~\<close> and an operand, or operands between \<^verbatim>\<open>|\<close> in parentheses.\<close>

definition eval_cond :: "(string \<Rightarrow> bool) \<Rightarrow> string \<Rightarrow> bool" where
  "eval_cond V s =
     (if s \<noteq> [] \<and> hd s = CHR ''('' then list_ex V (map py_strip (split_on (CHR ''|'') (inner s)))
      else if s \<noteq> [] \<and> hd s = CHR ''~'' then \<not> V (tl s) else V s)"

definition eval_enable :: "(string \<Rightarrow> bool) \<Rightarrow> string \<Rightarrow> bool" where
  "eval_enable V s =
     (let x = takeWhile (\<lambda>c. c \<noteq> CHR ''&'') s in
      case drop (length x) s of [] \<Rightarrow> eval_cond V s | _ # y \<Rightarrow> V (py_strip x) \<and> eval_cond V (py_strip y))"

definition assign_sides :: "string \<Rightarrow> string \<times> string" where
  "assign_sides a =
     (let l = takeWhile (\<lambda>c. c \<noteq> CHR ''='') a in (py_strip l, py_strip (drop (Suc (length l)) a)))"

lemma operand_not: "operand e \<Longrightarrow> c \<in> set '' &|~()='' \<Longrightarrow> c \<notin> set e"
proof -
  have "list_all (\<lambda>c. \<not> operand_char c) '' &|~()=''" by code_simp
  then show "operand e \<Longrightarrow> c \<in> set '' &|~()='' \<Longrightarrow> c \<notin> set e" by (auto simp: operand_def list_all_iff)
qed

lemma operand_space: "operand e \<Longrightarrow> \<not> is_space (hd e) \<and> \<not> is_space (last e)"
  by (auto simp: operand_def operand_char_def list_all_iff)

lemma operand_strip: "operand e \<Longrightarrow> list_all is_space u \<Longrightarrow> list_all is_space w \<Longrightarrow> py_strip (u @ e @ w) = e"
  using operand_space by (intro py_strip_pad) (auto simp: operand_def)

lemma operand_strip_id [simp]: "operand e \<Longrightarrow> py_strip e = e"
  using operand_strip [of e "[]" "[]"] by simp

lemma eval_cond_operand [simp]: "operand e \<Longrightarrow> eval_cond V e = V e"
  using operand_not [of e "CHR ''(''"] operand_not [of e "CHR ''~''"]
  by (cases e) (auto simp: eval_cond_def operand_def)

lemma eval_cond_not [simp]: "eval_cond V (CHR ''~'' # e) = (\<not> V e)"
  by (simp add: eval_cond_def)

lemma split_operands:
  "es \<noteq> [] \<Longrightarrow> list_all operand es \<Longrightarrow> map py_strip (split_on (CHR ''|'') (u @ join_sep '' | '' es)) = es"
  if "list_all is_space u" for u
  using that
proof (induction "'' | ''" es arbitrary: u rule: join_sep.induct)
  case (2 e)
  have "CHR ''|'' \<notin> set u" using 2 by (auto simp: list_all_iff is_space_def ord_def)
  then have "CHR ''|'' \<notin> set (u @ e)" using 2 operand_not [of e "CHR ''|''"] by simp
  with 2 operand_strip [of e u "[]"] show ?case by (simp add: split_on_none)
next
  case (3 e e' es)
  have "CHR ''|'' \<notin> set u" using 3 by (auto simp: list_all_iff is_space_def ord_def)
  then have n: "CHR ''|'' \<notin> set (u @ e @ '' '')" using 3 operand_not [of e "CHR ''|''"] by simp
  have "split_on (CHR ''|'') (u @ join_sep '' | '' (e # e' # es)) =
      (u @ e @ '' '') # split_on (CHR ''|'') (CHR '' '' # join_sep '' | '' (e' # es))"
    using split_on_append [OF n] by simp
  moreover have "map py_strip (split_on (CHR ''|'') ('' '' @ join_sep '' | '' (e' # es))) = e' # es"
    using 3 space_space by (intro "3.hyps") simp_all
  ultimately show ?case using 3 operand_strip [of e u "'' ''"] space_space by simp
qed simp

lemma eval_cond_or [simp]:
  assumes "es \<noteq> []" and "list_all operand es"
  shows "eval_cond V (CHR ''('' # join_sep '' | '' es @ '')'') = list_ex V es"
  using split_operands [OF _ assms, of "[]"] by (simp add: eval_cond_def inner_def butlast_append)

lemma amp_free:
  assumes "CHR ''&'' \<notin> set s"
  shows "takeWhile (\<lambda>c. c \<noteq> CHR ''&'') (s @ x) = s @ takeWhile (\<lambda>c. c \<noteq> CHR ''&'') x"
  using assms by (intro takeWhile_append2) auto

lemma eval_enable_cond:
  assumes "CHR ''&'' \<notin> set s"
  shows "eval_enable V s = eval_cond V s"
proof -
  have t: "takeWhile (\<lambda>c. c \<noteq> CHR ''&'') s = s" using assms by (induction s) auto
  show ?thesis unfolding eval_enable_def Let_def t by simp
qed

lemma eval_enable_and:
  assumes "operand x" and "py_strip en = en"
  shows "eval_enable V (x @ '' & '' @ en) = (V x \<and> eval_cond V en)"
proof -
  have n: "CHR ''&'' \<notin> set (x @ '' '')" using operand_not [OF assms(1), of "CHR ''&''"] by simp
  have "py_strip ('' '' @ en) = py_strip en" using py_strip_front [of "'' ''" en] space_space by simp
  then have "py_strip (CHR '' '' # en) = en" using assms(2) by simp
  with amp_free [OF n, of "CHR ''&'' # '' '' @ en"] operand_strip [OF assms(1), of "[]" "'' ''"] space_space
  show ?thesis by (simp add: eval_enable_def)
qed

lemma assign_sides_text:
  assumes "operand l" and "py_strip r = r"
  shows "assign_sides (l @ '' = '' @ r) = (l, r)"
proof -
  have n: "CHR ''='' \<notin> set (l @ '' '')" using operand_not [OF assms(1), of "CHR ''=''"] by simp
  have t: "takeWhile (\<lambda>c. c \<noteq> CHR ''='') ((l @ '' '') @ CHR ''='' # '' '' @ r) = l @ '' ''"
    using n by (subst takeWhile_append2) auto
  have "py_strip ('' '' @ r) = py_strip r" using py_strip_front [of "'' ''" r] space_space by simp
  then have "py_strip (CHR '' '' # r) = r" using assms(2) by simp
  with t operand_strip [OF assms(1), of "[]" "'' ''"] space_space show ?thesis by (simp add: assign_sides_def Let_def)
qed

lemma operand_fien: "operand c \<Longrightarrow> operand (fien_name c)"
proof -
  have "list_all operand_char ''__fien''" by code_simp
  then show "operand c \<Longrightarrow> operand (fien_name c)" by (simp add: operand_def fien_name_def)
qed

lemma fien_name_inj [simp]: "fien_name a = fien_name b \<longleftrightarrow> a = b"
  by (simp add: fien_name_def)

lemma fien_is_enable: "is_enable_name (fien_name n)"
  by (simp add: is_enable_name_def fien_name_def suffix_def)

section \<open>The condition of a gate\<close>

text \<open>The enables of an ICG, or the data input of the latch, as the gate reads it.\<close>

definition gate_cond :: "trace \<Rightarrow> (string \<Rightarrow> string \<Rightarrow> bool) \<Rightarrow> gate \<Rightarrow> bool" where
  "gate_cond t V g =
     (case g of
        GIcg li \<Rightarrow> (case f_leaves (t_flat t) ! li of (p, inst, owner) \<Rightarrow>
          list_ex (\<lambda>pin. V p (dict_get (i_conns inst) pin [])) (c_icg_enables (t_cells t)))
      | GLatch li lat inv_x cp \<Rightarrow> (case f_leaves (t_flat t) ! lat of (p, inst, owner) \<Rightarrow>
          V p (dict_get (i_conns inst) (c_latch_d (t_cells t)) []) \<noteq> inv_x))"

definition gate_operands :: "trace \<Rightarrow> gate \<Rightarrow> bool" where
  "gate_operands t g =
     (case g of
        GIcg li \<Rightarrow> c_icg_enables (t_cells t) \<noteq> [] \<and> (case f_leaves (t_flat t) ! li of (p, inst, owner) \<Rightarrow>
          list_all (\<lambda>pin. operand (dict_get (i_conns inst) pin [])) (c_icg_enables (t_cells t)))
      | GLatch li lat inv_x cp \<Rightarrow> (case f_leaves (t_flat t) ! lat of (p, inst, owner) \<Rightarrow>
          operand (dict_get (i_conns inst) (c_latch_d (t_cells t)) [])))"

lemma emap_items: "emap (dict_item d) ks = Inr es \<Longrightarrow> es = map (\<lambda>k. dict_get d k []) ks"
proof (induction ks arbitrary: es)
  case (Cons k ks)
  then show ?case by (auto simp: ebind_eq_Inr dict_item_def dict_get_def split: option.splits)
qed simp

text \<open>The text of a condition is stripped, has no \<^verbatim>\<open>&\<close> and evaluates to the condition.\<close>

lemma gate_enable_text:
  assumes "gate_enable t path li inst g = Inr (in_pin, en)" and "gate_operands t g"
    and leaf: "py_nth (f_leaves (t_flat t)) li = Inr (path, inst, owner)" and "gate_leaf g = li"
  shows "en \<noteq> [] \<and> py_strip en = en \<and> CHR ''&'' \<notin> set en \<and> eval_cond (V path) en = gate_cond t V g \<and>
    in_pin = (case g of GIcg _ \<Rightarrow> c_icg_clock (t_cells t) | GLatch _ _ _ cp \<Rightarrow> cp)"
proof (cases g)
  case (GIcg k)
  with assms(4) have k: "k = li" by simp
  have l: "f_leaves (t_flat t) ! li = (path, inst, owner)" using leaf by (simp add: py_nth_Inr)
  from assms(1) obtain es where es: "emap (dict_item (i_conns inst)) (c_icg_enables (t_cells t)) = Inr es"
    and en: "en = CHR ''('' # join_sep '' | '' es @ '')''" and p: "in_pin = c_icg_clock (t_cells t)"
    by (auto simp: gate_enable_def GIcg ebind_eq_Inr)
  note items = emap_items [OF es]
  have o: "es \<noteq> []" "list_all operand es"
    using assms(2) by (simp_all add: gate_operands_def GIcg k l items list_all_iff)
  have "CHR ''&'' \<notin> set (join_sep '' | '' es)"
    using set_join_sep [of "'' | ''" es] o(2) operand_not [of _ "CHR ''&''"] by (auto simp: list_all_iff)
  moreover have "py_strip en = en"
  proof -
    have "\<not> is_space (CHR ''('')" "\<not> is_space (CHR '')'')" by code_simp+
    then show ?thesis unfolding en by (intro py_strip_id) simp_all
  qed
  moreover have "eval_cond (V path) en = gate_cond t V g"
    using o by (simp add: en GIcg gate_cond_def k l) (simp add: items list_ex_iff)
  ultimately show ?thesis using p by (simp add: GIcg en)
next
  case (GLatch k lat inv_x cp)
  from assms(1) obtain linst lowner d where l: "py_nth (f_leaves (t_flat t)) lat = Inr (path, linst, lowner)"
    and d: "dict_item (i_conns linst) (c_latch_d (t_cells t)) = Inr d"
    and en: "en = (if inv_x then ''~'' else []) @ d" and p: "in_pin = cp"
    by (auto simp: gate_enable_def GLatch ebind_eq_Inr split: if_splits)
  have dd: "d = dict_get (i_conns linst) (c_latch_d (t_cells t)) []"
    using d by (auto simp: dict_item_def dict_get_def split: option.splits)
  have l': "f_leaves (t_flat t) ! lat = (path, linst, lowner)" using l by (simp add: py_nth_Inr)
  have o: "operand d" using assms(2) by (simp add: gate_operands_def GLatch l' dd)
  have "\<not> is_space (CHR ''~'')" by code_simp
  then have "py_strip (''~'' @ d) = ''~'' @ d"
    using operand_space [OF o] o by (intro py_strip_id) (auto simp: operand_def)
  moreover have "d \<noteq> []" using o by (simp add: operand_def)
  ultimately show ?thesis
    using o p operand_not [OF o, of "CHR ''&''"] by (auto simp: en GLatch gate_cond_def l' dd [symmetric])
qed

end
