(* ===== verification/Ce_Reread.thy ===== *)
theory Ce_Reread
  imports Vnet_Read Write_Props Ce_Enable
begin

text \<open>
  The converted netlist is a netlist: when the one that was read is well laid out and the edits are
  names and expressions, the reader takes what the converter writes, and finds in it the modules
  that were read, with the new ports, the edited instances and the new assigns, and nothing else.
\<close>

section \<open>Syntax after the edits\<close>

definition gap :: string where
  "gap = nl # ''  ''"

fun edited_stmt :: "(string \<times> inst_edit) list \<Rightarrow> laid \<Rightarrow> laid" where
  "edited_stmt ies (u, SInst c n cs) =
     (case map_of ies n of
        None \<Rightarrow> (u, SInst c n cs)
      | Some e \<Rightarrow> (gap, SInst (case fst e of None \<Rightarrow> c | Some c' \<Rightarrow> c') n
          (dict_update (dict_update cs (snd (snd e))) (fst (snd e)))))"
| "edited_stmt ies x = x"

definition decl_stmts :: "edits \<Rightarrow> string \<Rightarrow> module \<Rightarrow> laid list" where
  "decl_stmts es mname md =
     map (\<lambda>(d, n). (gap, SDecl d None [n])) (filter (\<lambda>(d, n). map_of (md_dirs md) n = None) (new_ports_of es mname)) @
     map (\<lambda>n. (gap, SDecl ''wire'' None [n])) (dedup (dict_get (e_wires es) mname []))"

definition assign_stmt :: "string \<Rightarrow> stmt" where
  "assign_stmt a = (case assign_sides a of (l, r) \<Rightarrow> SAssign l r)"

text \<open>The white space that ended the body goes before the first new assign.\<close>

fun assign_stmts :: "string \<Rightarrow> string list \<Rightarrow> laid list \<times> string" where
  "assign_stmts w [] = ([], w @ [nl])"
| "assign_stmts w (a # as) = ((w @ gap, assign_stmt a) # map (\<lambda>a. (gap, assign_stmt a)) as, [nl])"

definition edited_module :: "edits \<Rightarrow> mod_syntax \<Rightarrow> mod_syntax" where
  "edited_module es m = (case m of (name, ports, ss, w) \<Rightarrow>
     let md = say_module 0 m;
         (as, w') = assign_stmts w (dict_get (e_assigns es) name []) in
     (name, written_ports es name md,
      decl_stmts es name md @ map (edited_stmt (dict_get (e_insts es) name [])) ss @ as, w'))"

section \<open>What a module says does not depend on where it stands\<close>

lemma say_name_moved:
  "say_name k r (md\<lparr>md_start := a, md_end := b\<rparr>) n = (say_name k r md n)\<lparr>md_start := a, md_end := b\<rparr>"
  by (simp add: say_name_def Let_def split: option.split)

lemma say_names_moved:
  "foldl (say_name k r) (md\<lparr>md_start := a, md_end := b\<rparr>) ns = (foldl (say_name k r) md ns)\<lparr>md_start := a, md_end := b\<rparr>"
  by (induction ns arbitrary: md) (simp_all add: say_name_moved)

lemma say_stmt_moved:
  "say_stmt pos x (md\<lparr>md_start := a, md_end := b\<rparr>) = (say_stmt pos x md)\<lparr>md_start := a, md_end := b\<rparr>"
  by (cases "(pos, x, md)" rule: say_stmt.cases) (simp_all add: say_names_moved)

lemma say_stmts_moved:
  "say_stmts pos ss (md\<lparr>md_start := a, md_end := b\<rparr>) = (say_stmts pos ss md)\<lparr>md_start := a, md_end := b\<rparr>"
  by (induction ss arbitrary: pos md) (simp_all add: say_stmt_moved)

lemma say_init_moved:
  "say_stmts 0 ss (module_init n p t a b) = (say_stmts 0 ss (module_init n p t c d))\<lparr>md_start := a, md_end := b\<rparr>"
  unfolding say_stmts_moved [symmetric] by (simp add: module_init_def)

lemma say_module_moved: "\<exists>a b. say_module off m = (say_module 0 m)\<lparr>md_start := a, md_end := b\<rparr>"
proof -
  obtain name ports ss w where m: "m = (name, ports, ss, w)" by (cases m)
  show ?thesis unfolding m say_module_def prod.case Let_def by (intro exI) (rule say_init_moved)
qed

section \<open>The text that is written\<close>

text \<open>The statements with the instances they say.\<close>

fun stmt_tag :: "nat \<Rightarrow> laid \<Rightarrow> tagged" where
  "stmt_tag pos (u, SInst c n cs) = (laid_text (u, SInst c n cs),
     Some \<lparr>i_cell = c, i_name = n, i_conns = cs, i_start = pos, i_end = pos + length (laid_text (u, SInst c n cs))\<rparr>)"
| "stmt_tag pos x = (laid_text x, None)"

fun stmt_tags :: "nat \<Rightarrow> laid list \<Rightarrow> tagged list" where
  "stmt_tags pos [] = []"
| "stmt_tags pos (x # xs) = stmt_tag pos x # stmt_tags (pos + length (laid_text x) + 1) xs"

lemma stmt_tag_text [simp]: "fst (stmt_tag pos x) = laid_text x"
  by (cases "(pos, x)" rule: stmt_tag.cases) simp_all

lemma stmt_tags_text: "map fst (stmt_tags pos ss) = map laid_text ss"
  by (induction ss arbitrary: pos) simp_all

lemma stmt_tag_ok: "tags_ok pos [stmt_tag pos x]"
  by (cases "(pos, x)" rule: stmt_tag.cases) simp_all

lemma stmt_tags_ok: "tags_ok pos (stmt_tags pos ss @ [(w, None)])"
proof (induction ss arbitrary: pos)
  case (Cons x ss)
  obtain oi where t: "stmt_tag pos x = (laid_text x, oi)" using stmt_tag_text [of pos x] by (cases "stmt_tag pos x") simp
  have "tags_ok pos [(laid_text x, oi)]" using stmt_tag_ok [of pos x] unfolding t .
  with Cons show ?case by (simp only: stmt_tags.simps t append_Cons tags_ok.simps)
qed simp

lemma tags_Cons:
  "tag_insts (stmt_tags pos (x # ss)) = tag_insts [stmt_tag pos x] @ tag_insts (stmt_tags (pos + length (laid_text x) + 1) ss)"
  using tag_insts_simps(4) [of "[stmt_tag pos x]" "stmt_tags (pos + length (laid_text x) + 1) ss"]
  by (simp only: stmt_tags.simps append_Cons append_Nil)

lemma say_decls_insts: "md_insts (foldl (say_name k r) md ns) = md_insts md"
  by (induction ns arbitrary: md) (simp_all add: say_name_def Let_def split: option.split)

lemma say_stmt_insts: "md_insts (say_stmt pos x md) = md_insts md @ tag_insts [stmt_tag pos x]"
  by (cases "(pos, x, md)" rule: say_stmt.cases) (simp_all add: say_decls_insts)

lemma say_stmts_insts: "md_insts (say_stmts pos ss md) = md_insts md @ tag_insts (stmt_tags pos ss)"
proof (induction ss arbitrary: pos md)
  case (Cons x ss)
  show ?case unfolding say_stmts.simps Cons.IH say_stmt_insts tags_Cons by (simp only: append_assoc)
qed simp

lemma written_tag: "written_stmt ies (stmt_tag pos x) = laid_text (edited_stmt ies x)"
proof (cases "(ies, x)" rule: edited_stmt.cases)
  case (1 ies' u c n cs)
  then show ?thesis
    by (auto simp: written_stmt_def edited_cell_def edited_conns_def inst_text_def laid_text_def gap_def split: option.split)
qed (auto simp: written_stmt_def)

lemma written_tags: "map (written_stmt ies) (stmt_tags pos ss) = map (laid_text \<circ> edited_stmt ies) ss"
  by (induction ss arbitrary: pos) (simp_all add: written_tag)

lemma body_join: "body_text ss w = join_sep '';'' (map laid_text ss @ [w])"
proof (induction ss)
  case (Cons x ss)
  obtain y ys where "map laid_text ss @ [w] = y # ys" by (cases "map laid_text ss @ [w]") auto
  with Cons show ?case by (simp add: body_text_def)
qed (simp add: body_text_def)

lemma say_decls_other:
  "md_text (foldl (say_name k r) md ns) = md_text md" "md_ports (foldl (say_name k r) md ns) = md_ports md"
  "md_assigns (foldl (say_name k r) md ns) = md_assigns md"
  by (induction ns arbitrary: md) (simp_all add: say_name_def Let_def split: option.split)

lemma say_stmt_other: "md_text (say_stmt pos x md) = md_text md" "md_ports (say_stmt pos x md) = md_ports md"
  by (cases "(pos, x, md)" rule: say_stmt.cases; simp add: say_decls_other)+

lemma say_stmts_other: "md_text (say_stmts pos ss md) = md_text md" "md_ports (say_stmts pos ss md) = md_ports md"
  by (induction ss arbitrary: pos md) (simp_all add: say_stmt_other)

lemma say_module_parts:
  "md_text (say_module off (name, ports, ss, w)) = body_text ss w"
  "md_ports (say_module off (name, ports, ss, w)) = ports"
  "md_insts (say_module off (name, ports, ss, w)) = tag_insts (stmt_tags 0 ss)"
  by (simp_all add: say_module_def Let_def say_stmts_other say_stmts_insts module_init_def)

lemma written_body_edited:
  "written_body es mname (say_module off (name, ports, ss, w)) =
    body_text (map (edited_stmt (dict_get (e_insts es) mname [])) ss) w"
proof -
  let ?ies = "dict_get (e_insts es) mname []" and ?ps = "stmt_tags 0 ss @ [(w, None)]"
  have ok: "tags_ok 0 ?ps" by (rule stmt_tags_ok)
  have t: "tag_insts ?ps = md_insts (say_module off (name, ports, ss, w))" by (simp add: say_module_parts)
  have b: "body_text ss w = join_sep '';'' (map fst ?ps)" by (simp add: body_join stmt_tags_text)
  have "written_body es mname (say_module off (name, ports, ss, w)) = join_sep '';'' (map (written_stmt ?ies) ?ps)"
    using put_all [of ?ps "[]" ?ies] ok splice_foldr [OF reps_sorted [OF ok]]
    unfolding written_body_def say_module_parts(1) b t by simp
  also have "\<dots> = body_text (map (edited_stmt ?ies) ss) w"
    by (simp add: body_join written_tags written_stmt_def comp_def)
  finally show ?thesis .
qed

lemma body_append: "body_text (xs @ ys) w = concat (map (\<lambda>x. laid_text x @ '';'') xs) @ body_text ys w"
  by (simp add: body_text_def)

lemma written_decls_laid:
  "written_decls es mname md = concat (map (\<lambda>x. laid_text x @ '';'') (decl_stmts es mname md))"
proof -
  have d: "decl_line d n = laid_text (gap, SDecl d None [n]) @ '';''" for d n
    by (simp add: decl_line_def laid_text_def gap_def print_range_def)
  have "decl_line ''wire'' = (\<lambda>n. laid_text (gap, SDecl ''wire'' None [n]) @ '';'')" using d by blast
  then show ?thesis
    by (simp add: written_decls_def decl_stmts_def d comp_def case_prod_beta' del: stmt_core.simps)
qed

section \<open>Edits that are syntax\<close>

definition assign_ok :: "string \<Rightarrow> bool" where
  "assign_ok a \<longleftrightarrow> (case assign_sides a of (l, r) \<Rightarrow> a = l @ '' = '' @ r \<and> stmt_ok (SAssign l r))"

definition conns_ok :: "conns \<Rightarrow> bool" where
  "conns_ok cs \<longleftrightarrow> list_all (\<lambda>(p, e). is_name p \<and> expr_ok e) cs"

definition cell_ok :: "string \<Rightarrow> bool" where
  "cell_ok c \<longleftrightarrow> is_name c \<and> c \<notin> set decl_kinds \<and> \<not> prefix ''assign'' c"

definition edits_ok :: "edits \<Rightarrow> string \<Rightarrow> bool" where
  "edits_ok es n \<longleftrightarrow> list_all (\<lambda>(d, p). d \<in> {''input'', ''output''} \<and> is_name p) (new_ports_of es n) \<and>
     list_all is_name (dict_get (e_wires es) n []) \<and> list_all assign_ok (dict_get (e_assigns es) n []) \<and>
     list_all (\<lambda>(i, c, a, r). (case c of None \<Rightarrow> True | Some c \<Rightarrow> cell_ok c) \<and> conns_ok a \<and> conns_ok r)
       (dict_get (e_insts es) n [])"

lemma written_assigns_laid:
  assumes "list_all assign_ok al" and "assign_stmts w al = (as, w')"
  shows "w @ concat (map (\<lambda>a. nl # ''  assign '' @ a @ '';'') al) @ [nl] = body_text as w'"
proof -
  have a: "nl # ''  assign '' @ a @ '';'' = laid_text (gap, assign_stmt a) @ '';''" if "assign_ok a" for a
    using that by (auto simp: assign_ok_def assign_stmt_def laid_text_def gap_def)
  show ?thesis
  proof (cases al)
    case (Cons x xs)
    have "concat (map (\<lambda>a. nl # ''  assign '' @ a @ '';'') xs) = concat (map (\<lambda>a. laid_text (gap, assign_stmt a) @ '';'') xs)"
      using assms(1) a by (intro arg_cong [of _ _ concat] map_cong) (auto simp: Cons list_all_iff)
    moreover have "nl # ''  assign '' @ x @ '';'' = laid_text (gap, assign_stmt x) @ '';''" using assms(1) a by (simp add: Cons)
    ultimately show ?thesis using assms(2) by (auto simp: Cons body_text_def comp_def laid_text_def)
  qed (use assms(2) in \<open>auto simp: body_text_def\<close>)
qed

lemma written_module_edited:
  assumes "edits_ok es name"
  shows "written_module es (name, say_module off (name, ports, ss, w)) = print_module (edited_module es (name, ports, ss, w))"
proof -
  let ?m = "(name, ports, ss, w)"
  obtain as w' where as: "assign_stmts w (dict_get (e_assigns es) name []) = (as, w')" by force
  obtain a b where mv: "say_module off ?m = (say_module 0 ?m)\<lparr>md_start := a, md_end := b\<rparr>" using say_module_moved by blast
  have p: "written_ports es name (say_module off ?m) = written_ports es name (say_module 0 ?m)"
    "decl_stmts es name (say_module off ?m) = decl_stmts es name (say_module 0 ?m)"
    unfolding mv written_ports_def decl_stmts_def by simp_all
  have "list_all assign_ok (dict_get (e_assigns es) name [])" using assms by (simp add: edits_ok_def)
  from written_assigns_laid [OF this as]
  have t: "body_text xs w @ written_assigns es name @ nl # s = body_text (xs @ as) w' @ s" for xs s
    by (simp add: body_append [of xs as] written_assigns_def) (simp add: body_text_def)
  show ?thesis
    unfolding written_module_def edited_module_def print_module_def Let_def prod.case as written_body_edited p written_decls_laid
    using t [of "map (edited_stmt (dict_get (e_insts es) name [])) ss" "''endmodule'' @ [nl]"]
    by (simp add: module_header_def body_append nl_def)
qed

section \<open>The edited syntax is well-formed\<close>

lemma dict_update_keys: "distinct (map fst d) \<Longrightarrow> distinct (map fst (dict_update d e))"
proof -
  have "distinct (map fst d) \<Longrightarrow> distinct (map fst (foldl (\<lambda>d kv. dict_set (fst kv) (snd kv) d) d e))"
    by (induction e arbitrary: d) (simp_all add: dict_set_distinct)
  then show "distinct (map fst d) \<Longrightarrow> distinct (map fst (dict_update d e))" by (simp add: dict_update_def)
qed

lemma dict_update_conns: "conns_ok d \<Longrightarrow> conns_ok e \<Longrightarrow> conns_ok (dict_update d e)"
proof -
  have "conns_ok (dict_set k v d)" if "conns_ok d" "is_name k" "expr_ok v" for k v d
    using that by (auto simp: conns_ok_def list_all_iff dest!: dict_set_mem)
  then show "conns_ok d \<Longrightarrow> conns_ok e \<Longrightarrow> conns_ok (dict_update d e)"
    unfolding dict_update_def by (induction e arbitrary: d) (auto simp: conns_ok_def)
qed

lemma space_gap: "list_all is_space gap" "is_space nl"
  unfolding gap_def nl_def by code_simp+

lemma edited_stmt_ok:
  assumes "laid_ok x" and "list_all (\<lambda>(i, c, a, r). (case c of None \<Rightarrow> True | Some c \<Rightarrow> cell_ok c) \<and> conns_ok a \<and> conns_ok r) ies"
  shows "laid_ok (edited_stmt ies x)"
proof (cases "(ies, x)" rule: edited_stmt.cases)
  case (1 ies' u c n cs)
  show ?thesis
  proof (cases "map_of ies n")
    case (Some e)
    obtain c' a r where e: "e = (c', a, r)" by (cases e)
    have "(n, c', a, r) \<in> set ies" using map_of_SomeD [OF Some] by (simp add: e)
    then have ok: "case c' of None \<Rightarrow> True | Some c \<Rightarrow> cell_ok c" "conns_ok a" "conns_ok r"
      using assms(2) by (auto simp: list_all_iff)
    have i: "is_name c" "is_name n" "c \<notin> set decl_kinds" "\<not> prefix ''assign'' c" "distinct (map fst cs)" "conns_ok cs"
      using assms(1) 1 by (simp_all add: laid_ok_def conns_ok_def)
    let ?cs = "dict_update (dict_update cs r) a"
    have "distinct (map fst ?cs)" "conns_ok ?cs"
      using i(5,6) ok(2,3) by (simp_all add: dict_update_keys dict_update_conns)
    with i ok(1) 1 Some e space_gap show ?thesis
      by (simp add: laid_ok_def conns_ok_def cell_ok_def split: option.splits)
  qed (use assms 1 in simp)
qed (use assms in auto)

lemma edited_module_ok:
  assumes m: "module_ok m" and es: "edits_ok es (fst m)"
    and no: "\<not> sublist ''endmodule'' (case edited_module es m of (n, p, ss, w) \<Rightarrow> body_text ss w)"
  shows "module_ok (edited_module es m)"
proof -
  obtain name ports ss w where mm: "m = (name, ports, ss, w)" by (cases m)
  obtain as w' where as: "assign_stmts w (dict_get (e_assigns es) name []) = (as, w')" by force
  note e = es [unfolded mm fst_conv edits_ok_def]
  have p: "is_name name" "list_all is_name ports" "list_all laid_ok ss" "list_all is_space w"
    using m by (simp_all add: mm module_ok_def)
  have ports': "list_all is_name (written_ports es name (say_module 0 m))"
    using p(2) e by (auto simp: written_ports_def mm say_module_parts list_all_iff)
  have kinds: "''input'' \<in> set decl_kinds" "''output'' \<in> set decl_kinds" "''wire'' \<in> set decl_kinds" by (simp_all add: decl_kinds_def)
  have decls: "list_all laid_ok (decl_stmts es name md)" for md
    using e kinds space_gap by (auto simp: decl_stmts_def list_all_iff laid_ok_def dedup_def)
  have insts: "list_all laid_ok (map (edited_stmt (dict_get (e_insts es) name [])) ss)"
    using p(3) e edited_stmt_ok by (auto simp: list_all_iff)
  have st: "stmt_ok (assign_stmt a)" if "a \<in> set (dict_get (e_assigns es) name [])" for a
    using e that by (auto simp: list_all_iff assign_ok_def assign_stmt_def)
  have assigns: "list_all laid_ok as \<and> list_all is_space w'"
    using as st p(4) space_gap
    by (cases "dict_get (e_assigns es) name []") (auto simp: list_all_iff laid_ok_def)
  show ?thesis
    using no p(1) ports' decls insts assigns as by (simp add: mm edited_module_def module_ok_def Let_def)
qed

section \<open>What the edited module says\<close>

definition bare :: "inst \<Rightarrow> string \<times> string \<times> conns" where
  "bare i = (i_cell i, i_name i, i_conns i)"

definition edited_bare :: "(string \<times> inst_edit) list \<Rightarrow> inst \<Rightarrow> string \<times> string \<times> conns" where
  "edited_bare ies i = (case map_of ies (i_name i) of None \<Rightarrow> bare i
     | Some e \<Rightarrow> (edited_cell e i, i_name i, edited_conns e i))"

fun stmt_bare :: "laid \<Rightarrow> (string \<times> string \<times> conns) list" where
  "stmt_bare (u, SInst c n cs) = [(c, n, cs)]"
| "stmt_bare x = []"

fun stmt_assigns :: "laid \<Rightarrow> (string \<times> string) list" where
  "stmt_assigns (u, SAssign l r) = [(l, r)]"
| "stmt_assigns x = []"

text \<open>The other parts, directions, widths and supplies, come from the declarations only.\<close>

type_synonym declared = "(string \<times> string) list \<times> widths \<times> (string \<times> string) list"

definition md_decls :: "module \<Rightarrow> declared" where
  "md_decls md = (md_dirs md, md_width md, md_supply md)"

fun decl_name :: "string \<Rightarrow> (nat \<times> nat) option \<Rightarrow> declared \<Rightarrow> string \<Rightarrow> declared" where
  "decl_name k r (d, w, s) n =
     (if k \<in> {''input'', ''output'', ''inout''} then dict_set n k d else d,
      case r of None \<Rightarrow> w | Some ab \<Rightarrow> dict_set n ab w,
      if k \<in> {''supply0'', ''supply1''} then dict_set n [last k] s else s)"

fun stmt_decl :: "declared \<Rightarrow> laid \<Rightarrow> declared" where
  "stmt_decl D (u, SDecl k r ns) = foldl (decl_name k r) D ns"
| "stmt_decl D x = D"

lemma tag_bare: "map bare (tag_insts [stmt_tag pos x]) = stmt_bare x"
  by (cases "(pos, x)" rule: stmt_tag.cases) (simp_all add: bare_def)

lemma tags_bare: "map bare (tag_insts (stmt_tags pos ss)) = concat (map stmt_bare ss)"
proof (induction ss arbitrary: pos)
  case (Cons x ss)
  then show ?case by (simp only: tags_Cons map_append tag_bare list.map concat.simps)
qed simp

lemma tags_edited_bare:
  "map (edited_bare ies) (tag_insts (stmt_tags pos ss)) = concat (map (stmt_bare \<circ> edited_stmt ies) ss)"
proof (induction ss arbitrary: pos)
  case (Cons x ss)
  have "map (edited_bare ies) (tag_insts [stmt_tag pos x]) = stmt_bare (edited_stmt ies x)"
    by (cases "(ies, x)" rule: edited_stmt.cases)
      (simp_all add: edited_bare_def bare_def edited_cell_def edited_conns_def split: option.split)
  then show ?case by (simp only: tags_Cons map_append Cons.IH list.map concat.simps comp_apply)
qed simp

lemma say_stmts_assigns: "md_assigns (say_stmts pos ss md) = md_assigns md @ concat (map stmt_assigns ss)"
proof (induction ss arbitrary: pos md)
  case (Cons x ss)
  have "md_assigns (say_stmt pos x md) = md_assigns md @ stmt_assigns x"
    by (cases "(pos, x, md)" rule: say_stmt.cases) (simp_all add: say_decls_other)
  with Cons show ?case by simp
qed simp

lemma md_decls_simps [simp]: "md_decls (md\<lparr>md_assigns := a\<rparr>) = md_decls md" "md_decls (md\<lparr>md_insts := i\<rparr>) = md_decls md"
  "md_decls (module_init n p t a' b) = ([], [], [])"
  by (simp_all add: md_decls_def module_init_def)

lemma say_name_decls: "md_decls (say_name k r md n) = decl_name k r (md_decls md) n"
  by (cases r) (auto simp: say_name_def Let_def md_decls_def)

lemma say_names_decls: "md_decls (foldl (say_name k r) md ns) = foldl (decl_name k r) (md_decls md) ns"
  by (induction ns arbitrary: md) (simp_all add: say_name_decls)

lemma say_stmt_decls: "md_decls (say_stmt pos x md) = stmt_decl (md_decls md) x"
  by (cases "(pos, x, md)" rule: say_stmt.cases) (simp_all add: say_names_decls)

lemma say_stmts_decls: "md_decls (say_stmts pos ss md) = foldl stmt_decl (md_decls md) ss"
  by (induction ss arbitrary: pos md) (simp_all add: say_stmt_decls)

lemma edited_decls: "foldl stmt_decl D (map (edited_stmt ies) ss) = foldl stmt_decl D ss"
proof (induction ss arbitrary: D)
  case (Cons x ss)
  have "stmt_decl D (edited_stmt ies x) = stmt_decl D x"
    by (cases "(ies, x)" rule: edited_stmt.cases) (auto split: option.split)
  with Cons show ?case by simp
qed simp

text \<open>Declarations made after others: the same, on top of those.\<close>

definition on_top :: "(string \<times> string) list \<Rightarrow> declared \<Rightarrow> declared \<Rightarrow> bool" where
  "on_top d0 D D' \<longleftrightarrow> snd D = snd D' \<and> map_of (fst D) = map_of d0 ++ map_of (fst D')"

lemma on_top_name: "on_top d0 D D' \<Longrightarrow> on_top d0 (decl_name k r D n) (decl_name k r D' n)"
  by (cases D; cases D') (auto simp: on_top_def dict_set_lookup)

lemma on_top_names: "on_top d0 D D' \<Longrightarrow> on_top d0 (foldl (decl_name k r) D ns) (foldl (decl_name k r) D' ns)"
  by (induction ns arbitrary: D D') (simp_all add: on_top_name)

lemma on_top_stmts: "on_top d0 D D' \<Longrightarrow> on_top d0 (foldl stmt_decl D ss) (foldl stmt_decl D' ss)"
proof (induction ss arbitrary: D D')
  case (Cons x ss)
  have "on_top d0 (stmt_decl D x) (stmt_decl D' x)"
    using Cons.prems by (cases "(D, x)" rule: stmt_decl.cases) (simp_all add: on_top_names)
  with Cons.IH show ?case by simp
qed simp

text \<open>What a new module \<open>md'\<close> must say for the module \<open>md\<close> named \<open>n\<close> that was edited.\<close>

definition reread :: "edits \<Rightarrow> string \<Rightarrow> module \<Rightarrow> module \<Rightarrow> bool" where
  "reread es n md md' \<longleftrightarrow>
     md_ports md' = written_ports es n md \<and>
     map bare (md_insts md') = map (edited_bare (dict_get (e_insts es) n [])) (md_insts md) \<and>
     md_assigns md' = md_assigns md @ map assign_sides (dict_get (e_assigns es) n []) \<and>
     map_of (md_dirs md') = map_of (rev (map (\<lambda>(d, p). (p, d)) (new_ports_of es n))) ++ map_of (md_dirs md) \<and>
     md_width md' = md_width md \<and> md_supply md' = md_supply md"

lemma decl_ports:
  assumes "list_all (\<lambda>(d, p). d \<in> {''input'', ''output''} \<and> is_name p) ports"
  shows "foldl stmt_decl (d0, w, s) (map (\<lambda>(d, n). (gap, SDecl d None [n])) ports) =
    (foldl (\<lambda>d (k, n). dict_set n k d) d0 ports, w, s)"
  using assms by (induction ports arbitrary: d0) auto

lemma decl_wires: "foldl stmt_decl D (map (\<lambda>n. (gap, SDecl ''wire'' None [n])) ns) = D"
proof (induction ns arbitrary: D)
  case (Cons n ns)
  have "stmt_decl D (gap, SDecl ''wire'' None [n]) = D" by (cases D) simp
  with Cons show ?case by simp
qed simp

lemma foldl_dict_map_of: "map_of (foldl (\<lambda>d (k, n). dict_set n k d) d0 ps) = map_of (rev (map (\<lambda>(d, p). (p, d)) ps) @ d0)"
  by (induction ps arbitrary: d0) (auto simp: dict_set_lookup map_add_upd_left fun_eq_iff map_add_def split: option.split)

lemma assigns_say:
  assumes "assign_stmts w al = (as, w')"
  shows "concat (map stmt_assigns as) = map assign_sides al" "concat (map stmt_bare as) = []" "foldl stmt_decl D as = D"
proof -
  have a: "map (stmt_assigns \<circ> (\<lambda>a. (gap, assign_stmt a))) xs = map (\<lambda>a. [assign_sides a]) xs"
    "map (stmt_bare \<circ> (\<lambda>a. (gap, assign_stmt a))) xs = map (\<lambda>a. []) xs"
    "foldl stmt_decl D (map (\<lambda>a. (gap, assign_stmt a)) xs) = D" for xs D
    by (induction xs) (simp_all add: assign_stmt_def split: prod.split)
  have one: "stmt_assigns (u, assign_stmt a) = [assign_sides a]" "stmt_bare (u, assign_stmt a) = []"
    "stmt_decl D (u, assign_stmt a) = D" for u a D
    by (simp_all add: assign_stmt_def split: prod.split)
  have c: "concat (map (\<lambda>a. [f a]) xs) = map f xs" "concat (map (\<lambda>a. []) xs) = []" for f :: "string \<Rightarrow> string \<times> string" and xs
    by (induction xs) simp_all
  show "concat (map stmt_assigns as) = map assign_sides al" "concat (map stmt_bare as) = []" "foldl stmt_decl D as = D"
    using assms by (cases al; auto simp: a one c)+
qed

lemma decl_stmts_say:
  "concat (map stmt_assigns (decl_stmts es n md)) = []" "concat (map stmt_bare (decl_stmts es n md)) = []"
  by (auto simp: decl_stmts_def concat_eq_Nil_conv)

lemma edited_stmts_assigns: "concat (map (stmt_assigns \<circ> edited_stmt ies) ss) = concat (map stmt_assigns ss)"
proof (induction ss)
  case (Cons x ss)
  have "stmt_assigns (edited_stmt ies x) = stmt_assigns x"
    by (cases "(ies, x)" rule: edited_stmt.cases) (auto split: option.split)
  with Cons show ?case by simp
qed simp

lemma edited_says:
  assumes es: "edits_ok es name"
  shows "reread es name (say_module off (name, ports, ss, w)) (say_module off' (edited_module es (name, ports, ss, w)))"
proof -
  let ?m = "(name, ports, ss, w)" and ?ies = "dict_get (e_insts es) name []" and ?al = "dict_get (e_assigns es) name []"
  let ?md = "say_module off ?m"
  obtain as w' where as: "assign_stmts w ?al = (as, w')" by force
  define D where "D = decl_stmts es name ?md"
  obtain a b where mv: "say_module off ?m = (say_module 0 ?m)\<lparr>md_start := a, md_end := b\<rparr>" using say_module_moved by blast
  have p: "written_ports es name (say_module 0 ?m) = written_ports es name ?md" "decl_stmts es name (say_module 0 ?m) = D"
    unfolding D_def mv written_ports_def decl_stmts_def by simp_all
  define SS where "SS = D @ map (edited_stmt ?ies) ss @ as"
  have em: "edited_module es ?m = (name, written_ports es name ?md, SS, w')"
    by (simp add: edited_module_def as p Let_def SS_def)
  let ?md' = "say_module off' (edited_module es ?m)"
  have insts: "map bare (md_insts ?md') = map (edited_bare ?ies) (md_insts ?md)"
    unfolding em say_module_parts tags_edited_bare
    by (simp add: tags_bare SS_def D_def decl_stmts_say assigns_say(2) [OF as])
  have "md_assigns (say_module o' (n', p', s', w2)) = concat (map stmt_assigns s')" for o' n' p' s' w2
    by (simp add: say_module_def Let_def say_stmts_assigns module_init_def)
  then have assigns: "md_assigns ?md' = md_assigns ?md @ map assign_sides ?al"
    unfolding em by (simp add: SS_def D_def decl_stmts_say assigns_say(1) [OF as] edited_stmts_assigns)
  have decls: "md_decls (say_module o' (n', p', s', w2)) = foldl stmt_decl ([], [], []) s'" for o' n' p' s' w2
    by (simp add: say_module_def Let_def say_stmts_decls)
  define new where "new = filter (\<lambda>(d, n). map_of (md_dirs ?md) n = None) (new_ports_of es name)"
  have "list_all (\<lambda>(d, p). d \<in> {''input'', ''output''} \<and> is_name p) new"
    using es by (auto simp: edits_ok_def new_def list_all_iff)
  from decl_ports [OF this] have newd: "foldl stmt_decl ([], [], []) D = (foldl (\<lambda>d (k, n). dict_set n k d) [] new, [], [])"
    by (simp add: D_def decl_stmts_def new_def decl_wires)
  define d0 where "d0 = foldl (\<lambda>d (k, n). dict_set n k d) [] new"
  have "md_decls ?md' = foldl stmt_decl (d0, [], []) ss"
    unfolding em decls SS_def foldl_append newd d0_def [symmetric] edited_decls assigns_say(3) [OF as] ..
  moreover have "on_top d0 (d0, [], []) ([], [], [])" by (simp add: on_top_def)
  ultimately have "on_top d0 (md_decls ?md') (md_decls ?md)"
    unfolding decls [of off name ports ss w] using on_top_stmts by simp
  then have wid: "md_width ?md' = md_width ?md" "md_supply ?md' = md_supply ?md"
    and dirs: "map_of (md_dirs ?md') = map_of d0 ++ map_of (md_dirs ?md)"
    by (simp_all add: on_top_def md_decls_def)
  have "map_of d0 x = map_of (rev (map (\<lambda>(d, p). (p, d)) (new_ports_of es name))) x" if "map_of (md_dirs ?md) x = None" for x
  proof -
    have "map_of (rev (map (\<lambda>(d, p). (p, d)) (filter (\<lambda>(d, n). map_of M n = None) qs))) x =
        map_of (rev (map (\<lambda>(d, p). (p, d)) qs)) x" if "map_of M x = None" for M :: "(string \<times> string) list" and qs :: "(string \<times> string) list"
      using that by (induction qs) (auto simp: map_add_def split: option.split)
    with that show ?thesis unfolding d0_def foldl_dict_map_of new_def by simp
  qed
  then have "map_of (md_dirs ?md') = map_of (rev (map (\<lambda>(d, p). (p, d)) (new_ports_of es name))) ++ map_of (md_dirs ?md)"
    unfolding dirs by (auto simp: map_add_def fun_eq_iff split: option.split)
  with insts assigns wid show ?thesis unfolding reread_def em say_module_parts by (simp add: em [symmetric])
qed

section \<open>The file that is written\<close>

text \<open>The two lines of comment become white space.\<close>

lemma blank_line:
  assumes "CHR 0x0A \<notin> set c"
  shows "sub_from comment_re (\<lambda>m. replicate (m_length m) (CHR '' '')) p (''//'' @ c @ nl # s) =
    replicate (2 + length c) (CHR '' '') @ nl #
      sub_from comment_re (\<lambda>m. replicate (m_length m) (CHR '' '')) (nl # rev (''//'' @ c) @ p) s"
proof -
  have "match_at comment_re q (nl # s) = None" for q by (rule comment_none) (simp add: nl_def)
  then have "sub_from comment_re f q (nl # s) = nl # sub_from comment_re f (nl # q) s" for f q
    by (subst sub_from.simps) simp
  with sub_comment [OF assms, of p s] show ?thesis unfolding nl_def [symmetric] by (simp only:)
qed

definition header_blank :: "string \<Rightarrow> string" where
  "header_blank netlist = replicate (2 + length ('' GENERATED by fpga/tools/fi_fpga_ce.py from '' @ netlist)) (CHR '' '') @ nl #
     replicate (2 + length '' clock gates turned into clock enables (<net>__fien, <cell>_FICE, fi_ce_i)'') (CHR '' '') @ [nl, nl]"

lemma header_blank_space: "list_all is_space (header_blank netlist)"
  unfolding header_blank_def using space_space space_gap(2) by (simp add: list_all_iff)

lemma blank_header:
  assumes "nl \<notin> set netlist" and "CHR ''/'' \<notin> set s"
  shows "blank_comments (''// GENERATED by fpga/tools/fi_fpga_ce.py from '' @ netlist @ [nl] @
     ''// clock gates turned into clock enables (<net>__fien, <cell>_FICE, fi_ce_i)'' @ [nl, nl] @ s) = header_blank netlist @ s"
proof -
  define c1 where "c1 = '' GENERATED by fpga/tools/fi_fpga_ce.py from '' @ netlist"
  define c2 where "c2 = '' clock gates turned into clock enables (<net>__fien, <cell>_FICE, fi_ce_i)''"
  have c: "CHR 0x0A \<notin> set c1" "CHR 0x0A \<notin> set c2" using assms(1) by (simp_all add: c1_def c2_def nl_def)
  have t: "''// GENERATED by fpga/tools/fi_fpga_ce.py from '' @ netlist @ [nl] @
     ''// clock gates turned into clock enables (<net>__fien, <cell>_FICE, fi_ce_i)'' @ [nl, nl] @ s =
     ''//'' @ c1 @ nl # ''//'' @ c2 @ nl # nl # s" by (simp add: c1_def c2_def)
  have h: "header_blank netlist = replicate (2 + length c1) (CHR '' '') @ nl # replicate (2 + length c2) (CHR '' '') @ [nl, nl]"
    by (simp only: header_blank_def c1_def c2_def)
  have "CHR ''/'' \<notin> set (nl # s)" using assms(2) by (simp add: nl_def)
  from sub_no_slash [OF this] show ?thesis
    unfolding t blank_comments_def re_sub_def blank_line [OF c(1)] blank_line [OF c(2)] h by simp
qed

fun with_gaps :: "string \<Rightarrow> mod_syntax list \<Rightarrow> (string \<times> mod_syntax) list" where
  "with_gaps g [] = []"
| "with_gaps g (m # ms) = (g, m) # with_gaps [nl] ms"

lemma with_gaps_text: "ms \<noteq> [] \<Longrightarrow> design_text (with_gaps g ms) = g @ join_sep [nl] (map print_module ms)"
proof (induction ms arbitrary: g)
  case (Cons m ms)
  show ?case
  proof (cases ms)
    case (Cons m' ms')
    with Cons.IH [of "[nl]"] show ?thesis by (simp add: design_text_def)
  qed (simp add: design_text_def)
qed simp

lemma with_gaps_ok:
  assumes "distinct (map fst ms)" and "list_all module_ok ms" and "list_all is_space g"
  shows "design_ok (with_gaps g ms)"
proof -
  have names: "map (fst \<circ> snd) (with_gaps g ms) = map fst ms" for g by (induction ms arbitrary: g) simp_all
  have "list_all (\<lambda>(g, m). list_all is_space g \<and> module_ok m) (with_gaps g ms)"
    using assms(2,3) by (induction ms arbitrary: g) (simp_all add: space_gap)
  with assms(1) show ?thesis by (simp add: design_ok_def names)
qed

text \<open>The modules that stay, after their edits.\<close>

definition edited_design :: "edits \<Rightarrow> string list \<Rightarrow> (string \<times> mod_syntax) list \<Rightarrow> mod_syntax list" where
  "edited_design es drops ms = map (edited_module es) (filter (\<lambda>m. fst m \<notin> set drops) (map snd ms))"

definition design_edits_ok :: "edits \<Rightarrow> string list \<Rightarrow> (string \<times> mod_syntax) list \<Rightarrow> bool" where
  "design_edits_ok es drops ms \<longleftrightarrow> list_all (\<lambda>m. fst m \<in> set drops \<or> edits_ok es (fst m) \<and>
     \<not> sublist ''endmodule'' (case edited_module es m of (n, p, ss, w) \<Rightarrow> body_text ss w)) (map snd ms)"

lemma edited_name [simp]: "fst (edited_module es m) = fst m"
  by (cases m) (simp add: edited_module_def Let_def split: prod.split)

lemma written_modules:
  assumes "design_edits_ok es drops ms"
  shows "map (written_module es) (filter (\<lambda>m. fst m \<notin> set drops) (say_design off ms)) = map print_module (edited_design es drops ms)"
  using assms
proof (induction ms arbitrary: off)
  case (Cons x ms)
  obtain g name ports ss w where x: "x = (g, name, ports, ss, w)" by (cases x)
  have "design_edits_ok es drops ms" using Cons.prems by (simp add: design_edits_ok_def)
  note ih = Cons.IH [OF this]
  show ?case
  proof (cases "name \<in> set drops")
    case False
    then have "edits_ok es name" using Cons.prems by (simp add: design_edits_ok_def x)
    from written_module_edited [OF this] ih False show ?thesis by (simp add: x edited_design_def)
  qed (use ih in \<open>simp add: x edited_design_def\<close>)
qed (simp add: edited_design_def)

lemma edited_design_ok:
  assumes "design_ok ms" and "design_edits_ok es drops ms"
  shows "list_all module_ok (edited_design es drops ms)" "distinct (map fst (edited_design es drops ms))"
proof -
  show "list_all module_ok (edited_design es drops ms)"
    using assms edited_module_ok by (fastforce simp: edited_design_def design_edits_ok_def design_ok_def list_all_iff)
  have "map fst (edited_design es drops ms) = filter (\<lambda>n. n \<notin> set drops) (map (fst \<circ> snd) ms)"
    by (induction ms) (simp_all add: edited_design_def)
  with assms(1) show "distinct (map fst (edited_design es drops ms))" by (simp add: design_ok_def)
qed

lemma say_design_mem:
  "(n, md) \<in> set (say_design off ms) \<Longrightarrow> \<exists>g m off'. (g, m) \<in> set ms \<and> fst m = n \<and> md = say_module off' m"
proof (induction off ms rule: say_design.induct)
  case (2 off g m ms)
  from "2.prems" consider "n = fst m" "md = say_module (off + length g) m"
    | "(n, md) \<in> set (say_design (off + length g + length (print_module m)) ms)" by auto
  then show ?case
  proof cases
    case 1
    then show ?thesis by (intro exI [of _ g] exI [of _ m] exI [of _ "off + length g"]) simp
  next
    case 2
    from "2.IH" [OF this] obtain g' m' off' where "(g', m') \<in> set ms" "fst m' = n" "md = say_module off' m'" by blast
    then show ?thesis by (intro exI [of _ g'] exI [of _ m'] exI [of _ off']) simp
  qed
qed simp

lemma say_design_has:
  "(g, m) \<in> set ms \<Longrightarrow> \<exists>off'. (fst m, say_module off' m) \<in> set (say_design off ms)"
proof (induction off ms rule: say_design.induct)
  case (2 off g' m' ms)
  from "2.prems" consider "m = m'" | "(g, m) \<in> set ms" by auto
  then show ?case
  proof cases
    case 1
    then show ?thesis by (intro exI [of _ "off + length g'"]) simp
  next
    case 2
    from "2.IH" [OF this] show ?thesis by auto
  qed
qed simp

lemma say_design_names: "map fst (say_design off ms) = map (fst \<circ> snd) ms"
  by (induction off ms rule: say_design.induct) auto

lemma with_gaps_mem: "m \<in> set ms \<Longrightarrow> \<exists>g'. (g', m) \<in> set (with_gaps g ms)"
  by (induction ms arbitrary: g) auto

lemma with_gaps_names: "map (fst \<circ> snd) (with_gaps g ms) = map fst ms"
  by (induction ms arbitrary: g) simp_all

lemma written_reads:
  assumes ms: "design_ok ms" and es: "design_edits_ok es drops ms" and nl: "nl \<notin> set netlist"
  shows "\<exists>tx. parse (written_netlist netlist drops (say_design 0 ms) es) =
    Inr (say_design 0 (with_gaps (header_blank netlist) (edited_design es drops ms)), tx)"
proof -
  let ?h = "header_blank netlist" and ?es = "edited_design es drops ms"
  let ?t = "if ?es = [] then ?h else []"
  note ok = with_gaps_ok [OF edited_design_ok(2,1) [OF ms es] header_blank_space [of netlist]]
  have j: "?h @ join_sep [nl] (map print_module ?es) = design_text (with_gaps ?h ?es) @ ?t"
    using with_gaps_text [of ?es ?h] by (simp add: design_text_def)
  have t: "list_all is_space ?t" using header_blank_space by simp
  have "CHR ''/'' \<notin> set (design_text (with_gaps ?h ?es) @ ?t)"
    using design_chars [OF ok] space_chars [OF t] by auto
  then have "CHR ''/'' \<notin> set (join_sep [nl] (map print_module ?es))" unfolding j [symmetric] by simp
  from blank_header [OF nl this] have
    "blank_comments (written_netlist netlist drops (say_design 0 ms) es) = design_text (with_gaps ?h ?es) @ ?t"
    unfolding written_netlist_def written_modules [OF es] j .
  from parse_blanked [OF this ok t] show ?thesis by blast
qed

text \<open>C6: The converted netlist of a well laid out design, for edits made of names and expressions, is
  read back without an error: every module that is not dropped has its ports with the new ones,
  its instances as edited, its assigns followed by the new ones, and the directions, widths and
  supplies it had.\<close>

theorem converted_reads_back:
  assumes ms: "design_ok ms" and t: "list_all is_space t" and p: "parse (design_text ms @ t) = Inr (mods, tx)"
    and es: "design_edits_ok es drops ms" and nl: "nl \<notin> set netlist"
  shows "\<exists>mods' tx'. parse (written_netlist netlist drops mods es) = Inr (mods', tx') \<and>
    map fst mods' = filter (\<lambda>n. n \<notin> set drops) (map fst mods) \<and>
    (\<forall>(n, md) \<in> set mods. n \<notin> set drops \<longrightarrow> (\<exists>md'. map_of mods' n = Some md' \<and> reread es n md md'))"
proof -
  let ?es = "edited_design es drops ms"
  let ?mods = "say_design 0 (with_gaps (header_blank netlist) ?es)"
  have mods: "mods = say_design 0 ms" using p parse_printed [OF ms t] by simp
  have names: "map fst ?mods = filter (\<lambda>n. n \<notin> set drops) (map fst mods)"
    unfolding say_design_names with_gaps_names mods by (induction ms) (simp_all add: edited_design_def)
  have d: "distinct (map fst ?mods)"
    unfolding say_design_names with_gaps_names by (rule edited_design_ok(2) [OF ms es])
  have "\<exists>md'. map_of ?mods n = Some md' \<and> reread es n md md'" if m: "(n, md) \<in> set mods" "n \<notin> set drops" for n md
  proof -
    obtain g m off where gm: "(g, m) \<in> set ms" and n: "fst m = n" and md: "md = say_module off m"
      using say_design_mem [OF m(1) [unfolded mods]] by blast
    obtain ports ss w where mm: "m = (n, ports, ss, w)" using n by (cases m) auto
    have "edits_ok es n" using es gm m(2) n by (force simp: design_edits_ok_def list_all_iff)
    note r = edited_says [OF this, of off ports ss w]
    have "edited_module es m \<in> set ?es" using gm m(2) n by (force simp: edited_design_def)
    from with_gaps_mem [OF this] obtain g' where
      "(g', edited_module es m) \<in> set (with_gaps (header_blank netlist) ?es)" by blast
    from say_design_has [OF this, of 0] obtain off' where "(n, say_module off' (edited_module es m)) \<in> set ?mods"
      using n by auto
    with d have "map_of ?mods n = Some (say_module off' (edited_module es m))" by (simp add: map_of_is_SomeI)
    with r [of off'] show ?thesis unfolding md mm by blast
  qed
  with written_reads [OF ms es nl] names show ?thesis unfolding mods by blast
qed

text \<open>A flop on a gated clock, and the edits that enable it.\<close>

definition reread_example :: "(string \<times> mod_syntax) list" where
  "reread_example = [([], ''cut'', [''a''], [(gap, SDecl ''input'' None [''a''])], [nl]),
    ([nl], ''top'', [''ck'', ''d''], [(gap, SDecl ''input'' None [''ck'', ''d'']),
       (gap, SInst ''DFF'' ''r'' [(''CP'', ''ck''), (''D'', ''d''), (''Q'', ''q'')])], [nl])]"

definition reread_edits :: edits where
  "reread_edits = add_assign ''top'' ''ck__fien = en & (a | b)'' (add_wire ''top'' ''ck__fien''
     (edit ''top'' ''r'' (Some ''DFF_FICE'') [(''FICE'', ''ck__fien'')] [] no_edits))"

lemma reread_example_ok: "design_ok reread_example \<and> design_edits_ok reread_edits [''cut''] reread_example"
  by code_simp

theorem converted_reads_back_witness:
  "\<exists>mods' tx' md'. parse (written_netlist ''n.v'' [''cut''] (say_design 0 reread_example) reread_edits) = Inr (mods', tx') \<and>
     map_of mods' ''top'' = Some md' \<and> md_assigns md' = [(''ck__fien'', ''en & (a | b)'')] \<and>
     map bare (md_insts md') = [(''DFF_FICE'', ''r'', [(''CP'', ''ck''), (''D'', ''d''), (''Q'', ''q''), (''FICE'', ''ck__fien'')])]"
proof -
  let ?mods = "say_design 0 reread_example"
  note ok = reread_example_ok [THEN conjunct1] reread_example_ok [THEN conjunct2]
  have p: "parse (design_text reread_example @ [nl]) = Inr (?mods, design_text reread_example @ [nl])"
    by (rule parse_printed [OF ok(1)]) (simp add: space_gap)
  have nl: "nl \<notin> set ''n.v''" by (simp add: nl_def)
  have "([nl], snd (reread_example ! 1)) \<in> set reread_example" by code_simp
  from say_design_has [OF this, of 0] obtain off where
    top: "(''top'', say_module off (snd (reread_example ! 1))) \<in> set ?mods" by (auto simp: reread_example_def)
  from converted_reads_back [OF ok(1) _ p ok(2) nl] space_gap obtain mods' tx' where
    r: "parse (written_netlist ''n.v'' [''cut''] ?mods reread_edits) = Inr (mods', tx')"
    and a: "\<forall>(n, md) \<in> set ?mods. n \<notin> set [''cut''] \<longrightarrow> (\<exists>md'. map_of mods' n = Some md' \<and> reread reread_edits n md md')"
    by auto
  obtain md' where md': "map_of mods' ''top'' = Some md'"
    "reread reread_edits ''top'' (say_module off (snd (reread_example ! 1))) md'"
    using bspec [OF a top] by auto
  have "map assign_sides (dict_get (e_assigns reread_edits) ''top'' []) = [(''ck__fien'', ''en & (a | b)'')]"
    "md_assigns (say_module off (snd (reread_example ! 1))) = []"
    "map (edited_bare (dict_get (e_insts reread_edits) ''top'' [])) (md_insts (say_module off (snd (reread_example ! 1)))) =
      [(''DFF_FICE'', ''r'', [(''CP'', ''ck''), (''D'', ''d''), (''Q'', ''q''), (''FICE'', ''ck__fien'')])]"
    by code_simp+
  with r md' show ?thesis by (auto simp: reread_def)
qed

end
