(* ===== verification/Ce_Product.thy ===== *)
theory Ce_Product
  imports Ce_Enable
begin

text \<open>
  The enable of every gated net of the converted netlist is the product of the conditions of its
  gates. Stated for a valuation \<open>V p e\<close> of the operands in the module at every path at which the added
  assigns and the added port connections hold, and for designs that \<open>conv_ready\<close> accepts: uniquified,
  with plain enables, and with every gated clock led through the ports of the modules it crosses.
\<close>

section \<open>The designs\<close>

text \<open>Every module stands at one path; instances have names, and ports are connected once.\<close>

definition netlist_ok :: "conv \<Rightarrow> bool" where
  "netlist_ok v \<longleftrightarrow> distinct (map fst (v_paths v)) \<and> distinct (map snd (v_paths v)) \<and>
     list_all (\<lambda>(p, m). case map_of (f_mods (t_flat (v_trace v))) m of None \<Rightarrow> False
       | Some md \<Rightarrow> distinct (map i_name (md_insts md)) \<and>
           list_all (\<lambda>inst. i_name inst \<noteq> [] \<and> distinct (map fst (i_conns inst))) (md_insts md)) (v_paths v)"

text \<open>The local names of the gated nets and the enables of the gates are plain operands.\<close>

definition names_ok :: "conv \<Rightarrow> bool" where
  "names_ok v \<longleftrightarrow> list_all (\<lambda>x. list_all operand (snd x)) (v_local v) \<and>
     list_all (\<lambda>x. gate_operands (v_trace v) (snd x)) (v_gates v)"

definition joins :: "conv \<Rightarrow> string \<Rightarrow> module \<Rightarrow> inst \<Rightarrow> string \<Rightarrow> string \<Rightarrow> bool" where
  "joins v p md inst r pin \<longleftrightarrow> walked_into v inst \<and>
     list_ex (\<lambda>c. fst c = pin \<and> net_of (v_trace v) md p (snd c) = Some r) (i_conns inst)"

text \<open>A net driven above comes in through the port it is known by; the parent connects that port to it.\<close>

definition from_above :: "conv \<Rightarrow> string \<Rightarrow> string \<Rightarrow> bool" where
  "from_above v path r \<longleftrightarrow> list_ex (\<lambda>(p, m). case map_of (f_mods (t_flat (v_trace v))) m of None \<Rightarrow> False
     | Some md \<Rightarrow> list_ex (\<lambda>inst. sub_path p (i_name inst) = path \<and>
         (case map_of (v_canon v) (path, r) of None \<Rightarrow> False | Some c \<Rightarrow> joins v p md inst r c)) (md_insts md)) (v_paths v)"

definition output_port :: "conv \<Rightarrow> string \<Rightarrow> string \<Rightarrow> bool" where
  "output_port v q n \<longleftrightarrow> (case module_at (f_mods (t_flat (v_trace v))) (v_paths v) q of Inl e \<Rightarrow> False
     | Inr mq \<Rightarrow> map_of (md_dirs mq) n = Some ''output'')"

text \<open>A net driven below comes out through an output port of the child on the way.\<close>

definition from_below :: "conv \<Rightarrow> string \<Rightarrow> string \<Rightarrow> bool" where
  "from_below v path r \<longleftrightarrow> list_ex (\<lambda>(p, m). p = path \<and> (case map_of (f_mods (t_flat (v_trace v))) m of None \<Rightarrow> False
     | Some md \<Rightarrow> list_ex (\<lambda>inst. let q = sub_path path (i_name inst) in
         (relation (v_trace v) q r = Inr Local \<or> relation (v_trace v) q r = Inr Child) \<and>
         list_ex (\<lambda>x. fst x = (q, r) \<and> list_ex (\<lambda>n. joins v path md inst r n \<and> output_port v q n) (snd x))
           (v_local v)) (md_insts md))) (v_paths v)"

definition wired :: "conv \<Rightarrow> bool" where
  "wired v \<longleftrightarrow> list_all (\<lambda>x. case x of ((path, r), names) \<Rightarrow>
     (case relation (v_trace v) path r of Inl e \<Rightarrow> False
      | Inr Local \<Rightarrow> True | Inr Child \<Rightarrow> from_below v path r | Inr Parent \<Rightarrow> from_above v path r)) (v_local v)"

definition conv_ready :: "conv \<Rightarrow> bool" where
  "conv_ready v \<longleftrightarrow> netlist_ok v \<and> names_ok v \<and> wired v"

section \<open>The valuations\<close>

type_synonym valuation = "string \<Rightarrow> string \<Rightarrow> bool"

definition assigns_hold :: "valuation \<Rightarrow> conv \<Rightarrow> edits \<Rightarrow> bool" where
  "assigns_hold V v es \<longleftrightarrow> list_all (\<lambda>(p, m). list_all (\<lambda>a. case assign_sides a of (l, r) \<Rightarrow>
     is_enable_name l \<longrightarrow> V p l = eval_enable (V p) r) (assigns_of es m)) (v_paths v)"

definition ports_hold :: "valuation \<Rightarrow> conv \<Rightarrow> edits \<Rightarrow> bool" where
  "ports_hold V v es \<longleftrightarrow> list_all (\<lambda>(p, m). list_all (\<lambda>(i, e). map_of (v_paths v) (sub_path p i) \<noteq> None \<longrightarrow>
     list_all (\<lambda>(k, x). is_enable_name k \<longrightarrow> V (sub_path p i) k = V p x) (fst (snd e)))
     (dict_get (e_insts es) m [])) (v_paths v)"

lemma assigns_holdD:
  assumes "assigns_hold V v es" and "map_of (v_paths v) p = Some m"
    and "fien_name n @ '' = '' @ r \<in> set (assigns_of es m)" and "operand n" and "py_strip r = r"
  shows "V p (fien_name n) = eval_enable (V p) r"
  using assms(1,3) map_of_SomeD [OF assms(2)] assign_sides_text [OF operand_fien [OF assms(4)] assms(5)] fien_is_enable [of n]
  unfolding assigns_hold_def list_all_iff by fastforce

lemma ports_holdD:
  assumes "ports_hold V v es" and "map_of (v_paths v) p = Some m" and "map_of (v_paths v) (sub_path p i) \<noteq> None"
    and "map_of (adds_of es m i) (fien_name n) = Some x"
  shows "V (sub_path p i) (fien_name n) = V p x"
proof -
  from assms(4) obtain e where e: "map_of (dict_get (e_insts es) m []) i = Some e"
    and x: "map_of (fst (snd e)) (fien_name n) = Some x"
    by (auto simp: adds_of_def split: option.splits)
  from map_of_SomeD [OF assms(2)] map_of_SomeD [OF e] map_of_SomeD [OF x] assms(1,3) fien_is_enable [of n]
  show ?thesis unfolding ports_hold_def list_all_iff by fastforce
qed

section \<open>Along a port\<close>

lemma module_unique:
  assumes "netlist_ok v" and "(p, m) \<in> set (v_paths v)" and "(p', m) \<in> set (v_paths v)"
  shows "p' = p"
proof -
  have "inj_on snd (set (v_paths v))" using assms(1) by (simp add: netlist_ok_def distinct_map)
  from inj_onD [OF this _ assms(3,2)] show ?thesis by simp
qed

lemma netlist_okD:
  assumes "netlist_ok v" and "(p, m) \<in> set (v_paths v)" and "map_of (f_mods (t_flat (v_trace v))) m = Some md"
  shows "distinct (map i_name (md_insts md))"
    and "inst \<in> set (md_insts md) \<Longrightarrow> i_name inst \<noteq> [] \<and> distinct (map fst (i_conns inst))"
  using assms unfolding netlist_ok_def list_all_iff by fastforce+

text \<open>The enable of a connection of a gated net to a child is the enable of the net, on both sides.\<close>

lemma port_enable:
  assumes v: "netlist_ok v" "edits_ok v es" and h: "ports_hold V v es"
    and p: "(p, m) \<in> set (v_paths v)" "map_of (f_mods (t_flat (v_trace v))) m = Some md"
    and i: "inst \<in> set (md_insts md)" "joins v p md inst r pin"
    and q: "map_of (v_paths v) (sub_path p (i_name inst)) \<noteq> None"
    and g: "map_of (v_gated v) (Some r) \<noteq> None"
  obtains c where "map_of (v_canon v) (p, r) = Some c"
    and "V (sub_path p (i_name inst)) (fien_name pin) = V p (fien_name c)"
proof -
  from i(2) obtain e where e: "(pin, e) \<in> set (i_conns inst)" "net_of (v_trace v) md p e = Some r"
    and w: "walked_into v inst" by (auto simp: joins_def list_ex_iff)
  have "conn_done v p m md inst (pin, e) es"
    using v(2) p i(1) w e(1) unfolding edits_ok_def module_done_def by fastforce
  then obtain c x where c: "map_of (v_canon v) (p, r) = Some c"
    and x: "map_of (adds_of es m (i_name inst)) (fien_name pin) = Some x"
    using e(2) g by (auto simp: conn_done_def)
  have "enable_conn v m (i_name inst) (fien_name pin) x"
    using v(2) x fien_is_enable unfolding edits_ok_def adds_ok_def by blast
  then obtain p' md' inst' pin' e' r' c' where
    1: "(p', m) \<in> set (v_paths v)" "map_of (f_mods (t_flat (v_trace v))) m = Some md'"
    "inst' \<in> set (md_insts md')" "i_name inst' = i_name inst" "(pin', e') \<in> set (i_conns inst')"
    "net_of (v_trace v) md' p' e' = Some r'" "fien_name pin = fien_name pin'"
    "map_of (v_canon v) (p', r') = Some c'" "x = fien_name c'"
    unfolding enable_conn_def by blast
  have pp: "p' = p" by (rule module_unique [OF v(1) p(1) 1(1)])
  have md: "md' = md" using 1(2) p(2) by simp
  have "inst' = inst" using netlist_okD(1) [OF v(1) p] 1(3,4) i(1) md by (auto simp: distinct_map inj_on_def)
  moreover have "distinct (map fst (i_conns inst))" using netlist_okD(2) [OF v(1) p i(1)] by simp
  ultimately have "e' = e" using 1(5,7) e(1) by (auto dest: eq_key_imp_eq_value)
  then have "c' = c" using 1(6,8) e(2) c by (simp add: pp md)
  with 1(9) x have "map_of (adds_of es m (i_name inst)) (fien_name pin) = Some (fien_name c)" by simp
  moreover have "map_of (v_paths v) p = Some m"
    using p(1) v(1) by (simp add: netlist_ok_def)
  ultimately show ?thesis using that [OF c] ports_holdD [OF h _ q] by blast
qed

text \<open>What the following lemmas share: a converted design and a valuation of it.\<close>

definition converted :: "conv \<Rightarrow> uf \<Rightarrow> edits \<Rightarrow> valuation \<Rightarrow> bool" where
  "converted v u es V \<longleftrightarrow> conv_ok v u \<and> edits_ok v es \<and> conv_ready v \<and> assigns_hold V v es \<and> ports_hold V v es"

lemma convertedD:
  assumes "converted v u es V"
  shows "conv_ok v u" and "edits_ok v es" and "netlist_ok v" and "names_ok v" and "wired v"
    and "assigns_hold V v es" and "ports_hold V v es"
  using assms by (simp_all add: converted_def conv_ready_def)

lemma canonE:
  assumes "converted v u es V" and "map_of (v_canon v) (path, r) = Some c"
  obtains names md rel where "((path, r), names) \<in> set (v_local v)" and "c \<in> set names"
    and "module_at (f_mods (t_flat (v_trace v))) (v_paths v) path = Inr md"
    and "relation (v_trace v) path r = Inr rel" and "rel = Parent \<longrightarrow> map_of (md_dirs md) c = Some ''input''"
    and "map_of (v_paths v) path \<noteq> None" and "map_of (v_gated v) (Some r) \<noteq> None"
proof -
  have ok: "conv_ok v u" using assms(1) by (rule convertedD)
  from ok assms(2) have "canon_ok (v_trace v) (v_paths v) (v_local v) (path, r) c" unfolding conv_ok_def by blast
  then obtain names md rel where 1: "((path, r), names) \<in> set (v_local v)" "c \<in> set names"
    "module_at (f_mods (t_flat (v_trace v))) (v_paths v) path = Inr md"
    "relation (v_trace v) path r = Inr rel" "rel = Parent \<longrightarrow> map_of (md_dirs md) c = Some ''input''"
    unfolding canon_ok_def by auto
  have "place_ok (v_trace v) (v_paths v) (v_gated v) ((path, r), names)" using ok 1(1) unfolding conv_ok_def by blast
  then have "map_of (v_paths v) path \<noteq> None" "map_of (v_gated v) (Some r) \<noteq> None"
    by (auto simp: place_ok_def map_of_eq_None_iff)
  from that [OF 1 this] show ?thesis .
qed

lemma placeE:
  assumes "converted v u es V" and "((path, r), names) \<in> set (v_local v)"
  obtains c where "map_of (v_canon v) (path, r) = Some c" and "list_all operand names" and "operand c"
proof -
  have ok: "conv_ok v u" using assms(1) by (rule convertedD)
  have "dom (map_of (v_canon v)) = fst ` set (v_local v)" using ok unfolding conv_ok_def by blast
  moreover have "(path, r) \<in> fst ` set (v_local v)" by (rule image_eqI [OF _ assms(2)]) simp
  ultimately have "(path, r) \<in> dom (map_of (v_canon v))" by simp
  then obtain c where c: "map_of (v_canon v) (path, r) = Some c" by blast
  from canonE [OF assms(1) c] obtain names' where n: "((path, r), names') \<in> set (v_local v)" "c \<in> set names'" .
  have "names_ok v" using assms(1) by (rule convertedD)
  with n assms(2) have "list_all operand names" "operand c"
    unfolding names_ok_def list_all_iff by fastforce+
  with that c show ?thesis by blast
qed

lemma relation_cases:
  assumes "map_of (t_driver t) r = Some (DLeaf li pin)" and "py_nth (f_leaves (t_flat t)) li = Inr (pd, inst, owner)"
  shows "relation t path r = Inr Local \<longleftrightarrow> pd = path" and "relation t path r = Inr Child \<Longrightarrow> length path < length pd"
proof -
  have r: "relation t path r = Inr (if pd = path then Local
      else if path = [] \<and> pd \<noteq> [] \<or> prefix (path @ ''/'') pd then Child else Parent)"
    using assms by (simp add: relation_def)
  then show "relation t path r = Inr Local \<longleftrightarrow> pd = path" by simp
  assume "relation t path r = Inr Child"
  with r have "path = [] \<and> pd \<noteq> [] \<or> prefix (path @ ''/'') pd" by (simp split: if_splits)
  then show "length path < length pd" using prefix_length_le [of "path @ ''/''" pd] by auto
qed

text \<open>An output port of a module carries the enable of the net it is on.\<close>

lemma output_enable:
  assumes "converted v u es V" and pl: "((q, r), names) \<in> set (v_local v)" and n: "n \<in> set names"
    and o: "output_port v q n"
    and c: "map_of (v_canon v) (q, r) = Some c"
  shows "V q (fien_name n) = V q (fien_name c)"
proof (cases "n = c")
  case False
  from placeE [OF assms(1) pl] c have op: "list_all operand names" "operand c" by auto
  have "net_assigns v ((q, r), names) es" using convertedD(2) [OF assms(1)] pl unfolding edits_ok_def by blast
  then obtain m md where m: "map_of (v_paths v) q = Some m" "map_of (f_mods (t_flat (v_trace v))) m = Some md"
    and a: "map_of (md_dirs md) n = Some ''output'' \<longrightarrow> fien_name n @ '' = '' @ fien_name c \<in> set (assigns_of es m)"
    using n False c unfolding net_assigns_def by auto
  have "map_of (md_dirs md) n = Some ''output''" using o m by (simp add: output_port_def module_at_def)
  with a have "fien_name n @ '' = '' @ fien_name c \<in> set (assigns_of es m)" by simp
  moreover have "operand n" using op(1) n by (simp add: list_all_iff)
  ultimately have "V q (fien_name n) = eval_enable (V q) (fien_name c)"
    using operand_strip_id [OF operand_fien [OF op(2)]] by (intro assigns_holdD [OF convertedD(6) [OF assms(1)] m(1)]) simp_all
  also have "\<dots> = V q (fien_name c)"
    using operand_fien [OF op(2)] operand_not [of "fien_name c" "CHR ''&''"] by (simp add: eval_enable_cond)
  finally show ?thesis .
qed simp

lemma below_step:
  assumes cv: "converted v u es V" and c: "map_of (v_canon v) (path, r) = Some c"
    and rel: "relation (v_trace v) path r = Inr Child"
  obtains q cq where "map_of (v_canon v) (q, r) = Some cq" and "V path (fien_name c) = V q (fien_name cq)"
    and "relation (v_trace v) q r = Inr Local \<or> relation (v_trace v) q r = Inr Child" and "length path < length q"
proof -
  from canonE [OF cv c] obtain names where "((path, r), names) \<in> set (v_local v)"
    and g: "map_of (v_gated v) (Some r) \<noteq> None" .
  then have "from_below v path r" using convertedD(5) [OF cv] rel unfolding wired_def list_all_iff by fastforce
  then obtain m md inst q names' n where p: "(path, m) \<in> set (v_paths v)"
      "map_of (f_mods (t_flat (v_trace v))) m = Some md"
    and i: "inst \<in> set (md_insts md)" and q: "q = sub_path path (i_name inst)"
    and rq: "relation (v_trace v) q r = Inr Local \<or> relation (v_trace v) q r = Inr Child"
    and pl: "((q, r), names') \<in> set (v_local v)" and n: "n \<in> set names'" "joins v path md inst r n"
    and o: "output_port v q n"
    unfolding from_below_def list_ex_iff Let_def by (auto split: option.splits)
  from placeE [OF cv pl] obtain cq where cq: "map_of (v_canon v) (q, r) = Some cq" .
  from canonE [OF cv cq] have qp: "map_of (v_paths v) q \<noteq> None" .
  from port_enable [OF convertedD(3,2,7) [OF cv] p i n(2) qp [unfolded q] g] obtain c' where
    c': "map_of (v_canon v) (path, r) = Some c'" "V q (fien_name n) = V path (fien_name c')" unfolding q .
  have "V path (fien_name c) = V q (fien_name cq)"
    using c' c output_enable [OF cv pl n(1) o cq] by simp
  moreover have "length path < length q"
    using netlist_okD(2) [OF convertedD(3) [OF cv] p i] by (cases "path = []") (simp_all add: q sub_path_def)
  ultimately show ?thesis using that cq rq by blast
qed

lemma above_step:
  assumes cv: "converted v u es V" and c: "map_of (v_canon v) (path, r) = Some c"
    and rel: "relation (v_trace v) path r = Inr Parent"
  obtains p cp where "map_of (v_canon v) (p, r) = Some cp" and "V path (fien_name c) = V p (fien_name cp)"
    and "length p < length path"
proof -
  from canonE [OF cv c] obtain names where l: "((path, r), names) \<in> set (v_local v)"
    and g: "map_of (v_gated v) (Some r) \<noteq> None" and qp: "map_of (v_paths v) path \<noteq> None" .
  then have "from_above v path r" using convertedD(5) [OF cv] rel unfolding wired_def list_all_iff by fastforce
  then obtain p m md inst where p: "(p, m) \<in> set (v_paths v)" "map_of (f_mods (t_flat (v_trace v))) m = Some md"
    and i: "inst \<in> set (md_insts md)" and q: "sub_path p (i_name inst) = path"
    and x: "joins v p md inst r c"
    unfolding from_above_def list_ex_iff using c by (auto split: option.splits)
  from port_enable [OF convertedD(3,2,7) [OF cv] p i x qp [folded q] g] obtain cp where
    cp: "map_of (v_canon v) (p, r) = Some cp" "V path (fien_name c) = V p (fien_name cp)" unfolding q .
  moreover have "length p < length path"
    using netlist_okD(2) [OF convertedD(3) [OF cv] p i] by (cases "p = []") (simp_all add: q [symmetric] sub_path_def)
  ultimately show ?thesis using that by blast
qed

text \<open>Wherever it is seen, the enable of a net is the one where its driver stands.\<close>

lemma enable_below:
  assumes cv: "converted v u es V" and d: "map_of (t_driver (v_trace v)) r = Some (DLeaf li pin)"
    and l: "py_nth (f_leaves (t_flat (v_trace v))) li = Inr (pd, inst, owner)"
  shows "map_of (v_canon v) (path, r) = Some c \<Longrightarrow>
    relation (v_trace v) path r = Inr Local \<or> relation (v_trace v) path r = Inr Child \<Longrightarrow>
    \<exists>cd. map_of (v_canon v) (pd, r) = Some cd \<and> V path (fien_name c) = V pd (fien_name cd)"
proof (induction "length pd - length path" arbitrary: path c rule: less_induct)
  case less
  note rl = relation_cases [OF d l]
  show ?case
  proof (cases "relation (v_trace v) path r = Inr Local")
    case True
    with rl(1) less.prems show ?thesis by auto
  next
    case False
    with less.prems have ch: "relation (v_trace v) path r = Inr Child" by simp
    from below_step [OF cv less.prems(1) ch] obtain q cq where q: "map_of (v_canon v) (q, r) = Some cq"
      "V path (fien_name c) = V q (fien_name cq)"
      "relation (v_trace v) q r = Inr Local \<or> relation (v_trace v) q r = Inr Child" "length path < length q" .
    have "length pd - length q < length pd - length path" using rl(2) [OF ch] q(4) by simp
    from less.hyps [OF this q(1,3)] q(2) show ?thesis by simp
  qed
qed

lemma enable_at_driver:
  assumes cv: "converted v u es V" and d: "map_of (t_driver (v_trace v)) r = Some (DLeaf li pin)"
    and l: "py_nth (f_leaves (t_flat (v_trace v))) li = Inr (pd, inst, owner)"
  shows "map_of (v_canon v) (path, r) = Some c \<Longrightarrow>
    \<exists>cd. map_of (v_canon v) (pd, r) = Some cd \<and> V path (fien_name c) = V pd (fien_name cd)"
proof (induction "length path" arbitrary: path c rule: less_induct)
  case less
  from canonE [OF cv less.prems] obtain rel where rel: "relation (v_trace v) path r = Inr rel" .
  show ?case
  proof (cases "rel = Parent")
    case True
    from above_step [OF cv less.prems rel [unfolded True]] obtain p cp where
      p: "map_of (v_canon v) (p, r) = Some cp" "V path (fien_name c) = V p (fien_name cp)" "length p < length path" .
    from less.hyps [OF p(3,1)] p(2) show ?thesis by simp
  next
    case False
    with rel have "relation (v_trace v) path r = Inr Local \<or> relation (v_trace v) path r = Inr Child" by (cases rel) simp_all
    from enable_below [OF cv d l less.prems this] show ?thesis .
  qed
qed

text \<open>There it is what the driver's assign says.\<close>

lemma enable_driven:
  assumes cv: "converted v u es V" and c: "map_of (v_canon v) (path, r) = Some c"
  obtains pd rhs where "enable_assign v pd r rhs"
    and "py_strip rhs = rhs \<longrightarrow> V path (fien_name c) = eval_enable (V pd) rhs"
proof -
  from canonE [OF cv c] obtain rel where rel: "relation (v_trace v) path r = Inr rel" .
  then obtain li pin where d: "map_of (t_driver (v_trace v)) r = Some (DLeaf li pin)"
    by (auto simp: relation_def split: option.splits driver.splits)
  with rel obtain pd inst owner where l: "py_nth (f_leaves (t_flat (v_trace v))) li = Inr (pd, inst, owner)"
    by (auto simp: relation_def ebind_eq_Inr)
  from enable_at_driver [OF cv d l c] obtain cd where
    cd: "map_of (v_canon v) (pd, r) = Some cd" "V path (fien_name c) = V pd (fien_name cd)" by blast
  from canonE [OF cv cd(1)] obtain names where pl: "((pd, r), names) \<in> set (v_local v)" .
  from placeE [OF cv pl] cd(1) have op: "operand cd" by auto
  have "net_assigns v ((pd, r), names) es" using convertedD(2) [OF cv] pl unfolding edits_ok_def by blast
  then obtain m rhs where m: "map_of (v_paths v) pd = Some m" and rhs: "enable_assign v pd r rhs"
      "fien_name cd @ '' = '' @ rhs \<in> set (assigns_of es m)"
    using cd(1) relation_cases(1) [OF d l, of pd] unfolding net_assigns_def by auto
  from assigns_holdD [OF convertedD(6) [OF cv] m rhs(2) op] cd(2) show ?thesis
    by (intro that [OF rhs(1)]) simp
qed

section \<open>The gated nets and their gates\<close>

lemma gated_nets_mem: "(r, gs) \<in> set (gated_nets memo) \<longleftrightarrow> gs \<noteq> [] \<and> (\<exists>rt iv. (r, Clock rt iv gs) \<in> set memo)"
proof (induction memo)
  case (Cons x memo)
  obtain k c where x: "x = (k, c)" by (cases x)
  with Cons show ?case by (cases c) (auto simp: gated_nets_Cons)
qed (simp add: gated_nets_def)

lemma conv_memoE:
  assumes "conv_ok v u"
  obtains memo u0 where "v_gated v = gated_nets memo" and "closed_inv (v_trace v) (u0, memo)" and "distinct (map fst memo)"
    and "\<forall>r rt iv gs. map_of memo r = Some (Clock rt iv gs) \<longrightarrow> clocked (v_trace v) r rt iv gs"
proof -
  from assms obtain memo u0 where 1: "v_gated v = gated_nets memo" "closed_inv (v_trace v) (u0, memo)"
    unfolding conv_ok_def by blast
  from 1(2) have 2: "distinct (map fst memo)" and 3: "trace_inv (v_trace v) (u0, memo)" by (simp_all add: closed_inv_def)
  have "\<forall>r rt iv gs. map_of memo r = Some (Clock rt iv gs) \<longrightarrow> clocked (v_trace v) r rt iv gs"
    using 3 unfolding trace_inv_def clk_ok_def snd_conv by blast
  from that [OF 1 2 this] show ?thesis .
qed

lemma gated_clocked:
  assumes "conv_ok v u" and "map_of (v_gated v) r = Some gs"
  obtains rt iv where "clocked (v_trace v) r rt iv gs" and "gs \<noteq> []"
proof -
  from conv_memoE [OF assms(1)] obtain memo u0 where g: "v_gated v = gated_nets memo"
    and cl: "closed_inv (v_trace v) (u0, memo)" and d: "distinct (map fst memo)"
    and c: "\<forall>r rt iv gs. map_of memo r = Some (Clock rt iv gs) \<longrightarrow> clocked (v_trace v) r rt iv gs" .
  from assms(2) have "gs \<noteq> []" "\<exists>rt iv. map_of memo r = Some (Clock rt iv gs)"
    unfolding g gated_nets_lookup [OF d] by simp_all
  with c that show ?thesis by blast
qed

lemma gated_back:
  assumes "conv_ok v u" and "map_of (v_gated v) r = Some gs" and f: "feeds (v_trace v) r gs r'"
    and c: "clocked (v_trace v) r' rt' iv' gs'"
  shows "map_of (v_gated v) r' = (if gs' = [] then None else Some gs')"
proof -
  from conv_memoE [OF assms(1)] obtain memo u0 where g: "v_gated v = gated_nets memo"
    and cl: "closed_inv (v_trace v) (u0, memo)" and d: "distinct (map fst memo)"
    and ck: "\<forall>r rt iv gs. map_of memo r = Some (Clock rt iv gs) \<longrightarrow> clocked (v_trace v) r rt iv gs" .
  note look = gated_nets_lookup [OF d]
  from assms(2) obtain rt iv where "map_of memo r = Some (Clock rt iv gs)" unfolding g look by blast
  then have "is_clock (map_of memo r')" using cl f unfolding closed_inv_def memo_closed_def snd_conv by blast
  then obtain rt2 iv2 gs2 where m: "map_of memo r' = Some (Clock rt2 iv2 gs2)" unfolding is_clock_def by blast
  have "gs2 = gs'" using clocked_unique [OF ck [rule_format, OF m] same_source_refl c] by simp
  with m have m': "map_of memo r' = Some (Clock rt2 iv2 gs')" by simp
  show ?thesis
  proof (cases "gs' = []")
    case True
    have "map_of (gated_nets memo) r' \<noteq> Some x" for x using look [of r' x] m' True by (cases "x = []") auto
    with True show ?thesis unfolding g by (metis option.exhaust)
  next
    case False
    with look [of r' gs'] m' show ?thesis by (simp add: g)
  qed
qed

lemma gate_last:
  assumes "conv_ok v u" and g: "map_of (v_gates v) li = Some g"
    and d: "driver_of (v_trace v) r = Some (DLeaf li pin)" and c: "clocked (v_trace v) r rt iv gs"
  shows "gate_leaf g = li \<and> (\<exists>gs0. gs = gs0 @ [g])"
proof -
  from conv_memoE [OF assms(1)] obtain memo u0 where gn: "v_gated v = gated_nets memo"
    and cl: "closed_inv (v_trace v) (u0, memo)" and di: "distinct (map fst memo)"
    and ck: "\<forall>r rt iv gs. map_of memo r = Some (Clock rt iv gs) \<longrightarrow> clocked (v_trace v) r rt iv gs" .
  have "map_of (gate_table (v_gated v)) li = Some g" using assms(1) g by (simp add: conv_ok_def)
  note s = gate_table_spec [OF this]
  then obtain r1 gs1 where 1: "(r1, gs1) \<in> set (v_gated v)" "g \<in> set gs1" by auto
  from 1(1) obtain rt1 iv1 where "(r1, Clock rt1 iv1 gs1) \<in> set memo" unfolding gn gated_nets_mem by blast
  with di have "clocked (v_trace v) r1 rt1 iv1 gs1" by (intro ck [rule_format]) simp
  from gate_output [OF this 1(2)] s obtain r2 p rt2 iv2 gs2 where
    2: "driver_of (v_trace v) r2 = Some (DLeaf li p)" "clocked (v_trace v) r2 rt2 iv2 (gs2 @ [g])" by auto
  have "same_source (v_trace v) r2 r" using 2(1) d by (auto simp: same_source_def)
  from clocked_unique [OF 2(2) this c] s show ?thesis by auto
qed

lemma gate_known:
  assumes "conv_ok v u" and "map_of (v_gated v) r = Some gs" and "g \<in> set gs"
  shows "map_of (v_gates v) (gate_leaf g) \<noteq> None"
  using gate_table_dom [OF map_of_SomeD [OF assms(2)] assms(3)] assms(1) by (simp add: conv_ok_def)

section \<open>The product\<close>

lemma eval_enable_fien: "operand c \<Longrightarrow> eval_enable V (fien_name c) = V (fien_name c)"
  using operand_fien [of c] operand_not [of "fien_name c" "CHR ''&''"] by (simp add: eval_enable_cond)

lemma strip_last: "py_strip s = s \<Longrightarrow> s \<noteq> [] \<Longrightarrow> \<not> is_space (last s)"
proof -
  assume s: "py_strip s = s" "s \<noteq> []"
  define w where "w = rev (dropWhile is_space s)"
  have r: "rev (dropWhile is_space w) = s" using s(1) by (simp add: py_strip_def w_def)
  with s(2) have "dropWhile is_space w \<noteq> []" by (metis rev.simps(1))
  from hd_dropWhile [OF this] this show ?thesis unfolding r [symmetric] by (simp add: last_rev)
qed

lemma canon_operand:
  assumes cv: "converted v u es V" and c: "map_of (v_canon v) (path, r) = Some c"
  shows "operand c"
proof -
  from canonE [OF cv c] obtain names where "((path, r), names) \<in> set (v_local v)" .
  from placeE [OF cv this] c show ?thesis by auto
qed

lemma gates_operands: "names_ok v \<Longrightarrow> map_of (v_gates v) li = Some g \<Longrightarrow> gate_operands (v_trace v) g"
  unfolding names_ok_def list_all_iff using map_of_SomeD [of "v_gates v" li g] by fastforce

text \<open>What the enable of a net is when the one its clock comes from is known.\<close>

definition product_at :: "conv \<Rightarrow> valuation \<Rightarrow> net \<Rightarrow> gate list \<Rightarrow> bool" where
  "product_at v V r gs \<longleftrightarrow> (\<forall>path k c. r = Some k \<longrightarrow> map_of (v_canon v) (path, k) = Some c \<longrightarrow>
     V path (fien_name c) = list_all (gate_cond (v_trace v) V) gs)"

lemma product_gate:
  assumes cv: "converted v u es V" and gd: "map_of (v_gated v) r = Some gs"
    and d: "driver_of (v_trace v) r = Some (DLeaf li pin)" and cl: "clocked (v_trace v) r rt iv gs"
    and gs: "gs = gs0 @ [g]" "gate_leaf g = li"
    and cp: "cp = (case g of GIcg _ \<Rightarrow> c_icg_clock (t_cells (v_trace v)) | GLatch _ _ _ cp \<Rightarrow> cp)"
    and n: "pin_on (v_trace v) li cp n" "map_of (v_gated v) n = (if gs0 = [] then None else Some gs0)"
    and IH: "gs0 \<noteq> [] \<Longrightarrow> product_at v V n gs0"
  shows "product_at v V r gs"
  unfolding product_at_def
proof (intro allI impI)
  fix path k c
  assume k: "r = Some k" and c: "map_of (v_canon v) (path, k) = Some c"
  note ok = convertedD(1) [OF cv]
  from enable_driven [OF cv c] obtain pd rhs where ea: "enable_assign v pd k rhs"
    and val: "py_strip rhs = rhs \<longrightarrow> V path (fien_name c) = eval_enable (V pd) rhs" .
  have d': "map_of (t_driver (v_trace v)) k = Some (DLeaf li pin)" using d by (simp add: k driver_of_def)
  have "map_of (v_gates v) li \<noteq> None" using gate_known [OF ok gd, of g] gs by simp
  then obtain g' where g': "map_of (v_gates v) li = Some g'" by blast
  from gate_last [OF ok g' d cl] gs(1) have gg: "g' = g" by simp
  from ea d' g' gg obtain inst owner in_pin en n' where
    l: "py_nth (f_leaves (t_flat (v_trace v))) li = Inr (pd, inst, owner)"
    and 1: "gate_enable (v_trace v) pd li inst g = Inr (in_pin, en)" and 2: "pin_on (v_trace v) li in_pin n'"
    and 3: "gate_expr v pd n' en = Inr rhs"
    unfolding enable_assign_def by auto
  from gate_enable_text [OF 1 gates_operands [OF convertedD(4) [OF cv] g' [unfolded gg]] l gs(2)]
  have ne: "en \<noteq> []" and en: "py_strip en = en" "CHR ''&'' \<notin> set en" "eval_cond (V pd) en = gate_cond (v_trace v) V g" and ip: "in_pin = cp"
    by (simp_all add: cp)
  have n': "n' = n" using pin_on_det [OF n(1) 2 [unfolded ip]] by simp
  show "V path (fien_name c) = list_all (gate_cond (v_trace v) V) gs"
  proof (cases "gs0 = []")
    case True
    with 3 n(2) have "rhs = en" by (simp add: gate_expr_def n')
    with val en eval_enable_cond [OF en(2)] show ?thesis by (simp add: gs True)
  next
    case False
    with 3 n(2) obtain x where x: "fien (v_canon v) pd n = Inr x" and rhs: "rhs = x @ '' & '' @ en"
      by (auto simp: gate_expr_def n' ebind_eq_Inr)
    from x obtain kn cn where cn: "n = Some kn" "map_of (v_canon v) (pd, kn) = Some cn" "x = fien_name cn"
      unfolding fien_fien by blast
    have op: "operand x" using canon_operand [OF cv cn(2)] by (simp add: cn(3) operand_fien)
    have xv: "V pd x = list_all (gate_cond (v_trace v) V) gs0"
      using IH [OF False] cn unfolding product_at_def by blast
    have "py_strip rhs = rhs"
      using operand_space [OF op] op strip_last [OF en(1) ne] ne unfolding rhs by (intro py_strip_id) (auto simp: operand_def)
    with val eval_enable_and [OF op en(1)] xv en(3) show ?thesis by (simp add: rhs gs)
  qed
qed

lemma product_pass:
  assumes cv: "converted v u es V" and gd: "map_of (v_gated v) r = Some gs"
    and d: "driver_of (v_trace v) r = Some (DLeaf li pin)" and cl: "clocked (v_trace v) r rt iv gs"
    and role: "has_role (v_trace v) li Buf \<and> cs = c_buf (t_cells (v_trace v)) \<or>
      has_role (v_trace v) li Inv \<and> cs = c_inv (t_cells (v_trace v))"
    and ip: "fst cs = ip # ips" and n: "pin_on (v_trace v) li ip n"
    and IH: "product_at v V n gs"
  shows "product_at v V r gs"
  unfolding product_at_def
proof (intro allI impI)
  fix path k c
  assume k: "r = Some k" and c: "map_of (v_canon v) (path, k) = Some c"
  note ok = convertedD(1) [OF cv]
  from enable_driven [OF cv c] obtain pd rhs where ea: "enable_assign v pd k rhs"
    and val: "py_strip rhs = rhs \<longrightarrow> V path (fien_name c) = eval_enable (V pd) rhs" .
  have d': "map_of (t_driver (v_trace v)) k = Some (DLeaf li pin)" using d by (simp add: k driver_of_def)
  have none: "map_of (v_gates v) li = None"
  proof (rule ccontr)
    assume "map_of (v_gates v) li \<noteq> None"
    then obtain g where g: "map_of (v_gates v) li = Some g" by blast
    from gate_last [OF ok g d cl] gate_roles [OF cl, of g] role show False by (auto simp: has_role_def)
  qed
  from ea d' none obtain ro ip' ips' n' where ro: "has_role (v_trace v) li ro"
    and i': "ro = Buf \<and> fst (c_buf (t_cells (v_trace v))) = ip' # ips' \<or> ro = Inv \<and> fst (c_inv (t_cells (v_trace v))) = ip' # ips'"
    and n': "pin_on (v_trace v) li ip' n'" and rhs: "fien (v_canon v) pd n' = Inr rhs"
    unfolding enable_assign_def by auto
  have "ip' = ip" using i' role ro ip by (auto dest: has_role_det)
  with n' pin_on_det [OF n] have nn: "n' = n" by simp
  from rhs obtain kn cn where cn: "n = Some kn" "map_of (v_canon v) (pd, kn) = Some cn" "rhs = fien_name cn"
    unfolding fien_fien nn by blast
  have op: "operand cn" by (rule canon_operand [OF cv cn(2)])
  have "V path (fien_name c) = V pd (fien_name cn)"
    using val eval_enable_fien [OF op] operand_strip_id [OF operand_fien [OF op]] by (simp add: cn(3))
  also have "\<dots> = list_all (gate_cond (v_trace v) V) gs" using IH cn unfolding product_at_def by blast
  finally show "V path (fien_name c) = list_all (gate_cond (v_trace v) V) gs" .
qed

lemma product_all:
  assumes cv: "converted v u es V"
  shows "clocked (v_trace v) r rt iv gs \<Longrightarrow> map_of (v_gated v) r = Some gs \<Longrightarrow> product_at v V r gs"
proof (induction rule: clocked.induct)
  case (at_port r b)
  then show ?case by (auto elim: gated_clocked [OF convertedD(1) [OF cv]])
next
  case (through_buf r li pin ip ips n rt iv gs)
  have "feeds (v_trace v) r gs n" using through_buf.hyps unfolding feeds_def by blast
  note b = gated_back [OF convertedD(1) [OF cv] through_buf.prems this through_buf.hyps(5)]
  from gated_clocked [OF convertedD(1) [OF cv] through_buf.prems] have "gs \<noteq> []" by auto
  with b have "product_at v V n gs" by (intro through_buf.IH) simp
  from product_pass [OF cv through_buf.prems through_buf.hyps(1) clocked.through_buf [OF through_buf.hyps] _ through_buf.hyps(3,4) this]
  show ?case using through_buf.hyps(2) by blast
next
  case (through_inv r li pin ip ips n rt iv gs)
  have "feeds (v_trace v) r gs n" using through_inv.hyps unfolding feeds_def by blast
  note b = gated_back [OF convertedD(1) [OF cv] through_inv.prems this through_inv.hyps(5)]
  from gated_clocked [OF convertedD(1) [OF cv] through_inv.prems] have "gs \<noteq> []" by auto
  with b have "product_at v V n gs" by (intro through_inv.IH) simp
  from product_pass [OF cv through_inv.prems through_inv.hyps(1) clocked.through_inv [OF through_inv.hyps] _ through_inv.hyps(3,4) this]
  show ?case using through_inv.hyps(2) by blast
next
  case (through_icg r li pin n rt iv gs)
  have "feeds (v_trace v) r (gs @ [GIcg li]) n" using through_icg.hyps unfolding feeds_def by blast
  note b = gated_back [OF convertedD(1) [OF cv] through_icg.prems this through_icg.hyps(4)]
  show ?case
    by (rule product_gate [OF cv through_icg.prems through_icg.hyps(1) clocked.through_icg [OF through_icg.hyps] refl _ _ through_icg.hyps(3) b])
      (use through_icg.IH b in auto)
next
  case (through_gate r li pin g cp xp f nc nx lat q en low rt iv gs ne liv lgs cell iv' gs')
  from verdict_last [OF through_gate.hyps(13)] obtain x where gs': "gs' = gs @ [GLatch li lat x cp]" ..
  have "feeds (v_trace v) r gs' nc" using through_gate.hyps(1,2,5) gs' unfolding feeds_def by blast
  note b = gated_back [OF convertedD(1) [OF cv] through_gate.prems this through_gate.hyps(10)]
  show ?case
    by (rule product_gate [OF cv through_gate.prems through_gate.hyps(1) clocked.through_gate [OF through_gate.hyps] gs' _ _ through_gate.hyps(5) b])
      (use through_gate.IH(1) b in auto)
qed

end
