(* ===== verification/Ce_Flops.thy ===== *)
theory Ce_Flops
  imports Ce_Mono
begin

text \<open>
  What the converter does to the flops: the new cell and the connection of its pin \<open>FICE\<close>. Every step
  but the one of a flop on a gated net leaves both alone.
\<close>

definition cell_of :: "edits \<Rightarrow> string \<Rightarrow> string \<Rightarrow> string option" where
  "cell_of es m i = (case map_of (dict_get (e_insts es) m []) i of None \<Rightarrow> None | Some e \<Rightarrow> fst e)"

lemma cell_simps [edit_simps]:
  "cell_of (add_port m dn es) m' i' = cell_of es m' i'" "cell_of (add_wire m w es) m' i' = cell_of es m' i'"
  "cell_of (add_assign m a es) m' i' = cell_of es m' i'" "cell_of (kill_output m es) m' i' = cell_of es m' i'"
  by (simp_all add: cell_of_def add_port_def add_wire_def add_assign_def kill_output_def)

lemma cell_edit [edit_simps]:
  "cell_of (edit m i c add repl es) m' i' =
     (if m' = m \<and> i' = i then (if c = None then cell_of es m i else c) else cell_of es m' i')"
proof -
  obtain c0 a r where e: "dict_get (dict_get (e_insts es) m []) i (None, [], []) = (c0, a, r)"
    by (metis surj_pair)
  then have "c0 = cell_of es m i"
    by (auto simp: dict_get_def [of "dict_get (e_insts es) m []"] cell_of_def split: option.splits)
  then show ?thesis
    by (simp add: edit_def Let_def e cell_of_def dict_get_set dict_set_lookup)
qed

text \<open>The cell of an instance and what its pin \<open>FICE\<close> is connected to, as edited.\<close>

definition fice :: "edits \<Rightarrow> string \<Rightarrow> string \<Rightarrow> string option \<times> string option" where
  "fice es m i = (cell_of es m i, map_of (adds_of es m i) ''FICE'')"

definition quiet :: "edits \<Rightarrow> edits \<Rightarrow> bool" where
  "quiet es es' \<longleftrightarrow> (\<forall>m i. fice es' m i = fice es m i)"

lemma quiet_refl [simp]: "quiet es es"
  by (simp add: quiet_def)

lemma quiet_trans: "quiet a b \<Longrightarrow> quiet b c \<Longrightarrow> quiet a c"
  by (simp add: quiet_def)

lemma quiet_steps [simp]:
  "quiet es (add_port m dn es)" "quiet es (add_wire m w es)" "quiet es (add_assign m a es)" "quiet es (kill_output m es)"
  by (simp_all add: quiet_def fice_def edit_simps)

lemma quiet_edit: "''FICE'' \<notin> fst ` set add \<Longrightarrow> quiet es (edit m i None add repl es)"
proof -
  assume "''FICE'' \<notin> fst ` set add"
  then have "map_of (rev add) ''FICE'' = None" by (simp add: map_of_eq_None_iff)
  then show ?thesis by (simp add: quiet_def fice_def edit_simps)
qed

lemma quiet_loop:
  assumes "efold f s xs = Inr s'" and "\<And>s x s'. x \<in> set xs \<Longrightarrow> f s x = Inr s' \<Longrightarrow> quiet (e s) (e s')"
  shows "quiet (e s) (e s')"
proof -
  have "True \<and> quiet (e s) (e s')"
    by (rule efold_rel [where J = "\<lambda>_. True" and R = "\<lambda>a b. quiet (e a) (e b)", OF assms(1)])
      (use assms(2) in \<open>auto intro: quiet_trans\<close>)
  then show ?thesis ..
qed

lemma fien_not_FICE: "''FICE'' \<noteq> fien_name n"
proof
  assume "''FICE'' = fien_name n"
  then have "length ''FICE'' = length (fien_name n)" by simp
  then show False by (simp add: fien_name_def)
qed

section \<open>Gated nets and child connections\<close>

lemma companions_quiet: "quiet es (foldl (companion m md c) es ns)"
proof (induction ns arbitrary: es)
  case (Cons n ns)
  have "quiet es (companion m md c es n)"
    by (auto simp: companion_def Let_def split: option.split intro: quiet_trans [OF quiet_steps(1) quiet_steps(3)])
  with Cons show ?case by (auto intro: quiet_trans)
qed simp

lemma bypass_quiet: "bypass_gate m inst pin in_pin es = Inr es' \<Longrightarrow> quiet es es'"
proof -
  assume "bypass_gate m inst pin in_pin es = Inr es'"
  then obtain out ck where es': "es' = add_assign m (out @ '' = '' @ ck) (edit m (i_name inst) None []
      [(pin, dead_name (dead_count es))] (add_wire m (dead_name (dead_count es)) (kill_output m es)))"
    by (auto simp: bypass_gate_def Let_def ebind_eq_Inr)
  show ?thesis unfolding es'
    by (rule quiet_trans [OF quiet_steps(4) quiet_trans [OF quiet_steps(2) quiet_trans [OF quiet_edit quiet_steps(3)]]]) simp
qed

lemma driver_quiet:
  assumes "edit_driver v path m r c st = Inr st'"
  shows "quiet (snd st) (snd st')"
proof -
  from assms obtain li pin where d: "map_of (t_driver (v_trace v)) r = Some (DLeaf li pin)"
    by (auto simp: edit_driver_def split: option.splits driver.splits)
  from assms [unfolded edit_driver_def d option.case driver.case] obtain p inst owner ro where
    "(case map_of (v_gates v) li of Some g \<Rightarrow> edit_gate v path m c li pin inst g st
      | None \<Rightarrow> if ro = Buf \<or> ro = Inv then edit_buffer v path m c li ro st
          else Inl (SysExit (leaf_name (v_trace v) li @ '': unexpected driver of a gated clock ('' @
                  role_name ro @ '')''))) = Inr st'"
    by (elim ebind_InrE) (auto simp: case_prod_beta elim: ebind_InrE)
  then consider g where "edit_gate v path m c li pin inst g st = Inr st'" | "edit_buffer v path m c li ro st = Inr st'"
    by (auto split: option.splits if_splits)
  then show ?thesis
  proof cases
    case 1
    then obtain rhs in_pin where "bypass_gate m inst pin in_pin (add_assign m (fien_name c @ '' = '' @ rhs) (snd st)) = Inr (snd st')"
      by (auto simp: edit_gate_def ebind_eq_Inr)
    from quiet_trans [OF quiet_steps(3) bypass_quiet [OF this]] show ?thesis by simp
  next
    case 2
    then show ?thesis by (auto simp: edit_buffer_def Let_def ebind_eq_Inr)
  qed
qed

lemma edit_net_quiet:
  assumes "edit_net v st x = Inr st'"
  shows "quiet (snd st) (snd st')"
proof -
  obtain path r names where x: "x = ((path, r), names)" by (metis surj_pair)
  from assms obtain m md c rel where
    k: "(let es1 = foldl (companion m md c) (snd st) names;
          es2 = (if map_of (md_dirs md) c = None then add_wire m (fien_name c) es1 else es1) in
        if rel = Local then edit_driver v path m r c (fst st, es2) else Inr (fst st, es2)) = Inr st'"
    by (auto simp: edit_net_def x Let_def ebind_eq_Inr split: option.splits)
  define es1 where "es1 = foldl (companion m md c) (snd st) names"
  define es2 where "es2 = (if map_of (md_dirs md) c = None then add_wire m (fien_name c) es1 else es1)"
  have k': "(if rel = Local then edit_driver v path m r c (fst st, es2) else Inr (fst st, es2)) = Inr st'"
    using k unfolding es2_def es1_def Let_def .
  have "quiet es1 es2" by (simp add: es2_def)
  with companions_quiet have 1: "quiet (snd st) es2" unfolding es1_def by (rule quiet_trans)
  show ?thesis
  proof (cases "rel = Local")
    case True
    with k' have "edit_driver v path m r c (fst st, es2) = Inr st'" by simp
    from quiet_trans [OF 1 driver_quiet [OF this, unfolded snd_conv]] show ?thesis .
  next
    case False
    with k' 1 show ?thesis by auto
  qed
qed

lemma child_conn_quiet:
  assumes "child_conn v path m md inst st c = Inr st'"
  shows "quiet (snd st) (snd st')"
proof -
  from assms obtain bits where
    k: "(case bits of [b] \<Rightarrow>
           if is_const_bit b then Inr st
           else ebind (uf_lookup (path, b) (fst st)) (\<lambda>(r, u).
             if map_of (v_gated v) (Some r) \<noteq> None
             then ebind (fien (v_canon v) path (Some r)) (\<lambda>x.
               Inr (u, edit m (i_name inst) None [(fien_name (fst c), x)] [] (snd st)))
             else Inr (u, snd st)) | _ \<Rightarrow> Inr st) = Inr st'"
    unfolding child_conn_def ebind_eq_Inr by blast
  have e: "quiet (snd st) (edit m (i_name inst) None [(fien_name (fst c), x)] [] (snd st))" for x
    by (rule quiet_edit) (simp add: fien_not_FICE)
  show ?thesis
  proof (cases "\<exists>b. bits = [b] \<and> \<not> is_const_bit b")
    case False
    then have "st' = st" using k by (auto split: list.splits if_splits)
    then show ?thesis by simp
  next
    case True
    then obtain b where b: "bits = [b]" "\<not> is_const_bit b" by blast
    from k [unfolded b(1) list.case] b(2) obtain r u where
      "(if map_of (v_gated v) (Some r) \<noteq> None
             then ebind (fien (v_canon v) path (Some r)) (\<lambda>x.
               Inr (u, edit m (i_name inst) None [(fien_name (fst c), x)] [] (snd st)))
             else Inr (u, snd st)) = Inr st'"
      by (auto simp: ebind_eq_Inr)
    with e show ?thesis by (auto simp: ebind_eq_Inr split: if_splits)
  qed
qed

lemma child_quiet:
  assumes "child_module v st pm = Inr st'"
  shows "quiet (snd st) (snd st')"
proof -
  from assms obtain md where f: "efold (child_inst v (fst pm) (snd pm) md) st (md_insts md) = Inr st'"
    by (auto simp: child_module_def ebind_eq_Inr)
  show ?thesis
  proof (rule quiet_loop [where e = snd, OF f])
    fix a inst b
    assume i: "child_inst v (fst pm) (snd pm) md a inst = Inr b"
    then consider "b = a" | "efold (child_conn v (fst pm) (snd pm) md inst) a (i_conns inst) = Inr b"
      unfolding child_inst_def Let_def by (metis sum.inject(2))
    then show "quiet (snd a) (snd b)"
    proof cases
      case 2
      show ?thesis by (rule quiet_loop [where e = snd, OF 2]) (rule child_conn_quiet)
    qed simp
  qed
qed

section \<open>Memories and observation points\<close>

lemma mem_ports_quiet: "quiet es (foldl (mem_port m) es ps)"
proof (induction ps arbitrary: es)
  case (Cons p ps)
  have "quiet es (mem_port m es p)" by (simp add: mem_port_def Let_def)
  with Cons show ?case by (auto intro: quiet_trans)
qed simp

lemma mem_signals_FICE: "''FICE'' \<notin> fst ` set (mem_signals k)" "''FICE'' \<notin> snd ` set (mem_signals k)"
  by (simp_all add: mem_signals_def)

lemma edit_mem_quiet:
  assumes "edit_mem v es x = Inr es'"
  shows "quiet es es'"
proof -
  obtain k mpath li where x: "x = (k, mpath, li)" by (metis surj_pair)
  from assms obtain path owner and inst :: inst where
    f: "efold (mem_level (v_paths v) (split_path path) k) (edit owner (i_name inst) None (mem_signals k) [] es)
      (rev [0..<Suc (length (split_path path))]) = Inr es'"
    unfolding edit_mem_def x prod.case Let_def by (elim ebind_InrE) (auto simp del: upt_Suc simp: case_prod_beta)
  have "quiet (edit owner (i_name inst) None (mem_signals k) [] es) es'"
  proof (rule quiet_loop [where e = "\<lambda>s. s", OF f])
    fix a d b
    assume "mem_level (v_paths v) (split_path path) k a d = Inr b"
    then obtain m where "b = foldl (mem_port m) a (mem_signals k) \<or> (\<exists>parent i.
        b = edit parent i None (map (\<lambda>s. (s, s)) (map snd (mem_signals k))) [] (foldl (mem_port m) a (mem_signals k)))"
      by (auto simp: mem_level_def Let_def ebind_eq_Inr split: if_splits)
    moreover have "''FICE'' \<notin> fst ` set (map (\<lambda>s. (s, s)) (map snd (mem_signals k)))"
      using mem_signals_FICE(2) by (simp add: image_image)
    ultimately show "quiet a b" using mem_ports_quiet quiet_trans [OF mem_ports_quiet quiet_edit] by blast
  qed
  with quiet_edit [OF mem_signals_FICE(1)] show ?thesis by (rule quiet_trans)
qed

lemma edit_observe_quiet: "edit_observe tn md es spec = Inr es' \<Longrightarrow> quiet es es'"
  by (auto simp: edit_observe_def Let_def split: prod.splits option.splits if_splits
      intro: quiet_trans [OF quiet_steps(1) quiet_steps(3)])

section \<open>Sinks\<close>

text \<open>The sink \<open>s\<close> of the leaf \<open>lf\<close>, whose pin is on \<open>r\<close>: the flop on a gated net, or no change.\<close>

definition gated_flop :: "conv \<Rightarrow> sink \<Rightarrow> net \<Rightarrow> bool" where
  "gated_flop v s r \<longleftrightarrow> snd (snd s) = Flop \<and> map_of (v_gated v) r \<noteq> None"

lemma edit_sink_flop:
  assumes "edit_sink v mem st s = Inr st'" and "uf_ok (v_trace v) (fst st)"
  shows "uf_ok (v_trace v) (fst st') \<and> (\<exists>path inst owner r. py_nth (f_leaves (t_flat (v_trace v))) (fst s) = Inr (path, inst, owner) \<and>
    pin_on (v_trace v) (fst s) (fst (snd s)) r \<and>
    (if gated_flop v s r then \<exists>k c. r = Some k \<and> map_of (v_canon v) (path, k) = Some c \<and>
        fst (snd st') = edit owner (i_name inst) (Some (i_cell inst @ ''_FICE'')) [(''FICE'', fien_name c)] [] (fst (snd st))
     else quiet (fst (snd st)) (fst (snd st'))))"
proof -
  obtain u0 es count where st: "st = (u0, es, count)" by (metis surj_pair)
  obtain li pin ro where s: "s = (li, pin, ro)" by (metis surj_pair)
  from assms(1) obtain lf r u where l: "py_nth (f_leaves (t_flat (v_trace v))) li = Inr lf"
    and p: "pin_net (v_trace v) li pin u0 = Inr (r, u)"
    and k0: "edit_sink_on v mem s lf (es, count) (r, u) = Inr st'"
    by (auto simp: edit_sink_def st s ebind_eq_Inr)
  obtain path inst owner where lf: "lf = (path, inst, owner)" by (metis surj_pair)
  note k = k0 [unfolded edit_sink_on_def s lf prod.case Let_def fst_conv snd_conv]
  note p' = pin_net_ok [OF p assms(2) [unfolded st fst_conv]]
  have uf: "uf_ok (v_trace v) (fst st')" using edit_sink_on_keeps [OF k0 p'(2)] by blast
  have "if gated_flop v s r then \<exists>k c. r = Some k \<and> map_of (v_canon v) (path, k) = Some c \<and>
        fst (snd st') = edit owner (i_name inst) (Some (i_cell inst @ ''_FICE'')) [(''FICE'', fien_name c)] [] es
     else quiet es (fst (snd st'))"
  proof (cases "gated_flop v s r")
    case True
    then have g: "ro = Flop" "map_of (v_gated v) r \<noteq> None" by (simp_all add: gated_flop_def s)
    from k g obtain x where "fien (v_canon v) path r = Inr x"
      "fst (snd st') = edit owner (i_name inst) (Some (i_cell inst @ ''_FICE'')) [(''FICE'', x)] [] es"
      by (auto simp: ebind_eq_Inr)
    with True show ?thesis unfolding fien_fien by auto
  next
    case False
    then have g: "ro \<noteq> Flop \<or> map_of (v_gated v) r = None" by (simp add: gated_flop_def s)
    from k g consider "fst (snd st') = es" | x where "fst (snd st') = edit owner (i_name inst) None [(''fi_ce_i'', x)] [] es"
      by (auto simp: ebind_eq_Inr split: if_splits)
    then have "quiet es (fst (snd st'))" by cases (simp_all add: quiet_edit)
    with False show ?thesis by simp
  qed
  with uf l p'(1) show ?thesis by (auto simp: s lf st)
qed

section \<open>All edits\<close>

lemma sinks_leaf:
  assumes "sinks t = Inr ss" and "(li, pin, ro) \<in> set ss"
  obtains path inst owner where "py_nth (f_leaves (t_flat t)) li = Inr (path, inst, owner)" and "has_role t li ro"
    and "ro = Flop \<Longrightarrow> first_pin (c_flop_clocks (t_cells t)) (dict_get (f_cell_dirs (t_flat t)) (i_cell inst) []) = Inr pin"
proof -
  from assms(1) obtain sss where e: "emap (leaf_sinks t) (enumerate 0 (f_leaves (t_flat t))) = Inr sss" and ss: "ss = concat sss"
    by (auto simp: sinks_def ebind_eq_Inr)
  from assms(2) ss obtain sl where sl: "sl \<in> set sss" "(li, pin, ro) \<in> set sl" by auto
  from e have all2: "list_all2 (\<lambda>x y. leaf_sinks t x = Inr y) (enumerate 0 (f_leaves (t_flat t))) sss"
    by (simp add: emap_eq_Inr)
  from sl(1) obtain k where k: "k < length sss" "sss ! k = sl" by (auto simp: in_set_conv_nth)
  with list_all2_lengthD [OF all2] list_all2_nthD2 [OF all2 k(1)]
  have kl: "k < length (f_leaves (t_flat t))" and f: "leaf_sinks t (k, f_leaves (t_flat t) ! k) = Inr sl"
    by (simp_all add: nth_enumerate_eq)
  obtain path inst owner where l: "f_leaves (t_flat t) ! k = (path, inst, owner)" by (metis surj_pair)
  from f obtain ro' where r: "py_nth (t_role t) k = Inr ro'"
    and m: "(let d = dict_get (f_cell_dirs (t_flat t)) (i_cell inst) [] in
          if ro' = Flop then ebind (first_pin (c_flop_clocks (t_cells t)) d) (\<lambda>p. Inr [(k, p, ro')])
          else if ro' = Latch then ebind (first_pin (c_latch_enables (t_cells t)) d) (\<lambda>p. Inr [(k, p, ro')])
          else if ro' = Macro then Inr [(k, c_macro_clock (t_cells t), ro')]
          else if ro' = Blackbox
          then Inr (map (\<lambda>pin. (k, pin, ro')) (filter (\<lambda>pin. re_search clk_name_re pin \<noteq> None \<and>
            (case map_of (f_mods (t_flat t)) (i_cell inst) of
               None \<Rightarrow> False | Some md \<Rightarrow> map_of (md_dirs md) pin = Some ''input'')) (map fst (i_conns inst))))
          else Inr []) = Inr sl"
    unfolding leaf_sinks_def l prod.case ebind_eq_Inr by blast
  from m sl(2) have eq: "li = k" "ro = ro'" by (auto simp: Let_def ebind_eq_Inr split: if_splits)
  show thesis
  proof (rule that)
    show "py_nth (f_leaves (t_flat t)) li = Inr (path, inst, owner)" using kl l eq by (simp add: py_nth_Inr)
    show "has_role t li ro" using r eq by (auto simp: has_role_def py_nth_Inr)
    assume "ro = Flop"
    with m sl(2) eq show "first_pin (c_flop_clocks (t_cells t)) (dict_get (f_cell_dirs (t_flat t)) (i_cell inst) []) = Inr pin"
      by (auto simp: Let_def ebind_eq_Inr)
  qed
qed

text \<open>Every instance statement is one leaf at most, as in a uniquified netlist.\<close>

definition leaves_once :: "trace \<Rightarrow> bool" where
  "leaves_once t \<longleftrightarrow> distinct (map (\<lambda>(path, inst, owner). (owner, i_name inst)) (f_leaves (t_flat t)))"

lemma flop_sink_unique:
  assumes "sinks t = Inr ss" and "leaves_once t" and "(li, pin, Flop) \<in> set ss" and "(li', pin', Flop) \<in> set ss"
    and "py_nth (f_leaves (t_flat t)) li = Inr (path, inst, owner)"
    and "py_nth (f_leaves (t_flat t)) li' = Inr (path', inst', owner)" and "i_name inst' = i_name inst"
  shows "li' = li \<and> pin' = pin"
proof -
  let ?key = "\<lambda>(path, inst, owner). (owner, i_name inst)"
  have l: "li < length (f_leaves (t_flat t))" "li' < length (f_leaves (t_flat t))"
    and n: "f_leaves (t_flat t) ! li = (path, inst, owner)" "f_leaves (t_flat t) ! li' = (path', inst', owner)"
    using assms(5,6) by (simp_all add: py_nth_Inr)
  have "map ?key (f_leaves (t_flat t)) ! li = map ?key (f_leaves (t_flat t)) ! li'"
    using l n assms(7) by simp
  then have li: "li' = li" using assms(2) l unfolding leaves_once_def by (simp add: distinct_conv_nth) metis
  from sinks_leaf [OF assms(1,3)] assms(5)
  have 1: "first_pin (c_flop_clocks (t_cells t)) (dict_get (f_cell_dirs (t_flat t)) (i_cell inst) []) = Inr pin" by auto
  from sinks_leaf [OF assms(1,4)] assms(5)
  have 2: "first_pin (c_flop_clocks (t_cells t)) (dict_get (f_cell_dirs (t_flat t)) (i_cell inst) []) = Inr pin'"
    unfolding li by auto
  from 1 2 li show ?thesis by simp
qed

lemma fice_init: "fice no_edits m i = (None, None)"
  by (simp add: fice_def cell_of_def adds_of_def no_edits_def dict_get_def)

lemma fice_edit: "fice (edit m i (Some c) [(''FICE'', x)] [] es) m' i' =
    (if m' = m \<and> i' = i then (Some c, Some x) else fice es m' i')"
  by (auto simp: fice_def edit_simps)

lemma sinks_fice:
  assumes f: "efold (edit_sink v mem) st ss = Inr st'" and ok: "uf_ok (v_trace v) (fst st)"
    and ss: "sinks (v_trace v) = Inr ss" "leaves_once (v_trace v)" and s: "(li, pin, Flop) \<in> set ss"
    and l: "py_nth (f_leaves (t_flat (v_trace v))) li = Inr (path, inst, owner)" and p: "pin_on (v_trace v) li pin r"
    and start: "fice (fst (snd st)) owner (i_name inst) = (None, None)"
  shows "if map_of (v_gated v) r \<noteq> None
    then \<exists>k c. r = Some k \<and> map_of (v_canon v) (path, k) = Some c \<and>
      fice (fst (snd st')) owner (i_name inst) = (Some (i_cell inst @ ''_FICE''), Some (fien_name c))
    else fice (fst (snd st')) owner (i_name inst) = (None, None)"
proof -
  let ?s = "(li, pin, Flop)"
  let ?g = "map_of (v_gated v) r \<noteq> None"
  let ?Q = "\<lambda>st. \<exists>k c. r = Some k \<and> map_of (v_canon v) (path, k) = Some c \<and>
      fice (fst (snd st)) owner (i_name inst) = (Some (i_cell inst @ ''_FICE''), Some (fien_name c))"
  have step: "uf_ok (v_trace v) (fst b)" "y \<noteq> ?s \<or> \<not> ?g \<Longrightarrow> fice (fst (snd b)) owner (i_name inst) = fice (fst (snd a)) owner (i_name inst)"
    "y = ?s \<Longrightarrow> ?g \<Longrightarrow> ?Q b"
    if y: "y \<in> set ss" and u: "uf_ok (v_trace v) (fst a)" and e: "edit_sink v mem a y = Inr b" for a y b
  proof -
    from edit_sink_flop [OF e u] obtain path' inst' owner' r' where uf: "uf_ok (v_trace v) (fst b)"
      and l': "py_nth (f_leaves (t_flat (v_trace v))) (fst y) = Inr (path', inst', owner')"
      and p': "pin_on (v_trace v) (fst y) (fst (snd y)) r'"
      and c: "if gated_flop v y r' then \<exists>k c. r' = Some k \<and> map_of (v_canon v) (path', k) = Some c \<and>
          fst (snd b) = edit owner' (i_name inst') (Some (i_cell inst' @ ''_FICE'')) [(''FICE'', fien_name c)] [] (fst (snd a))
        else quiet (fst (snd a)) (fst (snd b))" by blast
    show "uf_ok (v_trace v) (fst b)" by (rule uf)
    show "?Q b" if "y = ?s" ?g
    proof -
      from that l' l have i: "path' = path" "inst' = inst" "owner' = owner" by simp_all
      from that p' pin_on_det [OF p] have "r' = r" by simp
      with that c i show ?thesis by (auto simp: gated_flop_def fice_edit)
    qed
    show "fice (fst (snd b)) owner (i_name inst) = fice (fst (snd a)) owner (i_name inst)" if "y \<noteq> ?s \<or> \<not> ?g"
    proof (cases "gated_flop v y r'")
      case False
      with c show ?thesis by (simp add: quiet_def)
    next
      case True
      then obtain li' pin' where y': "y = (li', pin', Flop)" by (auto simp: gated_flop_def) (metis surj_pair snd_conv)
      have "\<not> (owner' = owner \<and> i_name inst' = i_name inst)"
      proof
        assume o: "owner' = owner \<and> i_name inst' = i_name inst"
        have l2: "py_nth (f_leaves (t_flat (v_trace v))) li' = Inr (path', inst', owner)" "(li', pin', Flop) \<in> set ss"
          using l' y y' o by simp_all
        have "li' = li \<and> pin' = pin" using flop_sink_unique [OF ss s l2(2) l l2(1)] o by simp
        with y' p' pin_on_det [OF p] True that show False by (auto simp: gated_flop_def)
      qed
      with c True show ?thesis by (auto simp: fice_edit)
    qed
  qed
  show ?thesis
  proof (cases ?g)
    case True
    have "?Q st'"
    proof (rule efold_hit [where I = "\<lambda>st. uf_ok (v_trace v) (fst st)" and Q = ?Q, OF f s ok])
      fix a y b
      assume 1: "y \<in> set ss" "uf_ok (v_trace v) (fst a)" "edit_sink v mem a y = Inr b"
      show "uf_ok (v_trace v) (fst b)" by (rule step(1) [OF 1])
      show "?Q b" if "?Q a"
      proof (cases "y = ?s")
        case True
        from step(3) [OF 1 True \<open>?g\<close>] show ?thesis .
      next
        case False
        with step(2) [OF 1] that show ?thesis by simp
      qed
    next
      fix a b
      assume "uf_ok (v_trace v) (fst a)" "edit_sink v mem a ?s = Inr b"
      from step(3) [OF s this refl True] show "?Q b" .
    qed
    with True show ?thesis by simp
  next
    case False
    have "uf_ok (v_trace v) (fst st') \<and> fice (fst (snd st')) owner (i_name inst) = (None, None)"
    proof (rule efold_inv [where P = "\<lambda>st. uf_ok (v_trace v) (fst st) \<and> fice (fst (snd st)) owner (i_name inst) = (None, None)", OF f])
      fix a y b
      assume y: "y \<in> set ss" and a: "uf_ok (v_trace v) (fst a) \<and> fice (fst (snd a)) owner (i_name inst) = (None, None)"
        and e: "edit_sink v mem a y = Inr b"
      from step(1,2) [OF y conjunct1 [OF a] e] a False
      show "uf_ok (v_trace v) (fst b) \<and> fice (fst (snd b)) owner (i_name inst) = (None, None)" by simp
    qed (use ok start in simp)
    with False show ?thesis by simp
  qed
qed

lemma all_edits_fice:
  assumes "all_edits v mem observe u = Inr (es, count, mems)" and "uf_ok (v_trace v) u"
    and ss: "sinks (v_trace v) = Inr (v_sinks v)" "leaves_once (v_trace v)" and s: "(li, pin, Flop) \<in> set (v_sinks v)"
    and l: "py_nth (f_leaves (t_flat (v_trace v))) li = Inr (path, inst, owner)" and p: "pin_on (v_trace v) li pin r"
  shows "if map_of (v_gated v) r \<noteq> None
    then \<exists>k c. r = Some k \<and> map_of (v_canon v) (path, k) = Some c \<and>
      fice es owner (i_name inst) = (Some (i_cell inst @ ''_FICE''), Some (fien_name c))
    else fice es owner (i_name inst) = (None, None)"
proof -
  from assms(1) obtain st1 u2 es2 u3 es3 es4 md where
    1: "edit_nets v (u, no_edits) = Inr st1"
    and 2: "efold (child_module v) st1 (v_paths v) = Inr (u2, es2)"
    and 3: "efold (edit_sink v mem) (u2, es2, []) (v_sinks v) = Inr (u3, es3, count)"
    and 4: "efold (edit_mem v) es3 (enumerate 0 (mem_leaves (v_trace v) mem)) = Inr es4"
    and 5: "efold (edit_observe (f_top (t_flat (v_trace v))) md) es4 observe = Inr es"
    by (auto simp: all_edits_def Let_def ebind_eq_Inr)
  have i0: "edit_inv v (u, no_edits)" using assms(2) by (simp add: edit_inv_def adds_ok_init)
  have i1: "edit_inv v st1" using edit_nets_keeps [OF 1 i0] by (simp add: edit_step_def)
  have u2: "uf_ok (v_trace v) u2" using children_keep [OF 2 i1] by (simp add: edit_step_def edit_inv_def)
  from 1 have "efold (edit_net v) (u, no_edits) (sort_key fst (v_local v)) = Inr st1" by (simp add: edit_nets_def)
  from quiet_loop [where e = snd, OF this edit_net_quiet] have q1: "quiet no_edits (snd st1)" by simp
  from quiet_loop [where e = snd, OF 2 child_quiet] have q2: "quiet (snd st1) es2" by simp
  from quiet_loop [where e = "\<lambda>s. s", OF 4 edit_mem_quiet] have q4: "quiet es3 es4" by simp
  from quiet_loop [where e = "\<lambda>s. s", OF 5 edit_observe_quiet] have q5: "quiet es4 es" by simp
  have "fice (fst (snd (u2, es2, [] :: counter))) owner (i_name inst) = (None, None)"
    using quiet_trans [OF q1 q2] by (simp add: quiet_def fice_init)
  note k = sinks_fice [OF 3 _ ss s l p this, unfolded fst_conv snd_conv, OF u2]
  have eq: "fice es owner (i_name inst) = fice es3 owner (i_name inst)"
    using quiet_trans [OF q4 q5] by (simp add: quiet_def)
  show ?thesis unfolding eq by (rule k)
qed

end
