(* ===== verification/Ce_Example.thy ===== *)
theory Ce_Example
  imports Ce_Product Ce_Flops Ce_Write Clock_Props
begin

text \<open>
  The example design of the converter's witnesses: an ICG in the top module, whose output goes into
  a module that gates it again, for a flop; with a valuation of the enables in which the first gate
  is open and the second closed, one in which both are open, and two moments of the clock.
\<close>

definition two_gates :: modules where
  "two_gates =
     [(''sub'', (module_init ''sub'' [''ck'', ''e''] [] 0 0)
        \<lparr>md_dirs := [(''ck'', ''input''), (''e'', ''input'')],
         md_insts := [example_inst ''ICGP'' ''h'' [(''CP'', ''ck''), (''E'', ''e''), (''TE'', ''e''), (''Q'', ''go'')],
           example_inst ''DFF'' ''r'' [(''CP'', ''go''), (''Q'', ''q'')]]\<rparr>),
      (''top'', (module_init ''top'' [''clk'', ''en'', ''e''] [] 0 0)
        \<lparr>md_dirs := [(''clk'', ''input''), (''en'', ''input''), (''e'', ''input'')],
         md_insts := [example_inst ''ICGP'' ''g'' [(''CP'', ''clk''), (''E'', ''en''), (''TE'', ''en''), (''Q'', ''c'')],
           example_inst ''sub'' ''u'' [(''ck'', ''c''), (''e'', ''e'')]]\<rparr>)]"

definition two_gates_dirs :: cell_dirs where
  "two_gates_dirs =
     [(''ICGP'', [(''CP'', ''input''), (''E'', ''input''), (''TE'', ''input''), (''Q'', ''output'')]),
      (''DFF'', [(''CP'', ''input''), (''Q'', ''output'')])]"

definition two_gates_trace :: "trace res" where
  "two_gates_trace = ebind (flat_new 4 two_gates ''top'' two_gates_dirs) (\<lambda>f. trace_of f cells_py)"

definition two_gates_conv :: "(conv \<times> edits) res" where
  "two_gates_conv = ebind two_gates_trace (\<lambda>t. ebind (conv_of 20 remdups t) (\<lambda>(v, u).
     ebind (all_edits v [] [] u) (\<lambda>(es, count, mems). Inr (v, es))))"

definition one_open :: valuation where
  "one_open p n \<longleftrightarrow> n \<in> set [''en'', ''c__fien'', ''ck__fien'']"

definition all_open :: valuation where
  "all_open p n \<longleftrightarrow> n \<in> set [''en'', ''e'', ''c__fien'', ''ck__fien'', ''go__fien'']"

definition two_low :: "net \<Rightarrow> bool" where
  "two_low = high [''/en'', ''u/e'']"

definition two_high :: "net \<Rightarrow> bool" where
  "two_high = high [''/clk'', ''/en'', ''u/e'', ''u/ck'', ''u/go'']"

definition two_gates_facts :: "conv \<Rightarrow> edits \<Rightarrow> bool" where
  "two_gates_facts v es \<longleftrightarrow> conv_ready v \<and> leaves_once (v_trace v) \<and>
     assigns_hold one_open v es \<and> ports_hold one_open v es \<and> assigns_hold all_open v es \<and> ports_hold all_open v es \<and>
     map_of (v_gated v) (Some ''u/go'') = Some [GIcg 0, GIcg 1] \<and> map_of (v_canon v) (''u'', ''u/go'') = Some ''go'' \<and>
     (gate_cond (v_trace v) one_open (GIcg 0) \<and> \<not> gate_cond (v_trace v) one_open (GIcg 1)) \<and>
     (gate_cond (v_trace v) all_open (GIcg 0) \<and> gate_cond (v_trace v) all_open (GIcg 1)) \<and>
     v_sinks v = [(2, ''CP'', Flop)] \<and>
     py_nth (f_leaves (t_flat (v_trace v))) 2 = Inr (''u'', example_inst ''DFF'' ''r'' [(''CP'', ''go''), (''Q'', ''q'')], ''sub'') \<and>
     pin_rep (v_trace v) 2 ''CP'' = Some (Some ''u/go'') \<and>
     settled (v_trace v) (\<lambda>b. b \<noteq> ''clk'') (\<lambda>li. True) two_low \<and> settled (v_trace v) (\<lambda>b. True) (\<lambda>li. True) two_high"

lemma two_gates_run: "case two_gates_conv of Inl e \<Rightarrow> False | Inr (v, es) \<Rightarrow> two_gates_facts v es"
  by code_simp

lemma two_gates_ex:
  obtains f t v u es count mems where "flat_new 4 two_gates ''top'' two_gates_dirs = Inr f" and "trace_of f cells_py = Inr t"
    and "conv_of 20 remdups t = Inr (v, u)" and "all_edits v [] [] u = Inr (es, count, mems)" and "two_gates_facts v es"
proof -
  from two_gates_run obtain v es where c: "two_gates_conv = Inr (v, es)" and k: "two_gates_facts v es"
    by (auto split: sum.splits)
  from c obtain t u count mems where 1: "two_gates_trace = Inr t" "conv_of 20 remdups t = Inr (v, u)"
    "all_edits v [] [] u = Inr (es, count, mems)"
    by (auto simp: two_gates_conv_def ebind_eq_Inr)
  from 1(1) obtain f where "flat_new 4 two_gates ''top'' two_gates_dirs = Inr f" "trace_of f cells_py = Inr t"
    by (auto simp: two_gates_trace_def ebind_eq_Inr)
  from that [OF this 1(2,3) k] show thesis .
qed

text \<open>An inverting gate: a NAND of the clock and an active-low latch, with a flop behind it.\<close>

definition nand_gate :: modules where
  "nand_gate =
     [(''top'', (module_init ''top'' [''clk'', ''d''] [] 0 0)
        \<lparr>md_dirs := [(''clk'', ''input''), (''d'', ''input'')],
         md_insts := [example_inst ''LATN'' ''l'' [(''EN'', ''clk''), (''D'', ''d''), (''Q'', ''x'')],
           example_inst ''NAND2'' ''g'' [(''A1'', ''clk''), (''A2'', ''x''), (''ZN'', ''h'')],
           example_inst ''DFF'' ''r'' [(''CP'', ''h''), (''Q'', ''q'')]]\<rparr>)]"

definition nand_dirs :: cell_dirs where
  "nand_dirs =
     [(''LATN'', [(''EN'', ''input''), (''D'', ''input''), (''Q'', ''output'')]),
      (''NAND2'', [(''A1'', ''input''), (''A2'', ''input''), (''ZN'', ''output'')]),
      (''DFF'', [(''CP'', ''input''), (''Q'', ''output'')])]"

definition nand_conv :: "(clk \<times> edits) res" where
  "nand_conv = ebind (flat_new 3 nand_gate ''top'' nand_dirs) (\<lambda>f. ebind (trace_of f cells_py) (\<lambda>t.
     ebind (clock_of 20 t (Some ''/h'') (clk_start t)) (\<lambda>(c, st). ebind (conv_of 20 remdups t) (\<lambda>(v, u).
     ebind (all_edits v [] [] u) (\<lambda>(es, count, mems). Inr (c, es))))))"

end
