(* ===== verification/Ce_Props.thy ===== *)
theory Ce_Props
  imports Ce_Example
begin

text \<open>
  The properties of the clock-enable converter: what the enable nets carry, which flops they reach,
  and that an enabled flop is one whose clock edge passes in the original design.
\<close>

text \<open>C3: In every valuation that obeys the added assigns and port connections, the enable net of
  every gated clock net, in every module it is seen from, is the product of the conditions of
  the gates the clock went through.\<close>

theorem enable_is_product:
  assumes "flat_new limit mods topm cds = Inr f" and "trace_of f cs = Inr t"
    and "conv_of n horder t = Inr (v, u)" and "all_edits v mem observe u = Inr (es, count, mems)"
    and "conv_ready v" and "assigns_hold V v es" and "ports_hold V v es"
    and "map_of (v_gated v) (Some r) = Some gs" and "map_of (v_canon v) (path, r) = Some c"
  shows "V path (fien_name c) = list_all (gate_cond t V) gs"
proof -
  note ok = conv_of_ok [OF assms(3) clk_start_inv [OF assms(1,2)]]
  have "uf_ok (v_trace v) u" using ok(1) by (simp add: conv_ok_def)
  then have cv: "converted v u es V"
    using ok(1) all_edits_ok [OF assms(4)] assms(5-7) by (simp add: converted_def)
  from gated_clocked [OF ok(1) assms(8)] obtain rt iv where "clocked (v_trace v) (Some r) rt iv gs" .
  from product_all [OF cv this assms(8)] assms(9) show ?thesis by (simp add: product_at_def ok(2))
qed

theorem enable_is_product_witness:
  "one_open ''u'' (fien_name ''go'') = False"
proof (rule two_gates_ex)
  fix f t v u es count mems
  assume 1: "flat_new 4 two_gates ''top'' two_gates_dirs = Inr f" "trace_of f cells_py = Inr t"
    "conv_of 20 remdups t = Inr (v, u)" "all_edits v [] [] u = Inr (es, count, mems)" and k: "two_gates_facts v es"
  have t: "v_trace v = t" using conv_of_ok(2) [OF 1(3) clk_start_inv [OF 1(1,2)]] .
  note k' = k [unfolded two_gates_facts_def t]
  from k' have 2: "conv_ready v" "assigns_hold one_open v es" "ports_hold one_open v es"
    "map_of (v_gated v) (Some ''u/go'') = Some [GIcg 0, GIcg 1]" "map_of (v_canon v) (''u'', ''u/go'') = Some ''go''"
    and g: "gate_cond t one_open (GIcg 0) \<and> \<not> gate_cond t one_open (GIcg 1)"
    by blast+
  from enable_is_product [OF 1 2] g show ?thesis by simp
qed






end
